theory Spec2Isabelle
  imports Main "HOL-Library.Multiset"
begin

section \<open>Constants and data model of bomberman.cpp\<close>

text \<open>
  The C++ type \<open>int\<close> is modelled by \<open>int\<close>; every value the program stores stays far
  inside the 32-bit range (coordinates below 60, counters below 11), so no wrap-around is
  involved.  \<open>WIDTH\<close> and \<open>HEIGHT\<close> are the macros of the source.
\<close>

definition WIDTH :: int where "WIDTH = 60"
definition HEIGHT :: int where "HEIGHT = 30"
definition NUM_BOMBS :: int where "NUM_BOMBS = 3"

definition PLAYER :: char where "PLAYER = CHR ''P''"
definition ENEMY :: char where "ENEMY = CHR ''E''"
definition BOMB :: char where "BOMB = CHR ''B''"
definition DESTRUCTIBLE_BLOCK :: char where "DESTRUCTIBLE_BLOCK = CHR ''#''"
definition INDESTRUCTIBLE_BLOCK :: char where "INDESTRUCTIBLE_BLOCK = CHR ''X''"
definition EXIT_DOOR :: char where "EXIT_DOOR = CHR ''D''"
definition TRAP :: char where "TRAP = CHR ''T''"

text \<open>
  One slot of \<open>Entity*** grid\<close>: \<open>nullptr\<close>, or a pointer to an object of one of the
  classes that the program stores in the grid.  A \<open>DestructibleBlock\<close> carries its
  \<open>isGreen\<close> flag; \<open>ExitDoorCell\<close> is the slot that aliases the \<open>exitDoor\<close> object
  (only \<open>loadGame\<close> creates it, for the symbol D).
\<close>

datatype cell =
    Nullptr
  | IndestructibleBlock
  | DestructibleBlock bool
  | Trap
  | ExitDoorCell

type_synonym grid = "cell list list"

record player =
  p_x :: int
  p_y :: int
  hasBombs :: int

record enemy =
  e_x :: int
  e_y :: int
  moveType :: int
  moveStep :: int

text \<open>\<open>plantTime\<close> is the reading of the steady clock, in nanoseconds.\<close>

record bomb =
  b_x :: int
  b_y :: int
  plantTime :: int

record exit_door =
  d_x :: int
  d_y :: int
  visible :: bool

text \<open>
  The members of \<open>class Game\<close>.  \<open>enemyCount\<close> and \<open>bombCount\<close> are the lengths of the
  lists; \<open>bombsCap\<close> is the number of slots of the array that \<open>bombs\<close> points to
  (\<open>new Bomb*[NUM_BOMBS]\<close> in \<open>initializeGame\<close>, \<open>new Bomb*[bombCount]\<close> in
  \<open>loadGame\<close>).
\<close>

record game =
  grid :: grid
  player :: player
  enemies :: "enemy list"
  bombs :: "bomb list"
  bombsCap :: nat
  exitDoor :: exit_door
  bombsPlanted :: int

text \<open>
  What ends a call other than a normal return: undefined behaviour of the C++ (an access
  outside an array or a string, a call through \<open>nullptr\<close>, the use of a local
  variable that was never assigned, a second \<open>delete\<close> of one object), an array
  \<open>new\<close> of negative length, or \<open>gameOver\<close> / \<open>gameWin\<close>, which call \<open>exit(0)\<close>.
\<close>

datatype halt =
    OutOfBounds
  | NullDereference
  | UninitializedRead
  | BadArrayLength
  | DoubleDelete
  | GameOver string
  | GameWin

section \<open>Entities\<close>

text \<open>\<open>getSymbol\<close> through a grid slot; calling it through \<open>nullptr\<close> is a fault.\<close>

fun getSymbol :: "cell \<Rightarrow> halt + char" where
  "getSymbol Nullptr = Inl NullDereference"
| "getSymbol IndestructibleBlock = Inr INDESTRUCTIBLE_BLOCK"
| "getSymbol (DestructibleBlock green) = Inr DESTRUCTIBLE_BLOCK"
| "getSymbol Trap = Inr TRAP"
| "getSymbol ExitDoorCell = Inr EXIT_DOOR"

definition canPlantBomb :: "player \<Rightarrow> bool" where
  "canPlantBomb p = (hasBombs p > 0)"

definition useBomb :: "player \<Rightarrow> player" where
  "useBomb p = p\<lparr>hasBombs := hasBombs p - 1\<rparr>"

definition reloadBomb :: "player \<Rightarrow> player" where
  "reloadBomb p = p\<lparr>hasBombs := hasBombs p + 1\<rparr>"

definition Player_move :: "player \<Rightarrow> int \<Rightarrow> int \<Rightarrow> player" where
  "Player_move p dx dy = p\<lparr>p_x := p_x p + dx, p_y := p_y p + dy\<rparr>"

definition Enemy_move :: "enemy \<Rightarrow> int \<Rightarrow> int \<Rightarrow> enemy" where
  "Enemy_move e dx dy = e\<lparr>e_x := e_x e + dx, e_y := e_y e + dy\<rparr>"

text \<open>
  The pseudo-random generator is the sequence \<open>rs\<close> of the values that successive calls
  of \<open>rand()\<close> return (all non-negative); \<open>k\<close> counts the calls made so far.
\<close>

type_synonym rng = "nat \<Rightarrow> nat"

definition enemy_dx :: "int \<Rightarrow> int" where
  "enemy_dx randomMove =
     (if randomMove = 0 \<or> randomMove = 1 then 1
      else if randomMove = 2 \<or> randomMove = 3 then - 1 else 0)"

definition enemy_dy :: "int \<Rightarrow> int" where
  "enemy_dy randomMove =
     (if randomMove = 0 \<or> randomMove = 1 then - 1
      else if randomMove = 2 \<or> randomMove = 3 then 1 else 0)"

text \<open>
  \<open>Enemy::update\<close>.  \<open>moveStep++ != 10\<close> compares the old value and increments; only the
  branch that moves calls \<open>rand()\<close>.
\<close>

definition Enemy_update :: "rng \<Rightarrow> nat \<Rightarrow> enemy \<Rightarrow> enemy \<times> nat" where
  "Enemy_update rs k e =
     (if moveStep e \<noteq> 10 then (e\<lparr>moveStep := moveStep e + 1\<rparr>, k)
      else
        let e0 = e\<lparr>moveStep := 0\<rparr>;
            randomMove = int (rs k) mod 4;
            dx = (if moveType e = 0 \<or> moveType e = 2 then enemy_dx randomMove else 0);
            dy = (if moveType e = 1 \<or> moveType e = 2 then enemy_dy randomMove else 0)
        in (Enemy_move e0 dx dy, Suc k))"

text \<open>
  \<open>Bomb::shouldExplode\<close>: \<open>now\<close> is the clock reading, in nanoseconds as \<open>plantTime\<close>.
  \<open>duration_cast<seconds>\<close> divides by \<open>10^9\<close> and truncates towards zero.
\<close>

definition duration_cast_seconds :: "int \<Rightarrow> int" where
  "duration_cast_seconds ns = sgn ns * (\<bar>ns\<bar> div 1000000000)"

definition shouldExplode :: "bomb \<Rightarrow> int \<Rightarrow> bool" where
  "shouldExplode b now = (duration_cast_seconds (now - plantTime b) \<ge> 3)"

section \<open>Movement validation\<close>

text \<open>
  A read of \<open>grid[y][x]\<close>: outside the \<open>HEIGHT\<close> by \<open>WIDTH\<close> arrays it is a fault.
\<close>

definition grid_read :: "grid \<Rightarrow> int \<Rightarrow> int \<Rightarrow> halt + cell" where
  "grid_read g y x =
     (if 0 \<le> y \<and> y < HEIGHT \<and> 0 \<le> x \<and> x < WIDTH then Inr (g ! nat y ! nat x)
      else Inl OutOfBounds)"

text \<open>
  \<open>Game::isValidMove\<close>.  The source is
  \<^verbatim>\<open>x > 0 && x < WIDTH - 1 && y > 0 && y < HEIGHT - 1 && grid[y][x] == nullptr
     || grid[y][x]->getSymbol() == TRAP\<close>
  and \<open>&&\<close> binds tighter than \<open>||\<close>: when the conjunction is false, the right operand
  reads \<open>grid[y][x]\<close> and calls \<open>getSymbol\<close> through it, whatever \<open>x\<close> and \<open>y\<close> are.
\<close>

definition isValidMove :: "grid \<Rightarrow> int \<Rightarrow> int \<Rightarrow> halt + bool" where
  "isValidMove g x y =
     (if x > 0 \<and> x < WIDTH - 1 \<and> y > 0 \<and> y < HEIGHT - 1 \<and> g ! nat y ! nat x = Nullptr
      then Inr True
      else case grid_read g y x of
             Inl h \<Rightarrow> Inl h
           | Inr c \<Rightarrow> (case getSymbol c of Inl h \<Rightarrow> Inl h | Inr s \<Rightarrow> Inr (s = TRAP)))"

section \<open>Planting and exploding bombs\<close>

text \<open>An assignment \<open>grid[y][x] = c\<close> at indices inside the arrays.\<close>

definition grid_write :: "grid \<Rightarrow> int \<Rightarrow> int \<Rightarrow> cell \<Rightarrow> grid" where
  "grid_write g y x c = g[nat y := (g ! nat y)[nat x := c]]"

text \<open>The test \<open>grid[y][x] && grid[y][x]->getSymbol() == s\<close>.\<close>

definition holds_symbol :: "cell \<Rightarrow> char \<Rightarrow> bool" where
  "holds_symbol c s = (c \<noteq> Nullptr \<and> getSymbol c = Inr s)"

text \<open>\<open>Game::movePlayer\<close>.\<close>

definition movePlayer :: "game \<Rightarrow> int \<Rightarrow> int \<Rightarrow> halt + game" where
  "movePlayer st dx dy =
     (let newX = p_x (player st) + dx; newY = p_y (player st) + dy in
      case isValidMove (grid st) newX newY of
        Inl h \<Rightarrow> Inl h
      | Inr ok \<Rightarrow> Inr (if ok then st\<lparr>player := Player_move (player st) dx dy\<rparr> else st))"

text \<open>
  \<open>Game::plantBomb\<close>; \<open>now\<close> is the clock reading that the \<open>Bomb\<close> constructor takes.
  The store \<open>bombs[bombCount++] = ...\<close> is a fault when the array has no slot left.
\<close>

definition plantBomb :: "int \<Rightarrow> game \<Rightarrow> halt + game" where
  "plantBomb now st =
     (if canPlantBomb (player st) then
        if int (length (bombs st)) \<ge> NUM_BOMBS then Inr st
        else if length (bombs st) < bombsCap st then
          Inr (st\<lparr>bombs := bombs st @ [\<lparr>b_x = p_x (player st), b_y = p_y (player st),
                                          plantTime = now\<rparr>],
                  player := useBomb (player st),
                  bombsPlanted := bombsPlanted st + 1\<rparr>)
        else Inl OutOfBounds
      else Inr st)"

text \<open>
  The loop of \<open>explodeBomb\<close> that looks for an enemy on the cell \<open>(x, y)\<close>: the first one
  found is deleted, the last enemy of the array takes its slot, and the loop stops.
\<close>

function eliminateEnemy :: "enemy list \<Rightarrow> int \<Rightarrow> int \<Rightarrow> nat \<Rightarrow> enemy list" where
  "eliminateEnemy es x y j =
     (if j < length es then
        if e_x (es ! j) = x \<and> e_y (es ! j) = y then butlast (es[j := last es])
        else eliminateEnemy es x y (Suc j)
      else es)"
  by pat_completeness auto
termination
  by (relation "measure (\<lambda>(es, x, y, j). length es - j)") auto

declare eliminateEnemy.simps [simp del]

text \<open>
  The innermost loop of \<open>explodeBomb\<close>, \<open>for (int i = 1; i <= 3; i++)\<close>, over the list of
  the values of \<open>i\<close> that remain.  \<open>gameOver\<close> ends the process.
\<close>

fun scan :: "int \<Rightarrow> int \<Rightarrow> int \<Rightarrow> int \<Rightarrow> int list \<Rightarrow> game \<Rightarrow> halt + game" where
  "scan bx by dx dy [] st = Inr st"
| "scan bx by dx dy (i # is) st =
     (let x = bx + dx * i; y = by + dy * i in
      if x < 0 \<or> x \<ge> WIDTH \<or> y < 0 \<or> y \<ge> HEIGHT then Inr st
      else if holds_symbol (grid st ! nat y ! nat x) DESTRUCTIBLE_BLOCK then
        Inr (st\<lparr>grid := grid_write (grid st) y x Nullptr,
                exitDoor := (if x = d_x (exitDoor st) \<and> y = d_y (exitDoor st)
                             then (exitDoor st)\<lparr>visible := True\<rparr> else exitDoor st)\<rparr>)
      else if holds_symbol (grid st ! nat y ! nat x) INDESTRUCTIBLE_BLOCK then Inr st
      else
        let st1 = st\<lparr>enemies := eliminateEnemy (enemies st) x y 0\<rparr> in
        if p_x (player st1) = x \<and> p_y (player st1) = y
        then Inl (GameOver ''Player was blown up by a bomb!'')
        else scan bx by dx dy is st1)"

text \<open>A \<open>for\<close> loop over a list of values whose body may end the process.\<close>

fun for_each :: "'a list \<Rightarrow> ('a \<Rightarrow> 's \<Rightarrow> halt + 's) \<Rightarrow> 's \<Rightarrow> halt + 's" where
  "for_each [] body s = Inr s"
| "for_each (v # vs) body s =
     (case body v s of Inl h \<Rightarrow> Inl h | Inr s' \<Rightarrow> for_each vs body s')"

text \<open>\<open>Game::explodeBomb\<close>.\<close>

definition explodeBomb :: "bomb \<Rightarrow> game \<Rightarrow> halt + game" where
  "explodeBomb b st =
     (case for_each [- 1, 0, 1] (\<lambda>dx.
             for_each [- 1, 0, 1] (\<lambda>dy s.
               if dx = 0 \<or> dy = 0 then scan (b_x b) (b_y b) dx dy [1, 2, 3] s else Inr s)) st of
        Inl h \<Rightarrow> Inl h
      | Inr st' \<Rightarrow> Inr (st'\<lparr>player := reloadBomb (player st')\<rparr>))"

section \<open>The world update\<close>

text \<open>
  The enemy loop of \<open>Game::update\<close>: each enemy is updated and moved back when its new
  position is not valid.  The loop touches \<open>enemies[i]\<close> only, so it is a traversal of
  the list.
\<close>

fun moveEnemies :: "rng \<Rightarrow> nat \<Rightarrow> grid \<Rightarrow> enemy list \<Rightarrow> halt + (enemy list \<times> nat)" where
  "moveEnemies rs k g [] = Inr ([], k)"
| "moveEnemies rs k g (e # es) =
     (let oldX = e_x e; oldY = e_y e; (e1, k1) = Enemy_update rs k e in
      case isValidMove g (e_x e1) (e_y e1) of
        Inl h \<Rightarrow> Inl h
      | Inr ok \<Rightarrow>
          (let e2 = (if \<not> ok then Enemy_move e1 (oldX - e_x e1) (oldY - e_y e1) else e1) in
           case moveEnemies rs k1 g es of
             Inl h \<Rightarrow> Inl h
           | Inr (es', k') \<Rightarrow> Inr (e2 # es', k')))"

text \<open>
  The bomb loop of \<open>Game::update\<close>.  \<open>bs\<close> is the \<open>bombs\<close> array with \<open>bombCount\<close> as its
  length (\<open>explodeBomb\<close> does not touch it); \<open>now\<close> is the clock reading of this update.
\<close>

function explodeDue :: "int \<Rightarrow> nat \<Rightarrow> bomb list \<Rightarrow> game \<Rightarrow> halt + (bomb list \<times> game)" where
  "explodeDue now i bs st =
     (if i < length bs then
        if shouldExplode (bs ! i) now then
          case explodeBomb (bs ! i) st of
            Inl h \<Rightarrow> Inl h
          | Inr st' \<Rightarrow> explodeDue now i (butlast (bs[i := last bs])) st'
        else explodeDue now (Suc i) bs st
      else Inr (bs, st))"
  by pat_completeness auto
termination
  by (relation "measure (\<lambda>(now, i, bs, st). length bs - i)") auto

declare explodeDue.simps [simp del]

text \<open>\<open>Game::update\<close>: one world update; \<open>Inl\<close> when the process ends in it.\<close>

definition Game_update :: "rng \<Rightarrow> nat \<Rightarrow> int \<Rightarrow> game \<Rightarrow> halt + (game \<times> nat)" where
  "Game_update rs k now st =
     (if list_ex (\<lambda>e. p_x (player st) = e_x e \<and> p_y (player st) = e_y e) (enemies st)
      then Inl (GameOver ''Player was caught by an enemy!'')
      else case grid_read (grid st) (p_y (player st)) (p_x (player st)) of
        Inl h \<Rightarrow> Inl h
      | Inr c \<Rightarrow>
          if holds_symbol c TRAP then Inl (GameOver ''Player stepped on a trap!'')
          else case moveEnemies rs k (grid st) (enemies st) of
            Inl h \<Rightarrow> Inl h
          | Inr (es, k') \<Rightarrow>
              (case explodeDue now 0 (bombs st) (st\<lparr>enemies := es\<rparr>) of
                 Inl h \<Rightarrow> Inl h
               | Inr (bs, st1) \<Rightarrow>
                   let st2 = st1\<lparr>bombs := bs\<rparr> in
                   if p_x (player st2) = d_x (exitDoor st2) \<and> p_y (player st2) = d_y (exitDoor st2)
                      \<and> visible (exitDoor st2)
                   then Inl GameWin else Inr (st2, k')))"

section \<open>Procedural generation\<close>

text \<open>The grid that the constructor \<open>Game()\<close> allocates: every slot \<open>nullptr\<close>.\<close>

definition blank_grid :: grid where
  "blank_grid = replicate (nat HEIGHT) (replicate (nat WIDTH) Nullptr)"

text \<open>
  The body of the block loop of \<open>initializeGame\<close> for the slot \<open>grid[i][j]\<close>.  The second
  call of \<open>rand()\<close> is made only when the first test fails.
\<close>

definition fillCell :: "rng \<Rightarrow> int \<Rightarrow> int \<Rightarrow> grid \<times> nat \<Rightarrow> grid \<times> nat" where
  "fillCell rs i j = (\<lambda>(g, k).
     if i = 0 \<or> i = HEIGHT - 1 \<or> j = 0 \<or> j = WIDTH - 1
       then (grid_write g i j IndestructibleBlock, k)
     else if int (rs k) mod WIDTH = 0
       then (grid_write g i j IndestructibleBlock, Suc k)
     else if int (rs (Suc k)) mod HEIGHT = 0
       then (grid_write g i j (DestructibleBlock False), Suc (Suc k))
     else (g, Suc (Suc k)))"

definition addBlocks :: "rng \<Rightarrow> grid \<times> nat \<Rightarrow> grid \<times> nat" where
  "addBlocks rs =
     fold (\<lambda>i. fold (\<lambda>j. fillCell rs (int i) (int j)) [0..<nat WIDTH]) [0..<nat HEIGHT]"

text \<open>
  The rejection loop \<open>do { x = rand() % (WIDTH - 2) + 1; y = rand() % (HEIGHT - 2) + 1; }
  while (grid[y][x] != nullptr || (x == 1 && y == 1))\<close>.  The source sets no bound on
  it: \<open>None\<close> is the loop that never ends.
\<close>

partial_function (option) randomFreeCell :: "rng \<Rightarrow> grid \<Rightarrow> nat \<Rightarrow> (int \<times> int \<times> nat) option" where
  "randomFreeCell rs g k =
     (if g ! nat (int (rs (Suc k)) mod (HEIGHT - 2) + 1) ! nat (int (rs k) mod (WIDTH - 2) + 1) \<noteq> Nullptr
         \<or> (int (rs k) mod (WIDTH - 2) + 1 = 1 \<and> int (rs (Suc k)) mod (HEIGHT - 2) + 1 = 1)
      then randomFreeCell rs g (Suc (Suc k))
      else Some (int (rs k) mod (WIDTH - 2) + 1, int (rs (Suc k)) mod (HEIGHT - 2) + 1, Suc (Suc k)))"

text \<open>The trap loop; \<open>n\<close> is the number of traps still to place.\<close>

fun addTraps :: "rng \<Rightarrow> nat \<Rightarrow> grid \<times> nat \<Rightarrow> (grid \<times> nat) option" where
  "addTraps rs 0 gk = Some gk"
| "addTraps rs (Suc n) gk =
     (case randomFreeCell rs (fst gk) (snd gk) of
        None \<Rightarrow> None
      | Some (x, y, k') \<Rightarrow> addTraps rs n (grid_write (fst gk) y x Trap, k'))"

text \<open>
  The enemy loop: \<open>i\<close> is the loop index, \<open>n\<close> the number of enemies still to create.
  Enemies are not entered in the grid.
\<close>

fun addEnemies :: "rng \<Rightarrow> grid \<Rightarrow> nat \<Rightarrow> nat \<Rightarrow> nat \<Rightarrow> (enemy list \<times> nat) option" where
  "addEnemies rs g i 0 k = Some ([], k)"
| "addEnemies rs g i (Suc n) k =
     (case randomFreeCell rs g k of
        None \<Rightarrow> None
      | Some (x, y, k') \<Rightarrow>
          (case addEnemies rs g (Suc i) n k' of
             None \<Rightarrow> None
           | Some (es, k'') \<Rightarrow>
               Some (\<lparr>e_x = x, e_y = y, moveType = int i mod 3, moveStep = 0\<rparr> # es, k'')))"

text \<open>The loop that clears the rows and columns 1 to 3.\<close>

definition clearStart :: "grid \<Rightarrow> grid" where
  "clearStart = fold (\<lambda>i. fold (\<lambda>j g. grid_write g i j Nullptr) [1, 2, 3]) [1, 2, 3]"

text \<open>
  \<open>Game::initializeGame\<close>, on the grid \<open>g0\<close> that it finds; \<open>None\<close> when one of its
  rejection loops does not end.
\<close>

definition initializeGame :: "rng \<Rightarrow> nat \<Rightarrow> grid \<Rightarrow> (game \<times> nat) option" where
  "initializeGame rs k0 g0 =
     (case addTraps rs (nat ((HEIGHT + WIDTH) div 10)) (addBlocks rs (g0, k0)) of
        None \<Rightarrow> None
      | Some (g1, k1) \<Rightarrow>
          (case addEnemies rs g1 0 (nat ((HEIGHT + WIDTH) div 10)) k1 of
             None \<Rightarrow> None
           | Some (es, k2) \<Rightarrow>
               (case randomFreeCell rs (clearStart g1) k2 of
                  None \<Rightarrow> None
                | Some (exitX, exitY, k3) \<Rightarrow>
                    Some (\<lparr>grid = grid_write (clearStart g1) exitY exitX (DestructibleBlock True),
                           player = \<lparr>p_x = 1, p_y = 1, hasBombs = NUM_BOMBS\<rparr>,
                           enemies = es,
                           bombs = [],
                           bombsCap = nat NUM_BOMBS,
                           exitDoor = \<lparr>d_x = exitX, d_y = exitY, visible = False\<rparr>,
                           bombsPlanted = 0\<rparr>, k3))))"

text \<open>The constructor \<open>Game()\<close>.\<close>

definition Game_ctor :: "rng \<Rightarrow> nat \<Rightarrow> (game \<times> nat) option" where
  "Game_ctor rs k0 = initializeGame rs k0 blank_grid"

section \<open>Saving: the text written to the save file\<close>

definition newline :: char where "newline = CHR 0x0A"
definition blank :: char where "blank = CHR 0x20"

text \<open>\<open>operator<<\<close> for an \<open>int\<close>: decimal digits, with a minus sign when negative.\<close>

fun digits :: "nat \<Rightarrow> string" where
  "digits n =
     (if n < 10 then [''0123456789'' ! n]
      else digits (n div 10) @ [''0123456789'' ! (n mod 10)])"

declare digits.simps [simp del]

definition show_int :: "int \<Rightarrow> string" where
  "show_int v = (if v < 0 then CHR ''-'' # digits (nat (- v)) else digits (nat v))"

text \<open>\<open>operator<<\<close> for a \<open>bool\<close> (no \<open>boolalpha\<close>).\<close>

definition show_bool :: "bool \<Rightarrow> string" where
  "show_bool b = (if b then ''1'' else ''0'')"

text \<open>The character written for a grid slot: its symbol, or a blank for \<open>nullptr\<close>.\<close>

definition slot_char :: "cell \<Rightarrow> char" where
  "slot_char c = (case getSymbol c of Inr s \<Rightarrow> s | Inl h \<Rightarrow> blank)"

definition save_enemy :: "enemy \<Rightarrow> string" where
  "save_enemy e =
     show_int (e_x e) @ [blank] @ show_int (e_y e) @ [blank] @ show_int (moveType e) @ [newline]"

definition save_bomb :: "bomb \<Rightarrow> string" where
  "save_bomb b = show_int (b_x b) @ [blank] @ show_int (b_y b) @ [newline]"

definition save_row :: "grid \<Rightarrow> nat \<Rightarrow> string" where
  "save_row g i = map (\<lambda>j. slot_char (g ! i ! j)) [0..<nat WIDTH] @ [newline]"

text \<open>
  \<open>Game::saveGame\<close>: the content of \<open>game_save.txt\<close> after the call, when the file
  could be opened (otherwise the call only prints a message).
\<close>

definition saveGame :: "game \<Rightarrow> string" where
  "saveGame st =
     show_int (p_x (player st)) @ [blank] @ show_int (p_y (player st)) @ [newline]
     @ show_int (bombsPlanted st) @ [newline]
     @ show_int (int (length (enemies st))) @ [newline]
     @ concat (map save_enemy (enemies st))
     @ show_int (int (length (bombs st))) @ [newline]
     @ concat (map save_bomb (bombs st))
     @ show_int (d_x (exitDoor st)) @ [blank] @ show_int (d_y (exitDoor st)) @ [blank]
     @ show_bool (visible (exitDoor st)) @ [newline]
     @ concat (map (save_row (grid st)) [0..<nat HEIGHT])"

section \<open>Loading: the input stream\<close>

text \<open>
  An \<open>ifstream\<close> on an opened file: the characters not yet read and the two state bits
  that the program's reads depend on.
\<close>

record istream =
  buf :: string
  eofbit :: bool
  failbit :: bool

definition good :: "istream \<Rightarrow> bool" where
  "good s = (\<not> eofbit s \<and> \<not> failbit s)"

definition isspace :: "char \<Rightarrow> bool" where
  "isspace c = (c \<in> set [CHR 0x20, CHR 0x09, CHR 0x0A, CHR 0x0B, CHR 0x0C, CHR 0x0D])"

definition isdigit :: "char \<Rightarrow> bool" where
  "isdigit c = (c \<in> set ''0123456789'')"

text \<open>
  The sentry of a formatted read: a stream that is not good gets \<open>failbit\<close>; otherwise
  white space is skipped, and reaching the end sets \<open>eofbit\<close> and \<open>failbit\<close>.  The
  second component tells whether the read goes on.
\<close>

definition sentry_skipws :: "istream \<Rightarrow> istream \<times> bool" where
  "sentry_skipws s =
     (if \<not> good s then (s\<lparr>failbit := True\<rparr>, False)
      else case dropWhile isspace (buf s) of
             [] \<Rightarrow> (s\<lparr>buf := [], eofbit := True, failbit := True\<rparr>, False)
           | c # r \<Rightarrow> (s\<lparr>buf := c # r\<rparr>, True))"

text \<open>The sentry of an unformatted read (\<open>ignore\<close>, \<open>getline\<close>) skips nothing.\<close>

definition sentry_noskip :: "istream \<Rightarrow> istream \<times> bool" where
  "sentry_noskip s = (if \<not> good s then (s\<lparr>failbit := True\<rparr>, False) else (s, True))"

definition digits_value :: "string \<Rightarrow> nat" where
  "digits_value ds = foldl (\<lambda>acc c. 10 * acc + (of_char c - 48)) 0 ds"

text \<open>
  The numeric extraction after the sentry, for a signed type with the range \<open>lo .. hi\<close>:
  an optional sign and the decimal digits that follow.  Without a digit the result is
  0 with \<open>failbit\<close>; a number outside the range gives the nearest bound with \<open>failbit\<close>;
  reading up to the end of the file sets \<open>eofbit\<close>.
\<close>

definition extract_num :: "int \<Rightarrow> int \<Rightarrow> istream \<Rightarrow> int \<times> istream" where
  "extract_num lo hi s =
     (let b = buf s;
          neg = (b \<noteq> [] \<and> hd b = CHR ''-'');
          b1 = (if b \<noteq> [] \<and> (hd b = CHR ''-'' \<or> hd b = CHR ''+'') then tl b else b);
          ds = takeWhile isdigit b1;
          rest = dropWhile isdigit b1;
          s1 = s\<lparr>buf := rest, eofbit := (rest = [])\<rparr>;
          v = (if neg then - int (digits_value ds) else int (digits_value ds))
      in if ds = [] then (0, s1\<lparr>failbit := True\<rparr>)
         else if v > hi then (hi, s1\<lparr>failbit := True\<rparr>)
         else if v < lo then (lo, s1\<lparr>failbit := True\<rparr>)
         else (v, s1))"

definition INT_MIN :: int where "INT_MIN = - 2147483648"
definition INT_MAX :: int where "INT_MAX = 2147483647"
definition LONG_MIN :: int where "LONG_MIN = - 9223372036854775808"
definition LONG_MAX :: int where "LONG_MAX = 9223372036854775807"

text \<open>
  \<open>stream >> v\<close> for an \<open>int\<close>: \<open>None\<close> when the sentry stops the read, which leaves
  the variable as it was.
\<close>

definition read_int :: "istream \<Rightarrow> int option \<times> istream" where
  "read_int s =
     (case sentry_skipws s of
        (s1, False) \<Rightarrow> (None, s1)
      | (s1, True) \<Rightarrow> (let (v, s2) = extract_num INT_MIN INT_MAX s1 in (Some v, s2)))"

text \<open>
  \<open>stream >> v\<close> for a \<open>bool\<close>: the number is read as a \<open>long\<close>; 0 is \<open>false\<close>, 1 is
  \<open>true\<close>, anything else is \<open>true\<close> with \<open>failbit\<close>.
\<close>

definition read_bool :: "istream \<Rightarrow> bool option \<times> istream" where
  "read_bool s =
     (case sentry_skipws s of
        (s1, False) \<Rightarrow> (None, s1)
      | (s1, True) \<Rightarrow>
          (let (v, s2) = extract_num LONG_MIN LONG_MAX s1 in
           if v = 0 then (Some False, s2)
           else if v = 1 then (Some True, s2)
           else (Some True, s2\<lparr>failbit := True\<rparr>)))"

text \<open>\<open>stream.ignore()\<close>: one character is dropped.\<close>

definition ignore :: "istream \<Rightarrow> istream" where
  "ignore s =
     (case sentry_noskip s of
        (s1, False) \<Rightarrow> s1
      | (s1, True) \<Rightarrow> (case buf s1 of [] \<Rightarrow> s1\<lparr>eofbit := True\<rparr> | c # r \<Rightarrow> s1\<lparr>buf := r\<rparr>))"

text \<open>
  \<open>getline(stream, line)\<close> into a fresh, empty \<open>line\<close>: the characters up to the next
  newline, which is dropped; at the end of the file \<open>eofbit\<close>, and \<open>failbit\<close> when
  nothing was read.
\<close>

definition getline :: "istream \<Rightarrow> string \<times> istream" where
  "getline s =
     (case sentry_noskip s of
        (s1, False) \<Rightarrow> ([], s1)
      | (s1, True) \<Rightarrow>
          (let line = takeWhile (\<lambda>c. c \<noteq> newline) (buf s1);
               rest = dropWhile (\<lambda>c. c \<noteq> newline) (buf s1)
           in case rest of
                [] \<Rightarrow> (line, s1\<lparr>buf := [], eofbit := True, failbit := (line = [])\<rparr>)
              | c # r \<Rightarrow> (line, s1\<lparr>buf := r\<rparr>)))"

text \<open>
  \<open>line[j]\<close> on a \<open>std::string\<close>: the character, the terminating zero at
  \<open>j = line.size()\<close>, and undefined behind it.
\<close>

definition string_at :: "string \<Rightarrow> nat \<Rightarrow> halt + char" where
  "string_at line j =
     (if j < length line then Inr (line ! j)
      else if j = length line then Inr (CHR 0x00)
      else Inl OutOfBounds)"

section \<open>Loading: \<open>loadGame\<close>\<close>

text \<open>
  The \<open>switch\<close> of \<open>loadGame\<close> on a symbol of a grid line; a symbol with no \<open>case\<close>
  leaves the slot as the clearing loop set it, \<open>nullptr\<close>.
\<close>

definition cell_of_symbol :: "char \<Rightarrow> cell" where
  "cell_of_symbol c =
     (if c = INDESTRUCTIBLE_BLOCK then IndestructibleBlock
      else if c = DESTRUCTIBLE_BLOCK then DestructibleBlock False
      else if c = TRAP then Trap
      else if c = EXIT_DOOR then ExitDoorCell
      else Nullptr)"

text \<open>The loop \<open>for (int j = 0; j < WIDTH; j++)\<close> over one line, \<open>js\<close> the indices left.\<close>

fun loadRow :: "string \<Rightarrow> nat list \<Rightarrow> halt + cell list" where
  "loadRow line [] = Inr []"
| "loadRow line (j # js) =
     (case string_at line j of
        Inl h \<Rightarrow> Inl h
      | Inr c \<Rightarrow> (case loadRow line js of Inl h \<Rightarrow> Inl h | Inr row \<Rightarrow> Inr (cell_of_symbol c # row)))"

text \<open>The loop over the \<open>HEIGHT\<close> grid lines, \<open>n\<close> the number of lines left.\<close>

fun loadRows :: "nat \<Rightarrow> istream \<Rightarrow> halt + (grid \<times> istream)" where
  "loadRows 0 s = Inr ([], s)"
| "loadRows (Suc n) s =
     (case loadRow (fst (getline s)) [0..<nat WIDTH] of
        Inl h \<Rightarrow> Inl h
      | Inr row \<Rightarrow>
          (case loadRows n (snd (getline s)) of
             Inl h \<Rightarrow> Inl h
           | Inr (rows, s') \<Rightarrow> Inr (row # rows, s')))"

text \<open>
  The enemy loop.  \<open>x\<close>, \<open>y\<close> and \<open>moveType\<close> are locals without initialiser: a read
  that the sentry stops leaves them indeterminate, and the constructor call uses them.
\<close>

fun loadEnemies :: "nat \<Rightarrow> istream \<Rightarrow> halt + (enemy list \<times> istream)" where
  "loadEnemies 0 s = Inr ([], s)"
| "loadEnemies (Suc n) s =
     (case read_int s of
        (None, s1) \<Rightarrow> Inl UninitializedRead
      | (Some x, s1) \<Rightarrow>
          (case read_int s1 of
             (None, s2) \<Rightarrow> Inl UninitializedRead
           | (Some y, s2) \<Rightarrow>
               (case read_int s2 of
                  (None, s3) \<Rightarrow> Inl UninitializedRead
                | (Some t, s3) \<Rightarrow>
                    (case loadEnemies n s3 of
                       Inl h \<Rightarrow> Inl h
                     | Inr (es, s') \<Rightarrow>
                         Inr (\<lparr>e_x = x, e_y = y, moveType = t, moveStep = 0\<rparr> # es, s')))))"

text \<open>The bomb loop; every \<open>Bomb\<close> constructor takes the clock reading \<open>now\<close>.\<close>

fun loadBombs :: "int \<Rightarrow> nat \<Rightarrow> istream \<Rightarrow> halt + (bomb list \<times> istream)" where
  "loadBombs now 0 s = Inr ([], s)"
| "loadBombs now (Suc n) s =
     (case read_int s of
        (None, s1) \<Rightarrow> Inl UninitializedRead
      | (Some x, s1) \<Rightarrow>
          (case read_int s1 of
             (None, s2) \<Rightarrow> Inl UninitializedRead
           | (Some y, s2) \<Rightarrow>
               (case loadBombs now n s2 of
                  Inl h \<Rightarrow> Inl h
                | Inr (bs, s') \<Rightarrow> Inr (\<lparr>b_x = x, b_y = y, plantTime = now\<rparr> # bs, s'))))"

text \<open>
  A read into a member variable (\<open>bombsPlanted\<close>, \<open>enemyCount\<close>, \<open>bombCount\<close>): when
  the sentry stops the read the member keeps its value.
\<close>

definition read_member :: "int \<Rightarrow> istream \<Rightarrow> int \<times> istream" where
  "read_member old s = (case read_int s of (None, s1) \<Rightarrow> (old, s1) | (Some v, s1) \<Rightarrow> (v, s1))"

text \<open>
  The part of \<open>loadGame\<close> after the exit door has been read: the grid lines, on slots
  that the clearing loop has set to \<open>nullptr\<close>, and the green block when the door is
  hidden.
\<close>

definition loadGrid :: "int \<Rightarrow> int \<Rightarrow> bool \<Rightarrow> istream \<Rightarrow> halt + grid" where
  "loadGrid exitX exitY vis s =
     (case loadRows (nat HEIGHT) (ignore s) of
        Inl h \<Rightarrow> Inl h
      | Inr (g, s') \<Rightarrow>
          if vis then Inr g
          else if 0 \<le> exitY \<and> exitY < HEIGHT \<and> 0 \<le> exitX \<and> exitX < WIDTH
            then Inr (grid_write g exitY exitX (DestructibleBlock True))
          else Inl OutOfBounds)"

text \<open>The number of grid slots that alias the \<open>exitDoor\<close> object.\<close>

definition door_aliases :: "grid \<Rightarrow> nat" where
  "door_aliases g = length (filter (\<lambda>c. c = ExitDoorCell) (concat g))"

text \<open>
  The branch of \<open>loadGame\<close> for a file that opened.  The old world is deleted before
  the first read: the clearing loop deletes every grid slot, so two slots that alias
  \<open>exitDoor\<close> are a double \<open>delete\<close> there, and one such slot makes the later
  \<open>delete exitDoor\<close> the second \<open>delete\<close> of that object.  The new \<open>Player\<close> has
  \<open>hasBombs = NUM_BOMBS\<close>, and the new \<open>bombs\<close> array has \<open>bombCount\<close> slots.
\<close>

definition loadOpened :: "string \<Rightarrow> int \<Rightarrow> game \<Rightarrow> halt + game" where
  "loadOpened content now st =
     (if door_aliases (grid st) \<ge> 2 then Inl DoubleDelete else
     (case read_int \<lparr>buf = content, eofbit = False, failbit = False\<rparr> of
        (None, s1) \<Rightarrow> Inl UninitializedRead
      | (Some playerX, s1) \<Rightarrow>
     (case read_int s1 of
        (None, s2) \<Rightarrow> Inl UninitializedRead
      | (Some playerY, s2) \<Rightarrow>
     (case read_member (bombsPlanted st) s2 of (planted, s3) \<Rightarrow>
     (case read_member (int (length (enemies st))) s3 of (enemyCount, s4) \<Rightarrow>
      if enemyCount < 0 then Inl BadArrayLength else
     (case loadEnemies (nat enemyCount) s4 of
        Inl h \<Rightarrow> Inl h
      | Inr (es, s5) \<Rightarrow>
     (case read_member (int (length (bombs st))) s5 of (bombCount, s6) \<Rightarrow>
      if bombCount < 0 then Inl BadArrayLength else
     (case loadBombs now (nat bombCount) s6 of
        Inl h \<Rightarrow> Inl h
      | Inr (bs, s7) \<Rightarrow>
     (case read_int s7 of (ex, s8) \<Rightarrow>
     (case read_int s8 of (ey, s9) \<Rightarrow>
     (case read_bool s9 of (v, s10) \<Rightarrow>
      if door_aliases (grid st) \<ge> 1 then Inl DoubleDelete else
     (case (ex, ey, v) of
        (Some exitX, Some exitY, Some vis) \<Rightarrow>
          (case loadGrid exitX exitY vis s10 of
             Inl h \<Rightarrow> Inl h
           | Inr g \<Rightarrow>
               Inr \<lparr>grid = g,
                    player = \<lparr>p_x = playerX, p_y = playerY, hasBombs = NUM_BOMBS\<rparr>,
                    enemies = es,
                    bombs = bs,
                    bombsCap = nat bombCount,
                    exitDoor = \<lparr>d_x = exitX, d_y = exitY, visible = vis\<rparr>,
                    bombsPlanted = planted\<rparr>)
      | _ \<Rightarrow> Inl UninitializedRead))))))))))))"

text \<open>
  \<open>Game::loadGame\<close>: \<open>file\<close> is the content of \<open>game_save.txt\<close>, \<open>None\<close> when the file
  cannot be opened.  The result is the returned \<open>bool\<close> with the world after the call.
\<close>

definition loadGame :: "string option \<Rightarrow> int \<Rightarrow> game \<Rightarrow> halt + (bool \<times> game)" where
  "loadGame file now st =
     (case file of
        None \<Rightarrow> Inr (False, st)
      | Some content \<Rightarrow>
          (case loadOpened content now st of Inl h \<Rightarrow> Inl h | Inr st' \<Rightarrow> Inr (True, st')))"

section \<open>Auxiliary notions for the statements\<close>

definition wf_grid :: "grid \<Rightarrow> bool" where
  "wf_grid g = (length g = nat HEIGHT \<and> list_all (\<lambda>row. length row = nat WIDTH) g)"

definition in_grid :: "int \<Rightarrow> int \<Rightarrow> bool" where
  "in_grid x y = (0 \<le> x \<and> x < WIDTH \<and> 0 \<le> y \<and> y < HEIGHT)"

definition cell_at :: "grid \<Rightarrow> int \<Rightarrow> int \<Rightarrow> cell" where
  "cell_at g x y = g ! nat y ! nat x"

fun is_destructible :: "cell \<Rightarrow> bool" where
  "is_destructible (DestructibleBlock green) = True"
| "is_destructible c = False"

fun is_block :: "cell \<Rightarrow> bool" where
  "is_block (DestructibleBlock green) = True"
| "is_block IndestructibleBlock = True"
| "is_block c = False"

definition enemies_at :: "enemy list \<Rightarrow> int \<Rightarrow> int \<Rightarrow> nat" where
  "enemies_at es x y = length (filter (\<lambda>e. e_x e = x \<and> e_y e = y) es)"

definition destroy_at :: "game \<Rightarrow> int \<Rightarrow> int \<Rightarrow> game" where
  "destroy_at st x y =
     st\<lparr>grid := grid_write (grid st) y x Nullptr,
        exitDoor := (if x = d_x (exitDoor st) \<and> y = d_y (exitDoor st)
                     then (exitDoor st)\<lparr>visible := True\<rparr> else exitDoor st)\<rparr>"

definition kill_at :: "game \<Rightarrow> int \<Rightarrow> int \<Rightarrow> game" where
  "kill_at st x y = st\<lparr>enemies := eliminateEnemy (enemies st) x y 0\<rparr>"

fun ray_hit :: "grid \<Rightarrow> int \<Rightarrow> int \<Rightarrow> int \<Rightarrow> int \<Rightarrow> int list \<Rightarrow> (int \<times> int) option" where
  "ray_hit g bx by dx dy [] = None"
| "ray_hit g bx by dx dy (i # is) =
     (if \<not> in_grid (bx + dx * i) (by + dy * i) then None
      else if is_destructible (cell_at g (bx + dx * i) (by + dy * i))
        then Some (bx + dx * i, by + dy * i)
      else if cell_at g (bx + dx * i) (by + dy * i) = IndestructibleBlock then None
      else ray_hit g bx by dx dy is)"

fun blast_cells :: "grid \<Rightarrow> int \<Rightarrow> int \<Rightarrow> int \<Rightarrow> int \<Rightarrow> int list \<Rightarrow> (int \<times> int) list" where
  "blast_cells g bx by dx dy [] = []"
| "blast_cells g bx by dx dy (i # is) =
     (if \<not> in_grid (bx + dx * i) (by + dy * i) \<or> is_block (cell_at g (bx + dx * i) (by + dy * i))
      then []
      else (bx + dx * i, by + dy * i) # blast_cells g bx by dx dy is)"

definition directions :: "(int \<times> int) list" where
  "directions = [(- 1, 0), (0, - 1), (0, 0), (0, 1), (1, 0)]"

definition scan_dir :: "int \<Rightarrow> int \<Rightarrow> int \<times> int \<Rightarrow> game \<Rightarrow> halt + game" where
  "scan_dir bx by d = scan bx by (fst d) (snd d) [1, 2, 3]"

definition hits_of :: "grid \<Rightarrow> int \<Rightarrow> int \<Rightarrow> (int \<times> int) list \<Rightarrow> (int \<times> int) list" where
  "hits_of g bx by ds = List.map_filter (\<lambda>d. ray_hit g bx by (fst d) (snd d) [1, 2, 3]) ds"

definition blasted_of :: "grid \<Rightarrow> int \<Rightarrow> int \<Rightarrow> (int \<times> int) list \<Rightarrow> (int \<times> int) list" where
  "blasted_of g bx by ds = concat (map (\<lambda>d. blast_cells g bx by (fst d) (snd d) [1, 2, 3]) ds)"

definition cardinal :: "(int \<times> int) list" where
  "cardinal = [(- 1, 0), (1, 0), (0, - 1), (0, 1)]"

text \<open>The grid with the border of indestructible blocks and nothing else.\<close>

definition ring_grid :: grid where
  "ring_grid =
     map (\<lambda>i. map (\<lambda>j. if int i = 0 \<or> int i = HEIGHT - 1 \<or> int j = 0 \<or> int j = WIDTH - 1
                          then IndestructibleBlock else Nullptr) [0..<nat WIDTH])
         [0..<nat HEIGHT]"

text \<open>
  A world for concrete checks: inside the border, a bomb cell \<open>(5, 5)\<close> with an
  indestructible block at \<open>(6, 5)\<close> and a destructible block behind it at \<open>(7, 5)\<close>,
  the green block of the exit door at \<open>(5, 7)\<close> with another destructible block behind
  it at \<open>(5, 8)\<close>, and enemies at \<open>(5, 6)\<close> (counter at 4), \<open>(8, 5)\<close> and on the
  bomb cell; one bomb is planted, so the player has two left.
\<close>

definition demo_grid :: grid where
  "demo_grid =
     grid_write (grid_write (grid_write (grid_write ring_grid 5 6 IndestructibleBlock)
       5 7 (DestructibleBlock False)) 7 5 (DestructibleBlock True)) 8 5 (DestructibleBlock False)"

definition demo_game :: game where
  "demo_game =
     \<lparr>grid = demo_grid,
      player = \<lparr>p_x = 1, p_y = 1, hasBombs = 2\<rparr>,
      enemies = [\<lparr>e_x = 5, e_y = 6, moveType = 0, moveStep = 4\<rparr>,
                 \<lparr>e_x = 8, e_y = 5, moveType = 1, moveStep = 0\<rparr>,
                 \<lparr>e_x = 5, e_y = 5, moveType = 2, moveStep = 0\<rparr>],
      bombs = [\<lparr>b_x = 5, b_y = 5, plantTime = 0\<rparr>],
      bombsCap = 3,
      exitDoor = \<lparr>d_x = 5, d_y = 7, visible = False\<rparr>,
      bombsPlanted = 1\<rparr>"

definition strm :: "string \<Rightarrow> istream" where
  "strm b = \<lparr>buf = b, eofbit = False, failbit = False\<rparr>"

definition int_ok :: "int \<Rightarrow> bool" where
  "int_ok v = (INT_MIN \<le> v \<and> v \<le> INT_MAX)"

definition enemy_ok :: "enemy \<Rightarrow> bool" where
  "enemy_ok e = (int_ok (e_x e) \<and> int_ok (e_y e) \<and> int_ok (moveType e))"

definition bomb_ok :: "bomb \<Rightarrow> bool" where
  "bomb_ok b = (int_ok (b_x b) \<and> int_ok (b_y b))"

fun ungreen :: "cell \<Rightarrow> cell" where
  "ungreen (DestructibleBlock green) = DestructibleBlock False"
| "ungreen c = c"

definition reloaded_rows :: "grid \<Rightarrow> grid" where
  "reloaded_rows g = map (\<lambda>i. map (\<lambda>j. ungreen (g ! i ! j)) [0..<nat WIDTH]) [0..<nat HEIGHT]"

definition game_ok :: "game \<Rightarrow> bool" where
  "game_ok st =
     (int_ok (p_x (player st)) \<and> int_ok (p_y (player st)) \<and> int_ok (bombsPlanted st) \<and>
      int_ok (int (length (enemies st))) \<and> list_all enemy_ok (enemies st) \<and>
      int_ok (int (length (bombs st))) \<and> list_all bomb_ok (bombs st) \<and>
      int_ok (d_x (exitDoor st)) \<and> int_ok (d_y (exitDoor st)))"

definition reloaded :: "game \<Rightarrow> int \<Rightarrow> game" where
  "reloaded st now =
     \<lparr>grid = (if visible (exitDoor st) then reloaded_rows (grid st)
              else grid_write (reloaded_rows (grid st)) (d_y (exitDoor st)) (d_x (exitDoor st))
                     (DestructibleBlock True)),
      player = \<lparr>p_x = p_x (player st), p_y = p_y (player st), hasBombs = NUM_BOMBS\<rparr>,
      enemies = map (\<lambda>e. e\<lparr>moveStep := 0\<rparr>) (enemies st),
      bombs = map (\<lambda>b. b\<lparr>plantTime := now\<rparr>) (bombs st),
      bombsCap = length (bombs st),
      exitDoor = exitDoor st,
      bombsPlanted = bombsPlanted st\<rparr>"

definition save_header :: "game \<Rightarrow> string" where
  "save_header st =
     show_int (p_x (player st)) @ [blank] @ show_int (p_y (player st)) @ [newline]
     @ show_int (bombsPlanted st) @ [newline]
     @ show_int (int (length (enemies st))) @ [newline]
     @ concat (map save_enemy (enemies st))
     @ show_int (int (length (bombs st))) @ [newline]
     @ concat (map save_bomb (bombs st))
     @ show_int (d_x (exitDoor st)) @ [blank] @ show_int (d_y (exitDoor st)) @ [blank]
     @ show_bool (visible (exitDoor st))"

definition last_col :: nat where "last_col = nat (WIDTH - 1)"

definition last_row :: nat where "last_row = nat (HEIGHT - 1)"

definition truncated_rows :: "grid \<Rightarrow> grid" where
  "truncated_rows g =
     map (\<lambda>i. map (\<lambda>j. ungreen (g ! i ! j)) [0..<nat WIDTH]) [0..<last_row]
     @ [map (\<lambda>j. ungreen (g ! (last_row) ! j)) [0..<last_col] @ [Nullptr]]"

definition count_cells :: "(cell \<Rightarrow> bool) \<Rightarrow> grid \<Rightarrow> nat" where
  "count_cells P g = length (filter P (concat g))"

definition is_green :: "cell \<Rightarrow> bool" where
  "is_green c = (c = DestructibleBlock True)"

definition exit_cells :: "grid \<Rightarrow> nat" where
  "exit_cells g = count_cells (\<lambda>c. c = ExitDoorCell \<or> is_green c) g"

definition door_inv :: "game \<Rightarrow> bool" where
  "door_inv st =
     (wf_grid (grid st) \<and> door_aliases (grid st) = 0 \<and>
      (if visible (exitDoor st) then count_cells is_green (grid st) = 0
       else count_cells is_green (grid st) = 1 \<and>
            in_grid (d_x (exitDoor st)) (d_y (exitDoor st)) \<and>
            is_green (cell_at (grid st) (d_x (exitDoor st)) (d_y (exitDoor st)))))"

text \<open>
  The world that \<open>loadGame\<close> builds from the save of the demo world without its last
  two characters (the last symbol of the last grid line and its newline).
\<close>

definition demo_truncated :: game where
  "demo_truncated =
     (reloaded demo_game 0)\<lparr>grid :=
        grid_write (truncated_rows (grid demo_game)) 7 5 (DestructibleBlock True)\<rparr>"

text \<open>The number of calls of \<open>rand()\<close> that the enemy loop makes for the enemies \<open>es\<close>.\<close>

definition draws :: "enemy list \<Rightarrow> nat" where
  "draws es = length (filter (\<lambda>e. moveStep e = 10) es)"

text \<open>Successive calls of \<open>Game::update\<close>, one for each clock reading of the list.\<close>

fun updates :: "rng \<Rightarrow> nat \<Rightarrow> int list \<Rightarrow> game \<Rightarrow> halt + (game \<times> nat)" where
  "updates rs k [] st = Inr (st, k)"
| "updates rs k (now # nows) st =
     (case Game_update rs k now st of
        Inl h \<Rightarrow> Inl h
      | Inr (st', k') \<Rightarrow> updates rs k' nows st')"

text \<open>What the enemy loop makes of one enemy, \<open>k\<close> being the number of calls of \<open>rand()\<close> before it.\<close>

definition enemy_tick :: "rng \<Rightarrow> nat \<Rightarrow> grid \<Rightarrow> enemy \<Rightarrow> enemy \<Rightarrow> bool" where
  "enemy_tick rs k g e e' =
     (let r = int (rs k) mod 4;
          tx = e_x e + (if moveType e = 0 \<or> moveType e = 2
                        then (if r = 0 \<or> r = 1 then 1 else - 1) else 0);
          ty = e_y e + (if moveType e = 1 \<or> moveType e = 2
                        then (if r = 0 \<or> r = 1 then - 1 else 1) else 0)
      in if moveStep e \<noteq> 10 then e' = e\<lparr>moveStep := moveStep e + 1\<rparr>
         else (isValidMove g tx ty = Inr True \<and> e' = e\<lparr>moveStep := 0, e_x := tx, e_y := ty\<rparr>) \<or>
              (isValidMove g tx ty = Inr False \<and> e' = e\<lparr>moveStep := 0\<rparr>))"

text \<open>
  The demo grid with three enemies, one of each pattern, all with the counter \<open>c\<close>, and
  no bomb.
\<close>

definition patrol :: "int \<Rightarrow> game" where
  "patrol c =
     \<lparr>grid = demo_grid,
      player = \<lparr>p_x = 1, p_y = 1, hasBombs = 3\<rparr>,
      enemies = [\<lparr>e_x = 5, e_y = 6, moveType = 0, moveStep = c\<rparr>,
                 \<lparr>e_x = 8, e_y = 5, moveType = 1, moveStep = c\<rparr>,
                 \<lparr>e_x = 5, e_y = 5, moveType = 2, moveStep = c\<rparr>],
      bombs = [],
      bombsCap = 3,
      exitDoor = \<lparr>d_x = 5, d_y = 7, visible = False\<rparr>,
      bombsPlanted = 0\<rparr>"

text \<open>The same world after the three enemies have stepped by the draw 2.\<close>

definition patrol_moved :: game where
  "patrol_moved =
     (patrol 0)\<lparr>enemies := [\<lparr>e_x = 4, e_y = 6, moveType = 0, moveStep = 0\<rparr>,
                             \<lparr>e_x = 8, e_y = 6, moveType = 1, moveStep = 0\<rparr>,
                             \<lparr>e_x = 4, e_y = 6, moveType = 2, moveStep = 0\<rparr>]\<rparr>"

text \<open>The cells inside the border, where the rejection loops of \<open>initializeGame\<close> draw.\<close>

definition interior :: "int \<Rightarrow> int \<Rightarrow> bool" where
  "interior x y = (1 \<le> x \<and> x \<le> WIDTH - 2 \<and> 1 \<le> y \<and> y \<le> HEIGHT - 2)"

text \<open>The cells of the first and last row and column.\<close>

definition on_border :: "int \<Rightarrow> int \<Rightarrow> bool" where
  "on_border x y = (in_grid x y \<and> (x = 0 \<or> x = WIDTH - 1 \<or> y = 0 \<or> y = HEIGHT - 1))"

text \<open>
  What a rejection loop returns from the call count \<open>k\<close>: an empty interior cell other
  than the spawn cell, after at least one pair of calls of \<open>rand()\<close>.
\<close>

definition free_pick :: "grid \<Rightarrow> nat \<Rightarrow> int \<times> int \<times> nat \<Rightarrow> bool" where
  "free_pick g k r =
     (interior (fst r) (fst (snd r)) \<and> cell_at g (fst r) (fst (snd r)) = Nullptr \<and>
      \<not> (fst r = 1 \<and> fst (snd r) = 1) \<and> k < snd (snd r))"

text \<open>
  The grid \<open>g\<close> differs from \<open>g0\<close> only by plain blocks: what the block loop of
  \<open>initializeGame\<close> can make of \<open>g0\<close>.
\<close>

definition plain_or :: "grid \<Rightarrow> grid \<Rightarrow> bool" where
  "plain_or g0 g =
     (wf_grid g \<and>
      (\<forall>x y. in_grid x y \<longrightarrow>
         cell_at g x y = cell_at g0 x y \<or> cell_at g x y = IndestructibleBlock \<or>
         cell_at g x y = DestructibleBlock False))"

text \<open>The cell holds a \<open>Trap\<close>.\<close>

definition is_trap :: "cell \<Rightarrow> bool" where
  "is_trap c = (c = Trap)"

text \<open>The rows and columns 1 to 3, which \<open>initializeGame\<close> clears around the spawn cell.\<close>

definition start_area :: "int \<Rightarrow> int \<Rightarrow> bool" where
  "start_area x y = (1 \<le> x \<and> x \<le> 3 \<and> 1 \<le> y \<and> y \<le> 3)"

text \<open>An enemy as the enemy loop of \<open>initializeGame\<close> creates it on the grid \<open>g\<close>.\<close>

definition placed :: "grid \<Rightarrow> enemy \<Rightarrow> bool" where
  "placed g e =
     (interior (e_x e) (e_y e) \<and> cell_at g (e_x e) (e_y e) = Nullptr \<and>
      \<not> (e_x e = 1 \<and> e_y e = 1) \<and> moveStep e = 0)"

text \<open>A cell that is empty, a plain block or a trap.\<close>

definition plain_cell :: "cell \<Rightarrow> bool" where
  "plain_cell c =
     (c = Nullptr \<or> c = IndestructibleBlock \<or> c = DestructibleBlock False \<or> c = Trap)"

text \<open>None of the first \<open>n\<close> values of \<open>rand()\<close> makes the block loop place a block.\<close>

definition no_block :: "rng \<Rightarrow> nat \<Rightarrow> bool" where
  "no_block rs n = (\<forall>m < n. int (rs m) mod WIDTH \<noteq> 0 \<and> int (rs m) mod HEIGHT \<noteq> 0)"

text \<open>The grid \<open>g'\<close> has the cells of \<open>g\<close> inside the border.\<close>

definition same_interior :: "grid \<Rightarrow> grid \<Rightarrow> bool" where
  "same_interior g g' =
     (wf_grid g' \<and> (\<forall>x y. in_grid x y \<longrightarrow> \<not> on_border x y \<longrightarrow> cell_at g' x y = cell_at g x y))"

text \<open>
  The number of calls of \<open>rand()\<close> that the block loop makes on the columns \<open>js\<close> of
  the row \<open>i\<close> when it places no block: two for each cell inside the border.
\<close>

definition row_calls :: "nat \<Rightarrow> nat list \<Rightarrow> nat" where
  "row_calls i js = 2 * length (filter (\<lambda>j. \<not> on_border (int j) (int i)) js)"

text \<open>
  A sequence of values of \<open>rand()\<close> for concrete runs: 3248 times the value 1 (the block
  loop places nothing inside the border), then the pairs of \<open>picks\<close>: nine traps at
  \<open>(2, 1)\<close> ... \<open>(10, 1)\<close>, nine enemies at \<open>(11, 1)\<close> ... \<open>(19, 1)\<close>, and the exit door
  at \<open>(1, 2)\<close>.
\<close>

definition picks :: "nat list" where
  "picks = [1, 0, 2, 0, 3, 0, 4, 0, 5, 0, 6, 0, 7, 0, 8, 0, 9, 0,
            10, 0, 11, 0, 12, 0, 13, 0, 14, 0, 15, 0, 16, 0, 17, 0, 18, 0,
            0, 1]"

definition rs_demo :: rng where
  "rs_demo m = (if m < 3248 then 1 else if m - 3248 < length picks then picks ! (m - 3248) else 0)"

text \<open>The border with the nine traps of that run.\<close>

definition traps_grid :: grid where
  "traps_grid = fold (\<lambda>x g. grid_write g 1 x Trap) [2, 3, 4, 5, 6, 7, 8, 9, 10] ring_grid"

text \<open>The nine enemies of that run.\<close>

definition start_enemies :: "enemy list" where
  "start_enemies =
     [\<lparr>e_x = 11, e_y = 1, moveType = 0, moveStep = 0\<rparr>,
      \<lparr>e_x = 12, e_y = 1, moveType = 1, moveStep = 0\<rparr>,
      \<lparr>e_x = 13, e_y = 1, moveType = 2, moveStep = 0\<rparr>,
      \<lparr>e_x = 14, e_y = 1, moveType = 0, moveStep = 0\<rparr>,
      \<lparr>e_x = 15, e_y = 1, moveType = 1, moveStep = 0\<rparr>,
      \<lparr>e_x = 16, e_y = 1, moveType = 2, moveStep = 0\<rparr>,
      \<lparr>e_x = 17, e_y = 1, moveType = 0, moveStep = 0\<rparr>,
      \<lparr>e_x = 18, e_y = 1, moveType = 1, moveStep = 0\<rparr>,
      \<lparr>e_x = 19, e_y = 1, moveType = 2, moveStep = 0\<rparr>]"

text \<open>
  The world that \<open>initializeGame\<close> builds in that run: the clearing of the rows and
  columns 1 to 3 removes the traps at \<open>(2, 1)\<close> and \<open>(3, 1)\<close>, and the block of the exit
  door goes to \<open>(1, 2)\<close>.
\<close>

definition demo_start :: game where
  "demo_start =
     \<lparr>grid = grid_write (clearStart traps_grid) 2 1 (DestructibleBlock True),
      player = \<lparr>p_x = 1, p_y = 1, hasBombs = 3\<rparr>,
      enemies = start_enemies,
      bombs = [],
      bombsCap = 3,
      exitDoor = \<lparr>d_x = 1, d_y = 2, visible = False\<rparr>,
      bombsPlanted = 0\<rparr>"

text \<open>The world \<open>demo_start\<close> after one call of \<open>Game::update\<close>.\<close>

definition demo_ticked :: game where
  "demo_ticked =
     demo_start\<lparr>enemies := map (\<lambda>e. e\<lparr>moveStep := moveStep e + 1\<rparr>) (enemies demo_start)\<rparr>"

text \<open>
  The worlds of a run of the program, and of later runs that load what earlier ones
  saved: the constructor builds one; \<open>playGame\<close> calls \<open>movePlayer\<close>, \<open>plantBomb\<close> and
  \<open>Game::update\<close>; \<open>loadGame\<close> replaces the world by what it reads from the save of a
  world (whose integers are values of a C++ \<open>int\<close>).  Calls that end the process lead
  to no world.
\<close>

inductive reachable :: "game \<Rightarrow> bool" where
  r_init: "Game_ctor rs k0 = Some (st, k) \<Longrightarrow> reachable st"
| r_move: "reachable st \<Longrightarrow> movePlayer st dx dy = Inr st' \<Longrightarrow> reachable st'"
| r_plant: "reachable st \<Longrightarrow> plantBomb now st = Inr st' \<Longrightarrow> reachable st'"
| r_update: "reachable st \<Longrightarrow> Game_update rs k now st = Inr (st', k') \<Longrightarrow> reachable st'"
| r_load: "reachable st \<Longrightarrow> reachable st0 \<Longrightarrow> game_ok st \<Longrightarrow>
           loadGame (Some (saveGame st)) now st0 = Inr (ok, st') \<Longrightarrow> reachable st'"

text \<open>
  The world of the run \<open>rs_demo\<close> with a bomb planted at time 0 on the spawn cell, the
  player at \<open>(px, py)\<close> and every enemy at the counter \<open>c\<close>.
\<close>

definition demo_walk :: "int \<Rightarrow> int \<Rightarrow> int \<Rightarrow> game" where
  "demo_walk px py c =
     demo_start\<lparr>player := \<lparr>p_x = px, p_y = py, hasBombs = 2\<rparr>,
                enemies := map (\<lambda>e. e\<lparr>moveStep := c\<rparr>) start_enemies,
                bombs := [\<lparr>b_x = 1, b_y = 1, plantTime = 0\<rparr>],
                bombsPlanted := 1\<rparr>"

section \<open>Theorems\<close>

subsection \<open>The fuse\<close>

lemma duration_cast_seconds_ge3: "(duration_cast_seconds t \<ge> 3) = (t \<ge> 3000000000)"
proof (cases "t \<ge> 0")
  case True
  then show ?thesis
    by (cases "t = 0") (auto simp: duration_cast_seconds_def sgn_if)
next
  case False
  then have "duration_cast_seconds t \<le> 0"
    by (simp add: duration_cast_seconds_def sgn_if pos_imp_zdiv_nonneg_iff)
  with False show ?thesis by simp
qed


subsection \<open>Movement validation\<close>

text \<open>What \<open>isValidMove\<close> does, case by case.\<close>

lemma isValidMove_cases:
  "isValidMove g x y =
     (if x < 0 \<or> x \<ge> WIDTH \<or> y < 0 \<or> y \<ge> HEIGHT then Inl OutOfBounds
      else if g ! nat y ! nat x = Nullptr then
        (if 0 < x \<and> x < WIDTH - 1 \<and> 0 < y \<and> y < HEIGHT - 1 then Inr True
         else Inl NullDereference)
      else Inr (g ! nat y ! nat x = Trap))"
  by (cases "g ! nat y ! nat x")
     (auto simp: isValidMove_def grid_read_def WIDTH_def HEIGHT_def TRAP_def
        INDESTRUCTIBLE_BLOCK_def DESTRUCTIBLE_BLOCK_def EXIT_DOOR_def)

text \<open>
  C1.  The claim wants \<open>false\<close>, with no read outside the grid, for every coordinate
  outside the interior.  For \<open>x = -1\<close>, \<open>y = 0\<close> the conjunction is false and the right
  operand of \<open>||\<close> reads \<open>grid[0][-1]\<close>: the call does not return \<open>false\<close>, it reads
  outside the array, whatever the grid is.
\<close>

theorem isValidMove_out_of_bounds:
  "isValidMove g (- 1) 0 = Inl OutOfBounds"
  by (simp add: isValidMove_def grid_read_def WIDTH_def HEIGHT_def)

subsection \<open>Grid and enemy bookkeeping\<close>

lemma holds_destructible: "holds_symbol c DESTRUCTIBLE_BLOCK = is_destructible c"
  by (cases c) (simp_all add: holds_symbol_def DESTRUCTIBLE_BLOCK_def INDESTRUCTIBLE_BLOCK_def
      TRAP_def EXIT_DOOR_def)

lemma holds_indestructible: "holds_symbol c INDESTRUCTIBLE_BLOCK = (c = IndestructibleBlock)"
  by (cases c) (simp_all add: holds_symbol_def DESTRUCTIBLE_BLOCK_def INDESTRUCTIBLE_BLOCK_def
      TRAP_def EXIT_DOOR_def)

lemma holds_trap: "holds_symbol c TRAP = (c = Trap)"
  by (cases c) (simp_all add: holds_symbol_def DESTRUCTIBLE_BLOCK_def INDESTRUCTIBLE_BLOCK_def
      TRAP_def EXIT_DOOR_def)

lemma wf_grid_row: "wf_grid g \<Longrightarrow> i < nat HEIGHT \<Longrightarrow> length (g ! i) = nat WIDTH"
  by (simp add: wf_grid_def list_all_length)

lemma wf_grid_write: "wf_grid g \<Longrightarrow> wf_grid (grid_write g y x c)"
  by (auto simp: wf_grid_def grid_write_def list_all_length nth_list_update)
     (metis length_list_update nth_list_update_eq nth_list_update_neq)

lemma cell_at_write:
  "wf_grid g \<Longrightarrow> in_grid x y \<Longrightarrow> in_grid x' y' \<Longrightarrow>
   cell_at (grid_write g y x c) x' y' = (if x' = x \<and> y' = y then c else cell_at g x' y')"
  by (auto simp: wf_grid_def in_grid_def cell_at_def grid_write_def list_all_length
      nth_list_update nat_eq_iff)

lemma enemies_at_mset: "enemies_at es x y = size (filter_mset (\<lambda>e. e_x e = x \<and> e_y e = y) (mset es))"
  by (simp add: enemies_at_def flip: mset_filter)

lemma mset_butlast_remove: "xs \<noteq> [] \<Longrightarrow> mset (butlast xs) = mset xs - {#last xs#}"
proof -
  assume "xs \<noteq> []"
  then have "mset xs = mset (butlast xs @ [last xs])" by simp
  then show ?thesis by simp
qed

lemma mset_swap_remove:
  assumes "i < length es"
  shows "mset (butlast (es[i := last es])) = mset es - {#es ! i#}"
proof -
  from assms have ne: "es \<noteq> []" by auto
  have l: "last (es[i := last es]) = last es"
    using ne by (simp add: last_list_update)
  have "mset (butlast (es[i := last es])) = mset (es[i := last es]) - {#last (es[i := last es])#}"
    using ne by (simp add: mset_butlast_remove)
  also have "\<dots> = add_mset (last es) (mset es - {#es ! i#}) - {#last es#}"
    using assms by (simp add: l mset_update)
  also have "\<dots> = mset es - {#es ! i#}" by simp
  finally show ?thesis .
qed

lemma enemies_at_swap_remove:
  assumes "i < length es"
  shows "enemies_at (butlast (es[i := last es])) x y =
         enemies_at es x y - (if e_x (es ! i) = x \<and> e_y (es ! i) = y then 1 else 0)"
proof -
  have m: "es ! i \<in># mset es" using assms by simp
  show ?thesis
    using m by (simp add: enemies_at_mset mset_swap_remove [OF assms] filter_diff_mset
        size_Diff_singleton)
qed

lemma eliminateEnemy_from:
  "enemies_at (eliminateEnemy es x y j) x' y' =
     enemies_at es x' y' -
       (if x' = x \<and> y' = y \<and> (\<exists>i. j \<le> i \<and> i < length es \<and> e_x (es ! i) = x \<and> e_y (es ! i) = y)
        then 1 else 0)"
proof (induction es x y j rule: eliminateEnemy.induct)
  case (1 es x y j)
  show ?case
  proof (cases "j < length es")
    case False
    then show ?thesis by (subst eliminateEnemy.simps) auto
  next
    case inr: True
    show ?thesis
    proof (cases "e_x (es ! j) = x \<and> e_y (es ! j) = y")
      case True
      then have "eliminateEnemy es x y j = butlast (es[j := last es])"
        using inr by (subst eliminateEnemy.simps) simp
      then show ?thesis
        using True inr by (auto simp: enemies_at_swap_remove)
    next
      case False
      then have e: "eliminateEnemy es x y j = eliminateEnemy es x y (Suc j)"
        using inr by (subst eliminateEnemy.simps) auto
      have "(\<exists>i. j \<le> i \<and> i < length es \<and> e_x (es ! i) = x \<and> e_y (es ! i) = y)
            = (\<exists>i. Suc j \<le> i \<and> i < length es \<and> e_x (es ! i) = x \<and> e_y (es ! i) = y)"
        using False by (metis Suc_leD Suc_leI le_neq_implies_less)
      then show ?thesis
        using "1.IH" [OF inr] False e by simp
    qed
  qed
qed

lemma eliminateEnemy_at:
  "enemies_at (eliminateEnemy es x y 0) x' y' =
     enemies_at es x' y' - (if x' = x \<and> y' = y then 1 else 0)"
proof -
  have "(\<exists>i. i < length es \<and> e_x (es ! i) = x \<and> e_y (es ! i) = y)
        = (\<exists>e \<in> set es. e_x e = x \<and> e_y e = y)"
    by (metis in_set_conv_nth)
  also have "\<dots> = (enemies_at es x y > 0)"
    by (simp add: enemies_at_def filter_empty_conv)
  finally have "(\<exists>i. i < length es \<and> e_x (es ! i) = x \<and> e_y (es ! i) = y) = (enemies_at es x y > 0)" .
  then show ?thesis
    by (auto simp: eliminateEnemy_from)
qed

lemma length_eliminateEnemy: "length (eliminateEnemy es x y j) \<le> length es"
proof (induction es x y j rule: eliminateEnemy.induct)
  case (1 es x y j)
  show ?case
  proof (cases "j < length es \<and> \<not> (e_x (es ! j) = x \<and> e_y (es ! j) = y)")
    case True
    then have "eliminateEnemy es x y j = eliminateEnemy es x y (Suc j)"
      by (subst eliminateEnemy.simps) auto
    then show ?thesis using "1.IH" True by simp
  next
    case False
    then have "eliminateEnemy es x y j = es \<or> eliminateEnemy es x y j = butlast (es[j := last es])"
      by (subst (1 2) eliminateEnemy.simps) auto
    then show ?thesis by auto
  qed
qed

lemma scan_Cons:
  "scan bx by dx dy (i # is) st =
     (if \<not> in_grid (bx + dx * i) (by + dy * i) then Inr st
      else if is_destructible (cell_at (grid st) (bx + dx * i) (by + dy * i))
        then Inr (destroy_at st (bx + dx * i) (by + dy * i))
      else if cell_at (grid st) (bx + dx * i) (by + dy * i) = IndestructibleBlock then Inr st
      else if p_x (player st) = bx + dx * i \<and> p_y (player st) = by + dy * i
        then Inl (GameOver ''Player was blown up by a bomb!'')
      else scan bx by dx dy is (kill_at st (bx + dx * i) (by + dy * i)))"
  by (simp add: Let_def in_grid_def cell_at_def holds_destructible holds_indestructible
      destroy_at_def kill_at_def not_le not_less)

declare scan.simps(2) [simp del]

lemma destroy_at_fields [simp]:
  "player (destroy_at st x y) = player st"
  "enemies (destroy_at st x y) = enemies st"
  "bombs (destroy_at st x y) = bombs st"
  "bombsCap (destroy_at st x y) = bombsCap st"
  "bombsPlanted (destroy_at st x y) = bombsPlanted st"
  "grid (destroy_at st x y) = grid_write (grid st) y x Nullptr"
  "d_x (exitDoor (destroy_at st x y)) = d_x (exitDoor st)"
  "d_y (exitDoor (destroy_at st x y)) = d_y (exitDoor st)"
  "visible (exitDoor (destroy_at st x y)) =
     (visible (exitDoor st) \<or> (x = d_x (exitDoor st) \<and> y = d_y (exitDoor st)))"
  by (auto simp: destroy_at_def)

lemma kill_at_fields [simp]:
  "player (kill_at st x y) = player st"
  "enemies (kill_at st x y) = eliminateEnemy (enemies st) x y 0"
  "bombs (kill_at st x y) = bombs st"
  "bombsCap (kill_at st x y) = bombsCap st"
  "bombsPlanted (kill_at st x y) = bombsPlanted st"
  "grid (kill_at st x y) = grid st"
  "exitDoor (kill_at st x y) = exitDoor st"
  by (simp_all add: kill_at_def)

lemma not_block_iff: "(\<not> is_block c) = (\<not> is_destructible c \<and> c \<noteq> IndestructibleBlock)"
  by (cases c) simp_all

lemma scan_Cons_Inr:
  assumes "scan bx by dx dy (i # is) st = Inr st'"
  shows "st' = st \<or>
         (in_grid (bx + dx * i) (by + dy * i) \<and>
          is_destructible (cell_at (grid st) (bx + dx * i) (by + dy * i)) \<and>
          st' = destroy_at st (bx + dx * i) (by + dy * i)) \<or>
         (in_grid (bx + dx * i) (by + dy * i) \<and>
          \<not> is_block (cell_at (grid st) (bx + dx * i) (by + dy * i)) \<and>
          \<not> (p_x (player st) = bx + dx * i \<and> p_y (player st) = by + dy * i) \<and>
          scan bx by dx dy is (kill_at st (bx + dx * i) (by + dy * i)) = Inr st')"
proof (cases "in_grid (bx + dx * i) (by + dy * i)")
  case False
  with assms show ?thesis by (simp add: scan_Cons)
next
  case ing: True
  show ?thesis
  proof (cases "is_destructible (cell_at (grid st) (bx + dx * i) (by + dy * i))")
    case True
    with assms ing show ?thesis by (simp add: scan_Cons)
  next
    case nd: False
    show ?thesis
    proof (cases "cell_at (grid st) (bx + dx * i) (by + dy * i) = IndestructibleBlock")
      case True
      with assms ing nd show ?thesis by (simp add: scan_Cons)
    next
      case False
      with assms ing nd show ?thesis
        by (simp add: scan_Cons not_block_iff split: if_splits)
    qed
  qed
qed

lemma scan_frame:
  "scan bx by dx dy is st = Inr st' \<Longrightarrow>
     player st' = player st \<and> bombs st' = bombs st \<and> bombsCap st' = bombsCap st \<and>
     bombsPlanted st' = bombsPlanted st \<and>
     d_x (exitDoor st') = d_x (exitDoor st) \<and> d_y (exitDoor st') = d_y (exitDoor st) \<and>
     (visible (exitDoor st) \<longrightarrow> visible (exitDoor st')) \<and>
     length (enemies st') \<le> length (enemies st)"
proof (induction "is" arbitrary: st)
  case Nil
  then show ?case by simp
next
  case (Cons i "is")
  let ?x = "bx + dx * i" and ?y = "by + dy * i"
  from scan_Cons_Inr [OF Cons.prems] consider
      (stop) "st' = st"
    | (destroy) "st' = destroy_at st ?x ?y"
    | (go) "scan bx by dx dy is (kill_at st ?x ?y) = Inr st'"
    by blast
  then show ?case
  proof cases
    case stop
    then show ?thesis by simp
  next
    case destroy
    then show ?thesis by simp
  next
    case go
    from Cons.IH [OF go] show ?thesis
      using length_eliminateEnemy [of "enemies st" ?x ?y 0]
      by simp
  qed
qed

lemma scan_wf:
  "scan bx by dx dy is st = Inr st' \<Longrightarrow> wf_grid (grid st) \<Longrightarrow> wf_grid (grid st')"
proof (induction "is" arbitrary: st)
  case Nil
  then show ?case by simp
next
  case (Cons i "is")
  let ?x = "bx + dx * i" and ?y = "by + dy * i"
  from scan_Cons_Inr [OF Cons.prems(1)] consider
      (stop) "st' = st"
    | (destroy) "st' = destroy_at st ?x ?y"
    | (go) "scan bx by dx dy is (kill_at st ?x ?y) = Inr st'"
    by blast
  then show ?case
  proof cases
    case stop
    then show ?thesis using Cons.prems by simp
  next
    case destroy
    then show ?thesis using Cons.prems by (simp add: wf_grid_write)
  next
    case go
    from Cons.IH [OF go] Cons.prems show ?thesis by simp
  qed
qed

text \<open>A scan changes a grid slot only by destroying a destructible block on its ray.\<close>

lemma scan_grid:
  "scan bx by dx dy is st = Inr st' \<Longrightarrow> wf_grid (grid st) \<Longrightarrow> in_grid x y \<Longrightarrow>
   cell_at (grid st') x y = cell_at (grid st) x y \<or>
   (is_destructible (cell_at (grid st) x y) \<and> cell_at (grid st') x y = Nullptr \<and>
    (\<exists>i \<in> set is. x = bx + dx * i \<and> y = by + dy * i))"
proof (induction "is" arbitrary: st)
  case Nil
  then show ?case by simp
next
  case (Cons i "is")
  let ?x = "bx + dx * i" and ?y = "by + dy * i"
  from scan_Cons_Inr [OF Cons.prems(1)] consider
      (stop) "st' = st"
    | (destroy) "in_grid ?x ?y" "is_destructible (cell_at (grid st) ?x ?y)"
         "st' = destroy_at st ?x ?y"
    | (go) "scan bx by dx dy is (kill_at st ?x ?y) = Inr st'"
    by blast
  then show ?case
  proof cases
    case stop
    then show ?thesis by simp
  next
    case destroy
    then show ?thesis using Cons.prems(2,3) by (auto simp: cell_at_write)
  next
    case go
    from Cons.IH [OF go] Cons.prems(2,3) show ?thesis by auto
  qed
qed

lemma scan_enemies_off_ray:
  "scan bx by dx dy is st = Inr st' \<Longrightarrow>
   \<forall>i \<in> set is. \<not> (x = bx + dx * i \<and> y = by + dy * i) \<Longrightarrow>
   enemies_at (enemies st') x y = enemies_at (enemies st) x y"
proof (induction "is" arbitrary: st)
  case Nil
  then show ?case by simp
next
  case (Cons i "is")
  let ?x = "bx + dx * i" and ?y = "by + dy * i"
  from scan_Cons_Inr [OF Cons.prems(1)] consider
      (stop) "st' = st"
    | (destroy) "st' = destroy_at st ?x ?y"
    | (go) "scan bx by dx dy is (kill_at st ?x ?y) = Inr st'"
    by blast
  then show ?case
  proof cases
    case stop
    then show ?thesis by simp
  next
    case destroy
    then show ?thesis by simp
  next
    case go
    from Cons.IH [OF go] Cons.prems(2) show ?thesis
      by (auto simp: eliminateEnemy_at)
  qed
qed

text \<open>A scan ends the game only when the player stands on its ray.\<close>

lemma scan_Inl:
  "scan bx by dx dy is st = Inl h \<Longrightarrow>
   h = GameOver ''Player was blown up by a bomb!'' \<and>
   (\<exists>i \<in> set is. p_x (player st) = bx + dx * i \<and> p_y (player st) = by + dy * i)"
proof (induction "is" arbitrary: st)
  case Nil
  then show ?case by simp
next
  case (Cons i "is")
  let ?x = "bx + dx * i" and ?y = "by + dy * i"
  from Cons.prems have
    "(h = GameOver ''Player was blown up by a bomb!'' \<and> p_x (player st) = ?x \<and> p_y (player st) = ?y)
     \<or> scan bx by dx dy is (kill_at st ?x ?y) = Inl h"
    by (simp add: scan_Cons split: if_splits)
  then show ?case
  proof
    assume "h = GameOver ''Player was blown up by a bomb!'' \<and> p_x (player st) = ?x \<and> p_y (player st) = ?y"
    then show ?thesis by simp
  next
    assume "scan bx by dx dy is (kill_at st ?x ?y) = Inl h"
    from Cons.IH [OF this] show ?thesis by simp
  qed
qed

lemma is_block_iff: "is_block c = (is_destructible c \<or> c = IndestructibleBlock)"
  by (cases c) simp_all

lemma scan_Inl_iff:
  "(scan bx by dx dy is st = Inl h) =
   (h = GameOver ''Player was blown up by a bomb!'' \<and>
    (p_x (player st), p_y (player st)) \<in> set (blast_cells (grid st) bx by dx dy is))"
proof (induction "is" arbitrary: st)
  case Nil
  then show ?case by simp
next
  case (Cons i "is")
  show ?case
    by (auto simp: scan_Cons Cons.IH is_block_iff)
qed

lemma scan_result:
  "scan bx by dx dy is st = Inr st' \<Longrightarrow>
   grid st' = (case ray_hit (grid st) bx by dx dy is of
                 None \<Rightarrow> grid st | Some (x, y) \<Rightarrow> grid_write (grid st) y x Nullptr) \<and>
   visible (exitDoor st') =
     (visible (exitDoor st) \<or>
      ray_hit (grid st) bx by dx dy is = Some (d_x (exitDoor st), d_y (exitDoor st))) \<and>
   (\<forall>x y. enemies_at (enemies st') x y =
      enemies_at (enemies st) x y - count_list (blast_cells (grid st) bx by dx dy is) (x, y))"
proof (induction "is" arbitrary: st)
  case Nil
  then show ?case by simp
next
  case (Cons i "is")
  let ?x = "bx + dx * i" and ?y = "by + dy * i"
  show ?case
  proof (cases "in_grid ?x ?y")
    case False
    with Cons.prems show ?thesis by (simp add: scan_Cons)
  next
    case ing: True
    show ?thesis
    proof (cases "is_block (cell_at (grid st) ?x ?y)")
      case True
      with Cons.prems ing show ?thesis
        by (cases "cell_at (grid st) ?x ?y") (auto simp: scan_Cons)
    next
      case False
      with Cons.prems ing have go: "scan bx by dx dy is (kill_at st ?x ?y) = Inr st'"
        by (simp add: scan_Cons is_block_iff split: if_splits)
      from Cons.IH [OF go] False ing show ?thesis
        by (simp add: is_block_iff eliminateEnemy_at split: option.splits)
    qed
  qed
qed

lemma explodeBomb_seq:
  "explodeBomb b st =
     (case for_each directions (scan_dir (b_x b) (b_y b)) st of
        Inl h \<Rightarrow> Inl h
      | Inr st' \<Rightarrow> Inr (st'\<lparr>player := reloadBomb (player st')\<rparr>))"
  by (simp add: explodeBomb_def directions_def scan_dir_def split: sum.splits)

lemma rays_disjoint:
  "d \<in> set directions \<Longrightarrow> d' \<in> set directions \<Longrightarrow> d \<noteq> d' \<Longrightarrow>
   i \<in> {1, 2, 3} \<Longrightarrow> j \<in> {1, 2, 3} \<Longrightarrow>
   \<not> (bx + fst d * i = bx + fst d' * j \<and> by + snd d * i = by + snd d' * j)"
  by (auto simp: directions_def)

lemma ray_hit_cong:
  "\<forall>i \<in> set is. in_grid (bx + dx * i) (by + dy * i) \<longrightarrow>
      cell_at g' (bx + dx * i) (by + dy * i) = cell_at g (bx + dx * i) (by + dy * i) \<Longrightarrow>
   ray_hit g' bx by dx dy is = ray_hit g bx by dx dy is"
  by (induction "is") auto

lemma blast_cells_cong:
  "\<forall>i \<in> set is. in_grid (bx + dx * i) (by + dy * i) \<longrightarrow>
      cell_at g' (bx + dx * i) (by + dy * i) = cell_at g (bx + dx * i) (by + dy * i) \<Longrightarrow>
   blast_cells g' bx by dx dy is = blast_cells g bx by dx dy is"
  by (induction "is") auto

lemma ray_hit_Some:
  "ray_hit g bx by dx dy is = Some (x, y) \<Longrightarrow>
   in_grid x y \<and> is_destructible (cell_at g x y) \<and> (\<exists>i \<in> set is. x = bx + dx * i \<and> y = by + dy * i)"
  by (induction "is") (auto split: if_splits)

lemma scan_dir_agree:
  assumes "scan_dir bx by d s = Inr s1" "wf_grid (grid s)"
      "d \<in> set directions" "d' \<in> set directions" "d \<noteq> d'"
  shows "\<forall>i \<in> set [1, 2, 3]. in_grid (bx + fst d' * i) (by + snd d' * i) \<longrightarrow>
      cell_at (grid s1) (bx + fst d' * i) (by + snd d' * i)
        = cell_at (grid s) (bx + fst d' * i) (by + snd d' * i)"
proof (intro ballI impI)
  fix i :: int
  assume i: "i \<in> set [1, 2, 3]" and ing: "in_grid (bx + fst d' * i) (by + snd d' * i)"
  from assms(1) have sc: "scan bx by (fst d) (snd d) [1, 2, 3] s = Inr s1"
    by (simp add: scan_dir_def)
  have "\<not> (bx + fst d' * i = bx + fst d * j \<and> by + snd d' * i = by + snd d * j)"
    if "j \<in> set [1, 2, 3]" for j
    using rays_disjoint [OF assms(4) assms(3), of i j bx "by"] assms(5) i that by simp
  then have "\<not> (\<exists>j \<in> set [1, 2, 3]. bx + fst d' * i = bx + fst d * j \<and> by + snd d' * i = by + snd d * j)"
    by blast
  with scan_grid [OF sc assms(2) ing]
  show "cell_at (grid s1) (bx + fst d' * i) (by + snd d' * i)
        = cell_at (grid s) (bx + fst d' * i) (by + snd d' * i)"
    by blast
qed

lemma map_filter_cong_set:
  "(\<And>x. x \<in> set xs \<Longrightarrow> f x = g x) \<Longrightarrow> List.map_filter f xs = List.map_filter g xs"
  by (induction xs) (simp_all add: map_filter_simps split: option.splits)

lemma concat_map_cong_set:
  "(\<And>x. x \<in> set xs \<Longrightarrow> f x = g x) \<Longrightarrow> concat (map f xs) = concat (map g xs)"
  by (induction xs) simp_all

lemma hits_of_agree:
  assumes "scan_dir bx by d s = Inr s1" "wf_grid (grid s)"
      "d \<in> set directions" "set ds \<subseteq> set directions" "d \<notin> set ds"
  shows "hits_of (grid s1) bx by ds = hits_of (grid s) bx by ds"
    and "blasted_of (grid s1) bx by ds = blasted_of (grid s) bx by ds"
proof -
  have a: "\<And>d'. d' \<in> set ds \<Longrightarrow>
     ray_hit (grid s1) bx by (fst d') (snd d') [1, 2, 3] = ray_hit (grid s) bx by (fst d') (snd d') [1, 2, 3]
     \<and> blast_cells (grid s1) bx by (fst d') (snd d') [1, 2, 3] = blast_cells (grid s) bx by (fst d') (snd d') [1, 2, 3]"
  proof -
    fix d' assume d': "d' \<in> set ds"
    then have "d' \<in> set directions" "d \<noteq> d'" using assms(4,5) by auto
    note ag = scan_dir_agree [OF assms(1,2,3) this]
    have 1: "ray_hit (grid s1) bx by (fst d') (snd d') [1, 2, 3] = ray_hit (grid s) bx by (fst d') (snd d') [1, 2, 3]"
      by (rule ray_hit_cong) (rule ag)
    have 2: "blast_cells (grid s1) bx by (fst d') (snd d') [1, 2, 3] = blast_cells (grid s) bx by (fst d') (snd d') [1, 2, 3]"
      by (rule blast_cells_cong) (rule ag)
    from 1 2 show "ray_hit (grid s1) bx by (fst d') (snd d') [1, 2, 3] = ray_hit (grid s) bx by (fst d') (snd d') [1, 2, 3]
     \<and> blast_cells (grid s1) bx by (fst d') (snd d') [1, 2, 3] = blast_cells (grid s) bx by (fst d') (snd d') [1, 2, 3]"
      by simp
  qed
  show "hits_of (grid s1) bx by ds = hits_of (grid s) bx by ds"
    unfolding hits_of_def by (rule map_filter_cong_set) (use a in blast)
  show "blasted_of (grid s1) bx by ds = blasted_of (grid s) bx by ds"
    unfolding blasted_of_def by (rule concat_map_cong_set) (use a in blast)
qed

lemma scan_dir_result:
  assumes "scan_dir bx by d s = Inr s1" "wf_grid (grid s)"
  shows "wf_grid (grid s1)"
    and "player s1 = player s" "bombs s1 = bombs s" "bombsCap s1 = bombsCap s"
        "bombsPlanted s1 = bombsPlanted s"
        "d_x (exitDoor s1) = d_x (exitDoor s)" "d_y (exitDoor s1) = d_y (exitDoor s)"
    and "\<And>x y. in_grid x y \<Longrightarrow> cell_at (grid s1) x y =
           (if (x, y) \<in> set (hits_of (grid s) bx by [d]) then Nullptr else cell_at (grid s) x y)"
    and "visible (exitDoor s1) =
           (visible (exitDoor s) \<or> (d_x (exitDoor s), d_y (exitDoor s)) \<in> set (hits_of (grid s) bx by [d]))"
    and "\<And>x y. enemies_at (enemies s1) x y =
           enemies_at (enemies s) x y - count_list (blasted_of (grid s) bx by [d]) (x, y)"
proof -
  from assms(1) have sc: "scan bx by (fst d) (snd d) [1, 2, 3] s = Inr s1"
    by (simp add: scan_dir_def)
  note r = scan_result [OF sc]
  note f = scan_frame [OF sc]
  show "wf_grid (grid s1)" by (rule scan_wf [OF sc assms(2)])
  from f show "player s1 = player s" "bombs s1 = bombs s" "bombsCap s1 = bombsCap s"
        "bombsPlanted s1 = bombsPlanted s"
        "d_x (exitDoor s1) = d_x (exitDoor s)" "d_y (exitDoor s1) = d_y (exitDoor s)"
    by simp_all
  show "cell_at (grid s1) x y =
           (if (x, y) \<in> set (hits_of (grid s) bx by [d]) then Nullptr else cell_at (grid s) x y)"
    if "in_grid x y" for x y
  proof (cases "ray_hit (grid s) bx by (fst d) (snd d) [1, 2, 3]")
    case None
    with r show ?thesis by (simp add: hits_of_def map_filter_simps)
  next
    case (Some p)
    obtain hx hy where p: "p = (hx, hy)" by (cases p)
    from ray_hit_Some [OF Some [unfolded p]] have "in_grid hx hy" by simp
    with r Some p that assms(2) show ?thesis
      by (simp add: hits_of_def map_filter_simps cell_at_write)
  qed
  from r show "visible (exitDoor s1) =
           (visible (exitDoor s) \<or> (d_x (exitDoor s), d_y (exitDoor s)) \<in> set (hits_of (grid s) bx by [d]))"
    by (cases "ray_hit (grid s) bx by (fst d) (snd d) [1, 2, 3]")
       (auto simp: hits_of_def map_filter_simps)
  from r show "enemies_at (enemies s1) x y =
           enemies_at (enemies s) x y - count_list (blasted_of (grid s) bx by [d]) (x, y)" for x y
    by (simp add: blasted_of_def)
qed

lemma hits_of_Cons: "hits_of g bx by (d # ds) = hits_of g bx by [d] @ hits_of g bx by ds"
  by (simp add: hits_of_def map_filter_simps split: option.splits)

lemma blasted_of_Cons: "blasted_of g bx by (d # ds) = blasted_of g bx by [d] @ blasted_of g bx by ds"
  by (simp add: blasted_of_def)

lemma seq_result:
  "for_each ds (scan_dir bx by) s = Inr s' \<Longrightarrow> wf_grid (grid s) \<Longrightarrow>
   distinct ds \<Longrightarrow> set ds \<subseteq> set directions \<Longrightarrow>
   wf_grid (grid s') \<and> player s' = player s \<and> bombs s' = bombs s \<and> bombsCap s' = bombsCap s \<and>
   bombsPlanted s' = bombsPlanted s \<and>
   d_x (exitDoor s') = d_x (exitDoor s) \<and> d_y (exitDoor s') = d_y (exitDoor s) \<and>
   (\<forall>x y. in_grid x y \<longrightarrow> cell_at (grid s') x y =
       (if (x, y) \<in> set (hits_of (grid s) bx by ds) then Nullptr else cell_at (grid s) x y)) \<and>
   visible (exitDoor s') =
       (visible (exitDoor s) \<or> (d_x (exitDoor s), d_y (exitDoor s)) \<in> set (hits_of (grid s) bx by ds)) \<and>
   (\<forall>x y. enemies_at (enemies s') x y =
       enemies_at (enemies s) x y - count_list (blasted_of (grid s) bx by ds) (x, y))"
proof (induction ds arbitrary: s)
  case Nil
  then show ?case by (simp add: hits_of_def blasted_of_def map_filter_simps)
next
  case (Cons d ds)
  from Cons.prems(1) obtain s1 where
    s1: "scan_dir bx by d s = Inr s1" and rest: "for_each ds (scan_dir bx by) s1 = Inr s'"
    by (auto split: sum.splits)
  note r1 = scan_dir_result [OF s1 Cons.prems(2)]
  from Cons.prems have d: "d \<in> set directions" "set ds \<subseteq> set directions" "d \<notin> set ds" "distinct ds"
    by auto
  note ag = hits_of_agree [OF s1 Cons.prems(2) d(1) d(2) d(3)]
  note ih = Cons.IH [OF rest r1(1) d(4) d(2), unfolded ag]
  have cells: "cell_at (grid s') x y =
       (if (x, y) \<in> set (hits_of (grid s) bx by (d # ds)) then Nullptr else cell_at (grid s) x y)"
    if "in_grid x y" for x y
    using ih r1(8) [OF that] that by (simp add: hits_of_Cons [of _ _ _ d ds])
  have vis: "visible (exitDoor s') =
       (visible (exitDoor s) \<or> (d_x (exitDoor s), d_y (exitDoor s)) \<in> set (hits_of (grid s) bx by (d # ds)))"
    using ih r1 by (auto simp: hits_of_Cons [of _ _ _ d ds])
  have en: "enemies_at (enemies s') x y =
       enemies_at (enemies s) x y - count_list (blasted_of (grid s) bx by (d # ds)) (x, y)" for x y
    using ih r1(10) [of x y] by (simp add: blasted_of_Cons [of _ _ _ d ds])
  from ih r1 cells vis en show ?case by simp
qed

lemma seq_Inl:
  "wf_grid (grid s) \<Longrightarrow> distinct ds \<Longrightarrow> set ds \<subseteq> set directions \<Longrightarrow>
   (for_each ds (scan_dir bx by) s = Inl h) =
   (h = GameOver ''Player was blown up by a bomb!'' \<and>
    (p_x (player s), p_y (player s)) \<in> set (blasted_of (grid s) bx by ds))"
proof (induction ds arbitrary: s)
  case Nil
  then show ?case by (simp add: blasted_of_def)
next
  case (Cons d ds)
  from Cons.prems have d: "d \<in> set directions" "set ds \<subseteq> set directions" "d \<notin> set ds" "distinct ds"
    by auto
  show ?case
  proof (cases "scan_dir bx by d s")
    case (Inl h')
    then have "h' = GameOver ''Player was blown up by a bomb!'' \<and>
       (p_x (player s), p_y (player s)) \<in> set (blasted_of (grid s) bx by [d])"
      by (simp add: scan_dir_def scan_Inl_iff blasted_of_def)
    with Inl show ?thesis
      by (auto simp: blasted_of_Cons [of _ _ _ d ds])
  next
    case (Inr s1)
    note r1 = scan_dir_result [OF Inr Cons.prems(1)]
    note ag = hits_of_agree [OF Inr Cons.prems(1) d(1) d(2) d(3)]
    have no: "(p_x (player s), p_y (player s)) \<notin> set (blasted_of (grid s) bx by [d])"
    proof
      assume "(p_x (player s), p_y (player s)) \<in> set (blasted_of (grid s) bx by [d])"
      then have "scan_dir bx by d s = Inl (GameOver ''Player was blown up by a bomb!'')"
        by (simp add: scan_dir_def scan_Inl_iff blasted_of_def)
      with Inr show False by simp
    qed
    from Cons.IH [OF r1(1) d(4) d(2), unfolded ag r1(2)] Inr no show ?thesis
      by (simp add: blasted_of_Cons [of _ _ _ d ds])
  qed
qed

lemma directions_distinct: "distinct directions"
  by (simp add: directions_def)

text \<open>What a detonation does, in terms of the grid before it.\<close>

lemma explodeBomb_Inl:
  "wf_grid (grid st) \<Longrightarrow>
   (explodeBomb b st = Inl h) =
   (h = GameOver ''Player was blown up by a bomb!'' \<and>
    (p_x (player st), p_y (player st)) \<in> set (blasted_of (grid st) (b_x b) (b_y b) directions))"
  using seq_Inl [of st directions "b_x b" "b_y b" h]
  by (auto simp: explodeBomb_seq directions_distinct split: sum.splits)

lemma explodeBomb_Inr:
  assumes "explodeBomb b st = Inr st'" "wf_grid (grid st)"
  shows "wf_grid (grid st')"
    and "player st' = reloadBomb (player st)" "bombs st' = bombs st" "bombsCap st' = bombsCap st"
        "bombsPlanted st' = bombsPlanted st"
        "d_x (exitDoor st') = d_x (exitDoor st)" "d_y (exitDoor st') = d_y (exitDoor st)"
    and "\<And>x y. in_grid x y \<Longrightarrow> cell_at (grid st') x y =
           (if (x, y) \<in> set (hits_of (grid st) (b_x b) (b_y b) directions) then Nullptr
            else cell_at (grid st) x y)"
    and "visible (exitDoor st') =
           (visible (exitDoor st) \<or>
            (d_x (exitDoor st), d_y (exitDoor st)) \<in> set (hits_of (grid st) (b_x b) (b_y b) directions))"
    and "\<And>x y. enemies_at (enemies st') x y =
           enemies_at (enemies st) x y - count_list (blasted_of (grid st) (b_x b) (b_y b) directions) (x, y)"
proof -
  from assms(1) obtain s5 where
    s5: "for_each directions (scan_dir (b_x b) (b_y b)) st = Inr s5"
    and st': "st' = s5\<lparr>player := reloadBomb (player s5)\<rparr>"
    by (auto simp: explodeBomb_seq split: sum.splits)
  note r = seq_result [OF s5 assms(2) directions_distinct subset_refl]
  from r st' show "wf_grid (grid st')"
    and "player st' = reloadBomb (player st)" "bombs st' = bombs st" "bombsCap st' = bombsCap st"
        "bombsPlanted st' = bombsPlanted st"
        "d_x (exitDoor st') = d_x (exitDoor st)" "d_y (exitDoor st') = d_y (exitDoor st)"
    by simp_all
  from r st' show "cell_at (grid st') x y =
           (if (x, y) \<in> set (hits_of (grid st) (b_x b) (b_y b) directions) then Nullptr
            else cell_at (grid st) x y)" if "in_grid x y" for x y
    using that by simp
  from r st' show "visible (exitDoor st') =
           (visible (exitDoor st) \<or>
            (d_x (exitDoor st), d_y (exitDoor st)) \<in> set (hits_of (grid st) (b_x b) (b_y b) directions))"
    by simp
  from r st' show "enemies_at (enemies st') x y =
           enemies_at (enemies st) x y - count_list (blasted_of (grid st) (b_x b) (b_y b) directions) (x, y)"
    for x y
    by simp
qed

lemma same_ray:
  "d \<in> set cardinal \<Longrightarrow> d' \<in> set directions \<Longrightarrow> i \<in> {1, 2, 3} \<Longrightarrow> 1 \<le> j \<Longrightarrow>
   bx + fst d * j = bx + fst d' * i \<Longrightarrow> by + snd d * j = by + snd d' * i \<Longrightarrow>
   d' = d \<and> i = j"
  by (auto simp: cardinal_def directions_def)

lemma blast_cells_on_ray:
  "(x, y) \<in> set (blast_cells g bx by dx dy is) \<Longrightarrow>
   \<exists>i \<in> set is. x = bx + dx * i \<and> y = by + dy * i"
  by (induction "is") (auto split: if_splits)

lemma set_map_filter_iff: "(y \<in> set (List.map_filter f xs)) = (\<exists>x \<in> set xs. f x = Some y)"
  by (induction xs) (auto split: option.splits)

lemma cardinal_directions: "d \<in> set cardinal \<Longrightarrow> d \<in> set directions"
  by (auto simp: cardinal_def directions_def)

lemma hit_on_ray:
  assumes "d \<in> set cardinal" "1 \<le> j"
  shows "((bx + fst d * j, by + snd d * j) \<in> set (hits_of g bx by directions))
       = (ray_hit g bx by (fst d) (snd d) [1, 2, 3] = Some (bx + fst d * j, by + snd d * j))"
proof
  assume "(bx + fst d * j, by + snd d * j) \<in> set (hits_of g bx by directions)"
  then obtain d' where d': "d' \<in> set directions"
    and h: "ray_hit g bx by (fst d') (snd d') [1, 2, 3] = Some (bx + fst d * j, by + snd d * j)"
    unfolding hits_of_def set_map_filter_iff by blast
  from ray_hit_Some [OF h] obtain i where
    "i \<in> set [1, 2, 3]" "bx + fst d * j = bx + fst d' * i" "by + snd d * j = by + snd d' * i"
    by blast
  then have "i \<in> {1, 2, 3}" "bx + fst d * j = bx + fst d' * i" "by + snd d * j = by + snd d' * i"
    by simp_all
  from same_ray [OF assms(1) d' this(1) assms(2) this(2,3)] h
  show "ray_hit g bx by (fst d) (snd d) [1, 2, 3] = Some (bx + fst d * j, by + snd d * j)"
    by simp
next
  assume "ray_hit g bx by (fst d) (snd d) [1, 2, 3] = Some (bx + fst d * j, by + snd d * j)"
  then show "(bx + fst d * j, by + snd d * j) \<in> set (hits_of g bx by directions)"
    using cardinal_directions [OF assms(1)]
    unfolding hits_of_def set_map_filter_iff by blast
qed

lemma blast_on_ray:
  assumes "d \<in> set cardinal" "1 \<le> j"
  shows "count_list (blasted_of g bx by directions) (bx + fst d * j, by + snd d * j)
       = count_list (blast_cells g bx by (fst d) (snd d) [1, 2, 3]) (bx + fst d * j, by + snd d * j)"
proof -
  have other: "count_list (blast_cells g bx by (fst d') (snd d') [1, 2, 3]) (bx + fst d * j, by + snd d * j) = 0"
    if "d' \<in> set directions" "d' \<noteq> d" for d'
  proof -
    have "(bx + fst d * j, by + snd d * j) \<notin> set (blast_cells g bx by (fst d') (snd d') [1, 2, 3])"
    proof
      assume "(bx + fst d * j, by + snd d * j) \<in> set (blast_cells g bx by (fst d') (snd d') [1, 2, 3])"
      from blast_cells_on_ray [OF this] obtain i where
        "i \<in> set [1, 2, 3]" "bx + fst d * j = bx + fst d' * i" "by + snd d * j = by + snd d' * i"
        by blast
      then have "i \<in> {1, 2, 3}" "bx + fst d * j = bx + fst d' * i" "by + snd d * j = by + snd d' * i"
        by simp_all
      from same_ray [OF assms(1) that(1) this(1) assms(2) this(2,3)] that(2) show False by simp
    qed
    then show ?thesis by (simp add: count_list_0_iff)
  qed
  from assms(1) consider "d = (- 1, 0)" | "d = (1, 0)" | "d = (0, - 1)" | "d = (0, 1)"
    by (auto simp: cardinal_def)
  then show ?thesis
  proof cases
    case 1
    with other [of "(0, - 1)"] other [of "(0, 0)"] other [of "(0, 1)"] other [of "(1, 0)"]
    show ?thesis by (simp add: blasted_of_def directions_def del: blast_cells.simps)
  next
    case 2
    with other [of "(0, - 1)"] other [of "(0, 0)"] other [of "(0, 1)"] other [of "(- 1, 0)"]
    show ?thesis by (simp add: blasted_of_def directions_def del: blast_cells.simps)
  next
    case 3
    with other [of "(- 1, 0)"] other [of "(0, 0)"] other [of "(0, 1)"] other [of "(1, 0)"]
    show ?thesis by (simp add: blasted_of_def directions_def del: blast_cells.simps)
  next
    case 4
    with other [of "(0, - 1)"] other [of "(0, 0)"] other [of "(- 1, 0)"] other [of "(1, 0)"]
    show ?thesis by (simp add: blasted_of_def directions_def del: blast_cells.simps)
  qed
qed

lemma ray_hit_first:
  assumes "i \<in> {1, 2, 3}" "in_grid (bx + dx * i) (by + dy * i)"
    "\<forall>j \<in> {1..<i}. in_grid (bx + dx * j) (by + dy * j) \<and> \<not> is_block (cell_at g (bx + dx * j) (by + dy * j))"
    "is_destructible (cell_at g (bx + dx * i) (by + dy * i))"
  shows "ray_hit g bx by dx dy [1, 2, 3] = Some (bx + dx * i, by + dy * i)"
proof -
  from assms(1) consider "i = 1" | "i = 2" | "i = 3" by auto
  then show ?thesis
  proof cases
    case 1
    with assms(2,4) show ?thesis by simp
  next
    case 2
    have "in_grid (bx + dx * 1) (by + dy * 1) \<and> \<not> is_block (cell_at g (bx + dx * 1) (by + dy * 1))"
      using bspec [OF assms(3), of 1] 2 by simp
    with 2 assms(2,4) show ?thesis by (simp add: is_block_iff)
  next
    case 3
    have "in_grid (bx + dx * 1) (by + dy * 1) \<and> \<not> is_block (cell_at g (bx + dx * 1) (by + dy * 1))"
      "in_grid (bx + dx * 2) (by + dy * 2) \<and> \<not> is_block (cell_at g (bx + dx * 2) (by + dy * 2))"
      using bspec [OF assms(3), of 1] bspec [OF assms(3), of 2] 3 by simp_all
    with 3 assms(2,4) show ?thesis by (simp add: is_block_iff)
  qed
qed

text \<open>Cells that a scan reaches lie before the first block of the ray.\<close>

lemma ray_hit_before:
  "ray_hit g bx by dx dy is = Some (x, y) \<Longrightarrow>
   \<exists>pre k post. is = pre @ k # post \<and> x = bx + dx * k \<and> y = by + dy * k \<and>
     (\<forall>m \<in> set pre. in_grid (bx + dx * m) (by + dy * m) \<and> \<not> is_block (cell_at g (bx + dx * m) (by + dy * m)))"
proof (induction "is")
  case Nil
  then show ?case by simp
next
  case (Cons i "is")
  show ?case
  proof (cases "in_grid (bx + dx * i) (by + dy * i) \<and> \<not> is_block (cell_at g (bx + dx * i) (by + dy * i))")
    case True
    with Cons.prems have "ray_hit g bx by dx dy is = Some (x, y)"
      by (simp add: is_block_iff)
    from Cons.IH [OF this] obtain pre k post where
      "is = pre @ k # post" "x = bx + dx * k" "y = by + dy * k"
      "\<forall>m \<in> set pre. in_grid (bx + dx * m) (by + dy * m) \<and> \<not> is_block (cell_at g (bx + dx * m) (by + dy * m))"
      by blast
    with True have "i # is = (i # pre) @ k # post \<and> x = bx + dx * k \<and> y = by + dy * k \<and>
      (\<forall>m \<in> set (i # pre). in_grid (bx + dx * m) (by + dy * m) \<and> \<not> is_block (cell_at g (bx + dx * m) (by + dy * m)))"
      by simp
    then show ?thesis by blast
  next
    case False
    with Cons.prems have "x = bx + dx * i \<and> y = by + dy * i"
      by (auto simp: is_block_iff split: if_splits)
    then have "i # is = [] @ i # is \<and> x = bx + dx * i \<and> y = by + dy * i \<and>
      (\<forall>m \<in> set []. in_grid (bx + dx * m) (by + dy * m) \<and> \<not> is_block (cell_at g (bx + dx * m) (by + dy * m)))"
      by simp
    then show ?thesis by blast
  qed
qed

lemma blast_cells_before:
  "(x, y) \<in> set (blast_cells g bx by dx dy is) \<Longrightarrow>
   \<exists>pre k post. is = pre @ k # post \<and> x = bx + dx * k \<and> y = by + dy * k \<and>
     (\<forall>m \<in> set pre. in_grid (bx + dx * m) (by + dy * m) \<and> \<not> is_block (cell_at g (bx + dx * m) (by + dy * m)))"
proof (induction "is")
  case Nil
  then show ?case by simp
next
  case (Cons i "is")
  from Cons.prems have ok: "in_grid (bx + dx * i) (by + dy * i) \<and> \<not> is_block (cell_at g (bx + dx * i) (by + dy * i))"
    by (auto split: if_splits)
  with Cons.prems consider "x = bx + dx * i \<and> y = by + dy * i" | "(x, y) \<in> set (blast_cells g bx by dx dy is)"
    by auto
  then show ?case
  proof cases
    case 1
    then have "i # is = [] @ i # is \<and> x = bx + dx * i \<and> y = by + dy * i \<and>
      (\<forall>m \<in> set []. in_grid (bx + dx * m) (by + dy * m) \<and> \<not> is_block (cell_at g (bx + dx * m) (by + dy * m)))"
      by simp
    then show ?thesis by blast
  next
    case 2
    from Cons.IH [OF this] obtain pre k post where
      "is = pre @ k # post" "x = bx + dx * k" "y = by + dy * k"
      "\<forall>m \<in> set pre. in_grid (bx + dx * m) (by + dy * m) \<and> \<not> is_block (cell_at g (bx + dx * m) (by + dy * m))"
      by blast
    with ok have "i # is = (i # pre) @ k # post \<and> x = bx + dx * k \<and> y = by + dy * k \<and>
      (\<forall>m \<in> set (i # pre). in_grid (bx + dx * m) (by + dy * m) \<and> \<not> is_block (cell_at g (bx + dx * m) (by + dy * m)))"
      by simp
    then show ?thesis by blast
  qed
qed

text \<open>In the list 1, 2, 3 the elements before \<open>k\<close> are the smaller ones.\<close>

lemma split_123:
  "[1, 2, 3 :: int] = pre @ k # post \<Longrightarrow> k \<in> {1, 2, 3} \<and> (\<forall>m \<in> {1, 2, 3}. m < k \<longrightarrow> m \<in> set pre)"
  by (auto simp: Cons_eq_append_conv append_eq_Cons_conv)

lemma cardinal_inj:
  "d \<in> set cardinal \<Longrightarrow> bx + fst d * j = bx + fst d * k \<Longrightarrow> by + snd d * j = by + snd d * k \<Longrightarrow> j = k"
  by (auto simp: cardinal_def)

lemma beyond_block:
  assumes d: "d \<in> set cardinal"
    and far: "(1 \<le> i \<and> i < j \<and> in_grid (bx + fst d * i) (by + snd d * i) \<and>
              is_block (cell_at g (bx + fst d * i) (by + snd d * i))) \<or> 3 < j"
  shows "ray_hit g bx by (fst d) (snd d) [1, 2, 3] \<noteq> Some (bx + fst d * j, by + snd d * j)"
    and "(bx + fst d * j, by + snd d * j) \<notin> set (blast_cells g bx by (fst d) (snd d) [1, 2, 3])"
proof -
  have no: False
    if "[1, 2, 3] = pre @ k # post" "bx + fst d * j = bx + fst d * k" "by + snd d * j = by + snd d * k"
       "\<forall>m \<in> set pre. in_grid (bx + fst d * m) (by + snd d * m) \<and>
           \<not> is_block (cell_at g (bx + fst d * m) (by + snd d * m))"
    for pre k post
  proof -
    from cardinal_inj [OF d that(2,3)] have jk: "j = k" .
    from split_123 [OF that(1)] have k: "k \<in> {1, 2, 3}" and pre: "\<forall>m \<in> {1, 2, 3}. m < k \<longrightarrow> m \<in> set pre"
      by simp_all
    from far show False
    proof
      assume a: "1 \<le> i \<and> i < j \<and> in_grid (bx + fst d * i) (by + snd d * i) \<and>
              is_block (cell_at g (bx + fst d * i) (by + snd d * i))"
      with jk k have "i \<in> {1, 2, 3}" "i < k" by auto
      with pre have "i \<in> set pre" by blast
      with that(4) a show False by blast
    next
      assume "3 < j"
      with jk k show False by auto
    qed
  qed
  show "ray_hit g bx by (fst d) (snd d) [1, 2, 3] \<noteq> Some (bx + fst d * j, by + snd d * j)"
  proof
    assume "ray_hit g bx by (fst d) (snd d) [1, 2, 3] = Some (bx + fst d * j, by + snd d * j)"
    from ray_hit_before [OF this] no show False by blast
  qed
  show "(bx + fst d * j, by + snd d * j) \<notin> set (blast_cells g bx by (fst d) (snd d) [1, 2, 3])"
  proof
    assume "(bx + fst d * j, by + snd d * j) \<in> set (blast_cells g bx by (fst d) (snd d) [1, 2, 3])"
    from blast_cells_before [OF this] no show False by blast
  qed
qed

lemma beyond_unchanged:
  assumes ex: "explodeBomb b st = Inr st'" and wf: "wf_grid (grid st)"
    and d: "d \<in> set cardinal"
    and far: "(1 \<le> i \<and> i < j \<and> in_grid (b_x b + fst d * i) (b_y b + snd d * i) \<and>
              is_block (cell_at (grid st) (b_x b + fst d * i) (b_y b + snd d * i))) \<or> 3 < j"
    and ing: "in_grid (b_x b + fst d * j) (b_y b + snd d * j)"
  shows "cell_at (grid st') (b_x b + fst d * j) (b_y b + snd d * j)
           = cell_at (grid st) (b_x b + fst d * j) (b_y b + snd d * j) \<and>
         enemies_at (enemies st') (b_x b + fst d * j) (b_y b + snd d * j)
           = enemies_at (enemies st) (b_x b + fst d * j) (b_y b + snd d * j)"
proof -
  from far have j1: "1 \<le> j" by auto
  note r = explodeBomb_Inr [OF ex wf]
  note bb = beyond_block [OF d far]
  have "(b_x b + fst d * j, b_y b + snd d * j) \<notin> set (hits_of (grid st) (b_x b) (b_y b) directions)"
    using hit_on_ray [OF d j1] bb(1) by simp
  moreover have "count_list (blasted_of (grid st) (b_x b) (b_y b) directions)
       (b_x b + fst d * j, b_y b + snd d * j) = 0"
    using blast_on_ray [OF d j1] bb(2) by (simp add: count_list_0_iff)
  ultimately show ?thesis using r(8) [OF ing] r(10) by simp
qed

lemma first_block:
  assumes ex: "explodeBomb b st = Inr st'" and wf: "wf_grid (grid st)"
    and d: "d \<in> set cardinal" and i: "i \<in> {1, 2, 3}"
    and ing: "in_grid (b_x b + fst d * i) (b_y b + snd d * i)"
    and clear: "\<forall>j \<in> {1..<i}. in_grid (b_x b + fst d * j) (b_y b + snd d * j) \<and>
         \<not> is_block (cell_at (grid st) (b_x b + fst d * j) (b_y b + snd d * j))"
  shows "(cell_at (grid st) (b_x b + fst d * i) (b_y b + snd d * i) = IndestructibleBlock \<longrightarrow>
          cell_at (grid st') (b_x b + fst d * i) (b_y b + snd d * i) = IndestructibleBlock) \<and>
         (is_destructible (cell_at (grid st) (b_x b + fst d * i) (b_y b + snd d * i)) \<longrightarrow>
          cell_at (grid st') (b_x b + fst d * i) (b_y b + snd d * i) = Nullptr \<and>
          (b_x b + fst d * i = d_x (exitDoor st) \<and> b_y b + snd d * i = d_y (exitDoor st)
             \<longrightarrow> visible (exitDoor st')))"
proof (intro conjI impI)
  note r = explodeBomb_Inr [OF ex wf]
  from i have i1: "1 \<le> i" by auto
  {
    assume ind: "cell_at (grid st) (b_x b + fst d * i) (b_y b + snd d * i) = IndestructibleBlock"
    have "ray_hit (grid st) (b_x b) (b_y b) (fst d) (snd d) [1, 2, 3]
            \<noteq> Some (b_x b + fst d * i, b_y b + snd d * i)"
    proof
      assume "ray_hit (grid st) (b_x b) (b_y b) (fst d) (snd d) [1, 2, 3]
            = Some (b_x b + fst d * i, b_y b + snd d * i)"
      from ray_hit_Some [OF this] ind show False by simp
    qed
    with hit_on_ray [OF d i1] r(8) [OF ing] ind
    show "cell_at (grid st') (b_x b + fst d * i) (b_y b + snd d * i) = IndestructibleBlock"
      by simp
  }
  {
    assume des: "is_destructible (cell_at (grid st) (b_x b + fst d * i) (b_y b + snd d * i))"
    from ray_hit_first [OF i ing clear des] hit_on_ray [OF d i1]
    have hit: "(b_x b + fst d * i, b_y b + snd d * i) \<in> set (hits_of (grid st) (b_x b) (b_y b) directions)"
      by simp
    with r(8) [OF ing] show "cell_at (grid st') (b_x b + fst d * i) (b_y b + snd d * i) = Nullptr"
      by simp
    assume "b_x b + fst d * i = d_x (exitDoor st) \<and> b_y b + snd d * i = d_y (exitDoor st)"
    with hit r(9) show "visible (exitDoor st')" by simp
  }
qed

subsection \<open>Detonation along the rays\<close>

lemma wf_blank: "wf_grid blank_grid"
  by (simp add: wf_grid_def blank_grid_def list_all_length)

lemma cell_at_blank: "in_grid x y \<Longrightarrow> cell_at blank_grid x y = Nullptr"
proof -
  assume "in_grid x y"
  then have "nat y < 30" "nat x < 60" by (auto simp: in_grid_def HEIGHT_def WIDTH_def)
  then show ?thesis by (simp add: cell_at_def blank_grid_def HEIGHT_def WIDTH_def)
qed

lemma wf_ring: "wf_grid ring_grid"
  by (simp add: wf_grid_def ring_grid_def list_all_length del: upt_Suc)

lemma cell_at_ring:
  "in_grid x y \<Longrightarrow> cell_at ring_grid x y =
     (if x = 0 \<or> x = WIDTH - 1 \<or> y = 0 \<or> y = HEIGHT - 1 then IndestructibleBlock else Nullptr)"
proof -
  assume "in_grid x y"
  then have "nat y < nat HEIGHT" "nat x < nat WIDTH" "0 \<le> x" "0 \<le> y"
    by (auto simp: in_grid_def HEIGHT_def WIDTH_def)
  then show ?thesis by (simp add: cell_at_def ring_grid_def del: upt_Suc)
qed

lemma wf_demo: "wf_grid demo_grid"
  by (simp add: demo_grid_def wf_grid_write wf_ring)

lemma cell_at_demo:
  "in_grid x y \<Longrightarrow> cell_at demo_grid x y =
     (if x = 5 \<and> y = 8 then DestructibleBlock False
      else if x = 5 \<and> y = 7 then DestructibleBlock True
      else if x = 7 \<and> y = 5 then DestructibleBlock False
      else if x = 6 \<and> y = 5 then IndestructibleBlock
      else if x = 0 \<or> x = 59 \<or> y = 0 \<or> y = 29 then IndestructibleBlock else Nullptr)"
  by (simp add: demo_grid_def cell_at_write wf_grid_write wf_ring cell_at_ring in_grid_def
      WIDTH_def HEIGHT_def)

lemma demo_explodes:
  "\<exists>st'. explodeBomb \<lparr>b_x = 5, b_y = 5, plantTime = 0\<rparr> demo_game = Inr st'"
proof -
  have "explodeBomb \<lparr>b_x = 5, b_y = 5, plantTime = 0\<rparr> demo_game \<noteq> Inl h" for h
    by (simp add: explodeBomb_Inl demo_game_def wf_demo blasted_of_def directions_def
        cell_at_demo in_grid_def WIDTH_def HEIGHT_def)
  then show ?thesis
    by (cases "explodeBomb \<lparr>b_x = 5, b_y = 5, plantTime = 0\<rparr> demo_game") auto
qed

text \<open>
  C2.  A detonation that returns (the player is not hit), seen along one of the four
  cardinal directions \<open>(dx, dy)\<close> from the bomb.  For a step \<open>i\<close> of 1, 2, 3 that the
  scan reaches (the cells before it are inside the grid and not blocks): an
  indestructible block there stays, a destructible block there becomes an empty slot,
  and the exit door becomes visible when that cell is the door's.  Behind a block on the
  ray, and behind the third cell, every cell of the ray keeps its grid slot and its
  enemies.
\<close>

theorem explodeBomb_rays:
  assumes "explodeBomb b st = Inr st'" and "wf_grid (grid st)" and "(dx, dy) \<in> set cardinal"
  shows
   "(\<forall>i \<in> {1, 2, 3}.
       in_grid (b_x b + dx * i) (b_y b + dy * i) \<and>
       (\<forall>j \<in> {1..<i}. in_grid (b_x b + dx * j) (b_y b + dy * j) \<and>
           \<not> is_block (cell_at (grid st) (b_x b + dx * j) (b_y b + dy * j))) \<longrightarrow>
       (cell_at (grid st) (b_x b + dx * i) (b_y b + dy * i) = IndestructibleBlock \<longrightarrow>
          cell_at (grid st') (b_x b + dx * i) (b_y b + dy * i) = IndestructibleBlock) \<and>
       (is_destructible (cell_at (grid st) (b_x b + dx * i) (b_y b + dy * i)) \<longrightarrow>
          cell_at (grid st') (b_x b + dx * i) (b_y b + dy * i) = Nullptr \<and>
          (b_x b + dx * i = d_x (exitDoor st) \<and> b_y b + dy * i = d_y (exitDoor st)
             \<longrightarrow> visible (exitDoor st')))) \<and>
    (\<forall>i j. ((1 \<le> i \<and> i < j \<and> in_grid (b_x b + dx * i) (b_y b + dy * i) \<and>
              is_block (cell_at (grid st) (b_x b + dx * i) (b_y b + dy * i))) \<or> 3 < j) \<and>
            in_grid (b_x b + dx * j) (b_y b + dy * j) \<longrightarrow>
       cell_at (grid st') (b_x b + dx * j) (b_y b + dy * j)
         = cell_at (grid st) (b_x b + dx * j) (b_y b + dy * j) \<and>
       enemies_at (enemies st') (b_x b + dx * j) (b_y b + dy * j)
         = enemies_at (enemies st) (b_x b + dx * j) (b_y b + dy * j))"
proof (intro conjI ballI allI impI)
  fix i :: int
  assume i: "i \<in> {1, 2, 3}"
    and h: "in_grid (b_x b + dx * i) (b_y b + dy * i) \<and>
       (\<forall>j \<in> {1..<i}. in_grid (b_x b + dx * j) (b_y b + dy * j) \<and>
           \<not> is_block (cell_at (grid st) (b_x b + dx * j) (b_y b + dy * j)))"
  note fb = first_block [OF assms(1,2,3) i, simplified, OF conjunct1 [OF h] conjunct2 [OF h]]
  {
    assume "cell_at (grid st) (b_x b + dx * i) (b_y b + dy * i) = IndestructibleBlock"
    with fb show "cell_at (grid st') (b_x b + dx * i) (b_y b + dy * i) = IndestructibleBlock"
      by simp
  }
  {
    assume des: "is_destructible (cell_at (grid st) (b_x b + dx * i) (b_y b + dy * i))"
    with fb show "cell_at (grid st') (b_x b + dx * i) (b_y b + dy * i) = Nullptr" by simp
    assume "b_x b + dx * i = d_x (exitDoor st) \<and> b_y b + dy * i = d_y (exitDoor st)"
    with fb des show "visible (exitDoor st')" by simp
  }
next
  fix i j :: int
  assume h: "((1 \<le> i \<and> i < j \<and> in_grid (b_x b + dx * i) (b_y b + dy * i) \<and>
              is_block (cell_at (grid st) (b_x b + dx * i) (b_y b + dy * i))) \<or> 3 < j) \<and>
            in_grid (b_x b + dx * j) (b_y b + dy * j)"
  note bu = beyond_unchanged [OF assms(1,2,3), simplified, OF conjunct1 [OF h] conjunct2 [OF h]]
  from bu show "cell_at (grid st') (b_x b + dx * j) (b_y b + dy * j)
         = cell_at (grid st) (b_x b + dx * j) (b_y b + dy * j)" by simp
  from bu show "enemies_at (enemies st') (b_x b + dx * j) (b_y b + dy * j)
         = enemies_at (enemies st) (b_x b + dx * j) (b_y b + dy * j)" by simp
qed

text \<open>
  The demo world: the green block at \<open>(5, 7)\<close> goes and the door shows, the block at
  \<open>(5, 8)\<close> behind it stays; the indestructible block at \<open>(6, 5)\<close> stays, and so do the
  block at \<open>(7, 5)\<close> and the enemy at \<open>(8, 5)\<close> behind it.
\<close>

theorem explodeBomb_rays_witness:
  "\<exists>st'. explodeBomb \<lparr>b_x = 5, b_y = 5, plantTime = 0\<rparr> demo_game = Inr st' \<and>
      wf_grid (grid demo_game) \<and>
      cell_at (grid st') 5 7 = Nullptr \<and> visible (exitDoor st') \<and>
      cell_at (grid st') 5 8 = DestructibleBlock False \<and>
      cell_at (grid st') 6 5 = IndestructibleBlock \<and>
      cell_at (grid st') 7 5 = DestructibleBlock False \<and>
      enemies_at (enemies st') 8 5 = 1"
proof -
  from demo_explodes obtain st' where
    ex: "explodeBomb \<lparr>b_x = 5, b_y = 5, plantTime = 0\<rparr> demo_game = Inr st'" by blast
  have wf: "wf_grid (grid demo_game)" by (simp add: demo_game_def wf_demo)
  have g: "grid demo_game = demo_grid" by (simp add: demo_game_def)
  have down: "(0, 1) \<in> set cardinal" and right: "(1, 0) \<in> set cardinal"
    by (simp_all add: cardinal_def)
  note D = explodeBomb_rays [OF ex wf down]
  note R = explodeBomb_rays [OF ex wf right]
  have ing: "in_grid 5 6" "in_grid 5 7" "in_grid 5 8" "in_grid 6 5" "in_grid 7 5" "in_grid 8 5"
    by (simp_all add: in_grid_def WIDTH_def HEIGHT_def)
  have one: "{1..<2::int} = {1}" by auto
  from bspec [OF conjunct1 [OF D], of 2] ing
  have a: "cell_at (grid st') 5 7 = Nullptr \<and> visible (exitDoor st')"
    by (simp add: g cell_at_demo demo_game_def one)
  from spec [OF spec [OF conjunct2 [OF D], of 2], of 3] ing
  have b: "cell_at (grid st') 5 8 = DestructibleBlock False"
    by (simp add: g cell_at_demo)
  from bspec [OF conjunct1 [OF R], of 1] ing
  have c: "cell_at (grid st') 6 5 = IndestructibleBlock"
    by (simp add: g cell_at_demo)
  from spec [OF spec [OF conjunct2 [OF R], of 1], of 2] ing
  have d: "cell_at (grid st') 7 5 = DestructibleBlock False"
    by (simp add: g cell_at_demo)
  from spec [OF spec [OF conjunct2 [OF R], of 1], of 3] ing
  have e: "enemies_at (enemies st') 8 5 = 1"
    by (simp add: g cell_at_demo) (simp add: demo_game_def enemies_at_def)
  from ex wf a b c d e show ?thesis by blast
qed

subsection \<open>Detonation on the bomb's own cell\<close>

lemma centre_blast:
  "in_grid bx by \<Longrightarrow> \<not> is_block (cell_at g bx by) \<Longrightarrow>
   blast_cells g bx by 0 0 [1, 2, 3] = [(bx, by), (bx, by), (bx, by)]"
  by simp

lemma centre_count:
  assumes "in_grid bx by" "\<not> is_block (cell_at g bx by)"
  shows "count_list (blasted_of g bx by directions) (bx, by) = 3"
proof -
  have other: "count_list (blast_cells g bx by dx dy [1, 2, 3]) (bx, by) = 0"
    if "\<not> (dx = 0 \<and> dy = 0)" for dx dy
  proof -
    have "(bx, by) \<notin> set (blast_cells g bx by dx dy [1, 2, 3])"
    proof
      assume "(bx, by) \<in> set (blast_cells g bx by dx dy [1, 2, 3])"
      from blast_cells_on_ray [OF this] that show False by auto
    qed
    then show ?thesis by (simp add: count_list_0_iff)
  qed
  show ?thesis
    using other [of "- 1" 0] other [of 0 "- 1"] other [of 0 1] other [of 1 0]
      centre_blast [OF assms]
    by (simp add: blasted_of_def directions_def del: blast_cells.simps)
qed

text \<open>
  C10, as the code has it.  The pair \<open>dx = 0\<close>, \<open>dy = 0\<close> passes the test
  \<open>dx == 0 || dy == 0\<close>, so the bomb's own cell is scanned, three times.  For a bomb
  on a cell that is no block (a bomb is planted where the player stands): a player on
  that cell gets the blown-up game over, and a detonation that returns has removed up
  to three enemies from that cell, one per scan: all of them when they are at most
  three (the subtraction is that of the natural numbers), and three of them otherwise.
\<close>

theorem explodeBomb_own_cell:
  assumes "wf_grid (grid st)" and "in_grid (b_x b) (b_y b)"
    and "\<not> is_block (cell_at (grid st) (b_x b) (b_y b))"
  shows "(p_x (player st) = b_x b \<and> p_y (player st) = b_y b \<longrightarrow>
            explodeBomb b st = Inl (GameOver ''Player was blown up by a bomb!'')) \<and>
         (\<forall>st'. explodeBomb b st = Inr st' \<longrightarrow>
            enemies_at (enemies st') (b_x b) (b_y b) = enemies_at (enemies st) (b_x b) (b_y b) - 3)"
proof (intro conjI impI allI)
  note c = centre_count [OF assms(2,3)]
  {
    assume "p_x (player st) = b_x b \<and> p_y (player st) = b_y b"
    moreover have "(b_x b, b_y b) \<in> set (blasted_of (grid st) (b_x b) (b_y b) directions)"
      using c by (metis count_list_0_iff zero_neq_numeral)
    ultimately show "explodeBomb b st = Inl (GameOver ''Player was blown up by a bomb!'')"
      by (simp add: explodeBomb_Inl [OF assms(1)])
  }
  {
    fix st' assume "explodeBomb b st = Inr st'"
    from explodeBomb_Inr(10) [OF this assms(1), of "b_x b" "b_y b"] c
    show "enemies_at (enemies st') (b_x b) (b_y b) = enemies_at (enemies st) (b_x b) (b_y b) - 3"
      by simp
  }
qed

text \<open>
  The demo world with the player on the bomb cell, and with the player away and one
  enemy on the bomb cell.
\<close>

theorem explodeBomb_own_cell_witness:
  "explodeBomb \<lparr>b_x = 5, b_y = 5, plantTime = 0\<rparr>
      (demo_game\<lparr>player := \<lparr>p_x = 5, p_y = 5, hasBombs = 2\<rparr>\<rparr>)
     = Inl (GameOver ''Player was blown up by a bomb!'') \<and>
   (\<exists>st'. explodeBomb \<lparr>b_x = 5, b_y = 5, plantTime = 0\<rparr> demo_game = Inr st' \<and>
      enemies_at (enemies demo_game) 5 5 = 1 \<and> enemies_at (enemies st') 5 5 = 0)"
proof -
  have wf: "wf_grid (grid demo_game)"
    "wf_grid (grid (demo_game\<lparr>player := \<lparr>p_x = 5, p_y = 5, hasBombs = 2\<rparr>\<rparr>))"
    by (simp_all add: demo_game_def wf_demo)
  have ing: "in_grid 5 5" by (simp add: in_grid_def WIDTH_def HEIGHT_def)
  have nb: "\<not> is_block (cell_at demo_grid 5 5)" by (simp add: cell_at_demo ing)
  from explodeBomb_own_cell [of "demo_game\<lparr>player := \<lparr>p_x = 5, p_y = 5, hasBombs = 2\<rparr>\<rparr>"
      "\<lparr>b_x = 5, b_y = 5, plantTime = 0\<rparr>"] wf ing nb
  have a: "explodeBomb \<lparr>b_x = 5, b_y = 5, plantTime = 0\<rparr>
      (demo_game\<lparr>player := \<lparr>p_x = 5, p_y = 5, hasBombs = 2\<rparr>\<rparr>)
     = Inl (GameOver ''Player was blown up by a bomb!'')"
    by (simp add: demo_game_def)
  from demo_explodes obtain st' where
    ex: "explodeBomb \<lparr>b_x = 5, b_y = 5, plantTime = 0\<rparr> demo_game = Inr st'" by blast
  from explodeBomb_own_cell [of demo_game "\<lparr>b_x = 5, b_y = 5, plantTime = 0\<rparr>"] wf ing nb ex
  have "enemies_at (enemies st') 5 5 = enemies_at (enemies demo_game) 5 5 - 3"
    by (simp add: demo_game_def)
  moreover have "enemies_at (enemies demo_game) 5 5 = 1"
    by (simp add: demo_game_def enemies_at_def)
  ultimately show ?thesis using a ex by simp
qed

text \<open>
  C10 as it is worded fails when more than three enemies stand on the bomb's cell (the
  enemy loop of \<open>initializeGame\<close> tests the grid only, so enemies can share a cell): the
  cell is scanned three times and each scan removes one enemy.  In the demo world with
  four enemies on the bomb's cell \<open>(5, 5)\<close> the detonation returns and one of them is
  still there.
\<close>

theorem explodeBomb_own_cell_counterexample:
  "\<exists>st'. explodeBomb \<lparr>b_x = 5, b_y = 5, plantTime = 0\<rparr>
            (demo_game\<lparr>enemies := replicate 4 \<lparr>e_x = 5, e_y = 5, moveType = 2, moveStep = 0\<rparr>\<rparr>)
          = Inr st' \<and>
        enemies_at (enemies st') 5 5 = 1"
proof -
  let ?st = "demo_game\<lparr>enemies := replicate 4 \<lparr>e_x = 5, e_y = 5, moveType = 2, moveStep = 0\<rparr>\<rparr>"
  let ?b = "\<lparr>b_x = 5, b_y = 5, plantTime = 0\<rparr>"
  have wf: "wf_grid (grid ?st)" by (simp add: demo_game_def wf_demo)
  have ing: "in_grid (b_x ?b) (b_y ?b)" by (simp add: in_grid_def WIDTH_def HEIGHT_def)
  then have nb: "\<not> is_block (cell_at (grid ?st) (b_x ?b) (b_y ?b))"
    by (simp add: demo_game_def cell_at_demo)
  have "explodeBomb ?b ?st \<noteq> Inl h" for h
    by (simp add: explodeBomb_Inl demo_game_def wf_demo blasted_of_def directions_def
        cell_at_demo in_grid_def WIDTH_def HEIGHT_def)
  then obtain st' where e: "explodeBomb ?b ?st = Inr st'"
    by (cases "explodeBomb ?b ?st") auto
  from explodeBomb_Inr(10) [OF e wf, of 5 5] centre_count [OF ing nb]
  have "enemies_at (enemies st') 5 5 = 1"
    by (simp add: enemies_at_def)
  with e show ?thesis by blast
qed

subsection \<open>Reading back what \<open>saveGame\<close> wrote\<close>

lemma digit_char: "(d::nat) < 10 \<Longrightarrow> isdigit (''0123456789'' ! d) \<and> of_char (''0123456789'' ! d) - 48 = d"
proof -
  assume "d < 10"
  then have "d \<in> {0, 1, 2, 3, 4, 5, 6, 7, 8, 9}" by auto
  then consider "d = 0" | "d = 1" | "d = 2" | "d = 3" | "d = 4" | "d = 5" | "d = 6" | "d = 7"
    | "d = 8" | "d = 9" by blast
  then show ?thesis by cases (simp_all add: isdigit_def)
qed

lemma digits_nonempty: "digits n \<noteq> []"
  by (subst digits.simps) simp

lemma digits_isdigit: "c \<in> set (digits n) \<Longrightarrow> isdigit c"
proof (induction n arbitrary: c rule: digits.induct)
  case (1 n)
  show ?case
  proof (cases "n < 10")
    case True
    with "1.prems" show ?thesis by (subst (asm) digits.simps) (simp add: digit_char)
  next
    case False
    with "1.prems" have "c \<in> set (digits (n div 10)) \<or> c = ''0123456789'' ! (n mod 10)"
      by (subst (asm) digits.simps) auto
    with "1.IH" [OF False] show ?thesis using digit_char [of "n mod 10"] by auto
  qed
qed

lemma digits_value_snoc: "digits_value (ds @ [c]) = 10 * digits_value ds + (of_char c - 48)"
  by (simp add: digits_value_def)

lemma digits_value_digits: "digits_value (digits n) = n"
proof (induction n rule: digits.induct)
  case (1 n)
  show ?case
  proof (cases "n < 10")
    case True
    then show ?thesis by (subst digits.simps) (simp add: digits_value_def digit_char)
  next
    case False
    then have "digits n = digits (n div 10) @ [''0123456789'' ! (n mod 10)]"
      by (subst digits.simps) simp
    with "1.IH" [OF False] show ?thesis
      using digit_char [of "n mod 10"] by (simp add: digits_value_snoc)
  qed
qed

lemma takeWhile_digits:
  "\<not> isdigit c \<Longrightarrow> takeWhile isdigit (digits n @ c # rest) = digits n"
  by (simp add: takeWhile_append digits_isdigit)

lemma dropWhile_digits:
  "\<not> isdigit c \<Longrightarrow> dropWhile isdigit (digits n @ c # rest) = c # rest"
  by (simp add: dropWhile_append digits_isdigit)

lemma isdigit_not_space: "isdigit c \<Longrightarrow> \<not> isspace c"
  by (auto simp: isdigit_def isspace_def)

lemma hd_digits: "isdigit (hd (digits n))"
  using digits_nonempty [of n] digits_isdigit [of "hd (digits n)" n] by simp

lemma extract_show_int:
  assumes "lo \<le> v" "v \<le> hi" "\<not> isdigit c"
  shows "extract_num lo hi (strm (show_int v @ c # rest)) = (v, strm (c # rest))"
proof (cases "v < 0")
  case True
  then have s: "show_int v = CHR ''-'' # digits (nat (- v))" by (simp add: show_int_def)
  have "int (digits_value (digits (nat (- v)))) = - v" using True by (simp add: digits_value_digits)
  then show ?thesis using assms True
    by (simp add: extract_num_def strm_def s Let_def takeWhile_digits dropWhile_digits digits_nonempty)
next
  case False
  then have s: "show_int v = digits (nat v)" by (simp add: show_int_def)
  obtain d ds where dd: "digits (nat v) = d # ds" using digits_nonempty [of "nat v"] by (cases "digits (nat v)") auto
  have hd: "isdigit d" using hd_digits [of "nat v"] dd by simp
  then have ns: "d \<noteq> CHR ''-''" "d \<noteq> CHR ''+''" by (auto simp: isdigit_def)
  have tw: "takeWhile isdigit (d # ds @ c # rest) = d # ds" "dropWhile isdigit (d # ds @ c # rest) = c # rest"
    using takeWhile_digits [OF assms(3), of "nat v" rest] dropWhile_digits [OF assms(3), of "nat v" rest] dd
    by simp_all
  have "int (digits_value (d # ds)) = v" using False digits_value_digits [of "nat v"] dd by simp
  then show ?thesis using assms False ns tw
    by (simp add: extract_num_def strm_def s dd Let_def)
qed

lemma show_int_Cons: "\<exists>h t. show_int v = h # t \<and> \<not> isspace h"
proof (cases "v < 0")
  case True
  then show ?thesis by (simp add: show_int_def isspace_def)
next
  case False
  obtain d ds where dd: "digits (nat v) = d # ds"
    using digits_nonempty [of "nat v"] by (cases "digits (nat v)") auto
  with hd_digits [of "nat v"] have "\<not> isspace d" by (simp add: isdigit_not_space)
  with False dd show ?thesis by (simp add: show_int_def)
qed

lemma sentry_skipws_token:
  assumes "\<forall>ch \<in> set sp. isspace ch" "\<not> isspace h"
  shows "sentry_skipws (strm (sp @ h # t)) = (strm (h # t), True)"
  using assms by (simp add: sentry_skipws_def strm_def good_def dropWhile_append)

lemma read_int_show:
  assumes "\<forall>ch \<in> set sp. isspace ch" "int_ok v" "\<not> isdigit c"
  shows "read_int (strm (sp @ show_int v @ c # rest)) = (Some v, strm (c # rest))"
proof -
  from show_int_Cons [of v] obtain h t where ht: "show_int v = h # t" "\<not> isspace h" by blast
  have "sentry_skipws (strm (sp @ show_int v @ c # rest)) = (strm (show_int v @ c # rest), True)"
    using sentry_skipws_token [OF assms(1) ht(2), of "t @ c # rest"] ht(1) by simp
  moreover have "extract_num INT_MIN INT_MAX (strm (show_int v @ c # rest)) = (v, strm (c # rest))"
    using assms(2,3) by (intro extract_show_int) (simp_all add: int_ok_def)
  ultimately show ?thesis by (simp add: read_int_def)
qed

lemma show_bool_as_int: "show_bool b = show_int (if b then 1 else 0)"
  by (simp add: show_bool_def show_int_def digits.simps)

lemma read_bool_show:
  assumes "\<forall>ch \<in> set sp. isspace ch" "\<not> isdigit c"
  shows "read_bool (strm (sp @ show_bool b @ c # rest)) = (Some b, strm (c # rest))"
proof -
  let ?v = "if b then 1 else 0 :: int"
  from show_int_Cons [of ?v] obtain h t where ht: "show_int ?v = h # t" "\<not> isspace h" by blast
  have "sentry_skipws (strm (sp @ show_int ?v @ c # rest)) = (strm (show_int ?v @ c # rest), True)"
    using sentry_skipws_token [OF assms(1) ht(2), of "t @ c # rest"] ht(1) by simp
  moreover have "extract_num LONG_MIN LONG_MAX (strm (show_int ?v @ c # rest)) = (?v, strm (c # rest))"
    using assms(2) by (intro extract_show_int) (simp_all add: LONG_MIN_def LONG_MAX_def)
  ultimately show ?thesis by (simp add: read_bool_def show_bool_as_int)
qed

lemma ignore_Cons: "ignore (strm (c # rest)) = strm rest"
  by (simp add: ignore_def sentry_noskip_def strm_def good_def)

lemma getline_line:
  "newline \<notin> set line \<Longrightarrow> getline (strm (line @ newline # rest)) = (line, strm rest)"
  by (simp add: getline_def sentry_noskip_def strm_def good_def takeWhile_append dropWhile_append
      takeWhile_eq_all_conv [THEN iffD2] dropWhile_eq_Nil_conv [THEN iffD2] Let_def)

lemma not_digit_sep: "\<not> isdigit blank" "\<not> isdigit newline"
  by (simp_all add: isdigit_def blank_def newline_def)

lemma space_sep: "isspace blank" "isspace newline"
  by (simp_all add: isspace_def blank_def newline_def)

lemma read_int_sep:
  "isspace s \<Longrightarrow> int_ok v \<Longrightarrow> \<not> isdigit c \<Longrightarrow>
   read_int (strm (s # show_int v @ c # rest)) = (Some v, strm (c # rest))"
  using read_int_show [of "[s]" v c rest] by simp

lemma read_int_start:
  "int_ok v \<Longrightarrow> \<not> isdigit c \<Longrightarrow>
   read_int (strm (show_int v @ c # rest)) = (Some v, strm (c # rest))"
  using read_int_show [of "[]" v c rest] by simp

lemma read_bool_sep:
  "isspace s \<Longrightarrow> \<not> isdigit c \<Longrightarrow>
   read_bool (strm (s # show_bool b @ c # rest)) = (Some b, strm (c # rest))"
  using read_bool_show [of "[s]" c b rest] by simp

lemma loadEnemies_saved:
  "list_all enemy_ok es \<Longrightarrow>
   loadEnemies (length es) (strm (newline # concat (map save_enemy es) @ tail))
     = Inr (map (\<lambda>e. e\<lparr>moveStep := 0\<rparr>) es, strm (newline # tail))"
proof (induction es)
  case Nil
  then show ?case by simp
next
  case (Cons e es)
  from Cons.prems have rest: "list_all enemy_ok es" and "enemy_ok e" by simp_all
  then have ok: "int_ok (e_x e)" "int_ok (e_y e)" "int_ok (moveType e)"
    by (simp_all add: enemy_ok_def)
  show ?case
    by (simp add: save_enemy_def [of e] read_int_sep ok space_sep not_digit_sep Cons.IH [OF rest])
qed

lemma loadBombs_saved:
  "list_all bomb_ok bs \<Longrightarrow>
   loadBombs now (length bs) (strm (newline # concat (map save_bomb bs) @ tail))
     = Inr (map (\<lambda>b. b\<lparr>plantTime := now\<rparr>) bs, strm (newline # tail))"
proof (induction bs)
  case Nil
  then show ?case by simp
next
  case (Cons b bs)
  from Cons.prems have rest: "list_all bomb_ok bs" and "bomb_ok b" by simp_all
  then have ok: "int_ok (b_x b)" "int_ok (b_y b)"
    by (simp_all add: bomb_ok_def)
  show ?case
    by (simp add: save_bomb_def [of b] read_int_sep ok space_sep not_digit_sep Cons.IH [OF rest])
qed

lemma slot_char_not_newline: "slot_char c \<noteq> newline"
  by (cases c) (simp_all add: slot_char_def newline_def blank_def INDESTRUCTIBLE_BLOCK_def
      DESTRUCTIBLE_BLOCK_def TRAP_def EXIT_DOOR_def)

lemma cell_of_slot_char: "cell_of_symbol (slot_char c) = ungreen c"
  by (cases c) (simp_all add: slot_char_def cell_of_symbol_def blank_def INDESTRUCTIBLE_BLOCK_def
      DESTRUCTIBLE_BLOCK_def TRAP_def EXIT_DOOR_def)

lemma loadRow_full:
  "\<forall>j \<in> set js. j < length line \<Longrightarrow>
   loadRow line js = Inr (map (\<lambda>j. cell_of_symbol (line ! j)) js)"
  by (induction js) (simp_all add: string_at_def)

lemma loadRow_saved:
  "loadRow (map (\<lambda>j. slot_char (g ! i ! j)) [0..<nat WIDTH]) [0..<nat WIDTH]
     = Inr (map (\<lambda>j. ungreen (g ! i ! j)) [0..<nat WIDTH])"
  by (subst loadRow_full) (simp_all add: cell_of_slot_char)

lemma getline_saved:
  "getline (strm (save_row g i @ rest)) = (map (\<lambda>j. slot_char (g ! i ! j)) [0..<nat WIDTH], strm rest)"
proof -
  have "newline \<notin> set (map (\<lambda>j. slot_char (g ! i ! j)) [0..<nat WIDTH])"
    using slot_char_not_newline by (metis (no_types, lifting) ex_map_conv)
  from getline_line [OF this, of rest] show ?thesis by (simp add: save_row_def)
qed

lemma loadRows_saved:
  "loadRows (length is) (strm (concat (map (save_row g) is) @ tail))
     = Inr (map (\<lambda>i. map (\<lambda>j. ungreen (g ! i ! j)) [0..<nat WIDTH]) is, strm tail)"
proof (induction "is")
  case Nil
  then show ?case by simp
next
  case (Cons i "is")
  show ?case
    using Cons.IH by (simp add: getline_saved loadRow_saved del: upt_Suc)
qed

lemma loadGrid_saved:
  "loadGrid dx dy vis (strm (newline # concat (map (save_row g) [0..<nat HEIGHT])))
     = (if vis then Inr (reloaded_rows g)
        else if in_grid dx dy then Inr (grid_write (reloaded_rows g) dy dx (DestructibleBlock True))
        else Inl OutOfBounds)"
  using loadRows_saved [of "[0..<nat HEIGHT]" g "[]"]
  by (auto simp: loadGrid_def ignore_Cons reloaded_rows_def in_grid_def)

lemma loadOpened_saved:
  assumes "game_ok st" "door_aliases (grid st0) = 0"
  shows "loadOpened (saveGame st) now st0 =
     (if visible (exitDoor st) \<or> in_grid (d_x (exitDoor st)) (d_y (exitDoor st))
      then Inr (reloaded st now) else Inl OutOfBounds)"
proof -
  from assms(1) have ok:
    "int_ok (p_x (player st))" "int_ok (p_y (player st))" "int_ok (bombsPlanted st)"
    "int_ok (int (length (enemies st)))" "list_all enemy_ok (enemies st)"
    "int_ok (int (length (bombs st)))" "list_all bomb_ok (bombs st)"
    "int_ok (d_x (exitDoor st))" "int_ok (d_y (exitDoor st))"
    by (simp_all add: game_ok_def)
  show ?thesis
    by (simp add: loadOpened_def saveGame_def assms(2) strm_def [symmetric] read_member_def
        read_int_start read_int_sep read_bool_sep ok space_sep not_digit_sep
        loadEnemies_saved loadBombs_saved loadGrid_saved reloaded_def del: upt_Suc)
qed

subsection \<open>Truncated save files and the exit door invariant\<close>

lemma saveGame_header:
  "saveGame st = save_header st @ newline # concat (map (save_row (grid st)) [0..<nat HEIGHT])"
  by (simp add: saveGame_def save_header_def del: upt_Suc)

lemma loadOpened_text:
  assumes "game_ok st" "door_aliases (grid st0) = 0"
  shows "loadOpened (save_header st @ newline # gridtext) now st0 =
     (case loadGrid (d_x (exitDoor st)) (d_y (exitDoor st)) (visible (exitDoor st))
             (strm (newline # gridtext)) of
        Inl h \<Rightarrow> Inl h
      | Inr g \<Rightarrow> Inr ((reloaded st now)\<lparr>grid := g\<rparr>))"
proof -
  from assms(1) have ok:
    "int_ok (p_x (player st))" "int_ok (p_y (player st))" "int_ok (bombsPlanted st)"
    "int_ok (int (length (enemies st)))" "list_all enemy_ok (enemies st)"
    "int_ok (int (length (bombs st)))" "list_all bomb_ok (bombs st)"
    "int_ok (d_x (exitDoor st))" "int_ok (d_y (exitDoor st))"
    by (simp_all add: game_ok_def)
  show ?thesis
    by (simp add: loadOpened_def save_header_def assms(2) strm_def [symmetric] read_member_def
        read_int_start read_int_sep read_bool_sep ok space_sep not_digit_sep
        loadEnemies_saved loadBombs_saved reloaded_def split: sum.splits)
qed

lemma loadRows_prefix:
  "loadRows (length is + n) (strm (concat (map (save_row g) is) @ tail)) =
     (case loadRows n (strm tail) of
        Inl h \<Rightarrow> Inl h
      | Inr (rows, s') \<Rightarrow>
          Inr (map (\<lambda>i. map (\<lambda>j. ungreen (g ! i ! j)) [0..<nat WIDTH]) is @ rows, s'))"
proof (induction "is")
  case Nil
  then show ?case by (simp split: sum.splits)
next
  case (Cons i "is")
  show ?case
    using Cons.IH by (simp add: getline_saved loadRow_saved del: upt_Suc split: sum.splits)
qed

text \<open>The last grid line without its last character and its newline.\<close>

lemma getline_short:
  "newline \<notin> set line \<Longrightarrow> line \<noteq> [] \<Longrightarrow>
   getline (strm line) = (line, \<lparr>buf = [], eofbit = True, failbit = False\<rparr>)"
proof -
  assume a: "newline \<notin> set line" "line \<noteq> []"
  then have "\<forall>c \<in> set line. c \<noteq> newline" by auto
  then have tw: "takeWhile (\<lambda>c. c \<noteq> newline) line = line"
    and dw: "dropWhile (\<lambda>c. c \<noteq> newline) line = []"
    by simp_all
  show ?thesis
    using a(2) by (simp add: getline_def sentry_noskip_def strm_def good_def Let_def tw dw)
qed

lemma loadRow_short:
  "loadRow (map f [0..<n]) [0..<Suc n] = Inr (map (\<lambda>j. cell_of_symbol (f j)) [0..<n] @ [Nullptr])"
proof -
  have a: "loadRow (map f [0..<n]) (js @ [n]) = Inr (map (\<lambda>j. cell_of_symbol (f j)) js @ [Nullptr])"
    if "\<forall>j \<in> set js. j < n" for js
    using that by (induction js) (simp_all add: string_at_def cell_of_symbol_def
        INDESTRUCTIBLE_BLOCK_def DESTRUCTIBLE_BLOCK_def TRAP_def EXIT_DOOR_def)
  from a [of "[0..<n]"] show ?thesis by simp
qed

lemma width_height: "nat WIDTH = Suc last_col" "nat HEIGHT = Suc last_row" "0 < last_col"
  by (simp_all add: WIDTH_def HEIGHT_def last_col_def last_row_def)

lemma butlast2_saved:
  "butlast (butlast (saveGame st)) =
     save_header st @ newline #
       (concat (map (save_row (grid st)) [0..<last_row]) @
        map (\<lambda>j. slot_char (grid st ! (last_row) ! j)) [0..<last_col])"
proof -
  have rows: "concat (map (save_row (grid st)) [0..<nat HEIGHT]) =
      concat (map (save_row (grid st)) [0..<last_row]) @ save_row (grid st) (last_row)"
    by (subst width_height(2)) (simp del: upt_Suc add: upt_Suc_append)
  have row: "save_row (grid st) (last_row) =
      map (\<lambda>j. slot_char (grid st ! (last_row) ! j)) [0..<last_col]
      @ [slot_char (grid st ! (last_row) ! (last_col)), newline]"
    unfolding save_row_def by (subst width_height(1)) (simp del: upt_Suc add: upt_Suc_append)
  let ?T = "save_header st @ newline #
       (concat (map (save_row (grid st)) [0..<last_row]) @
        map (\<lambda>j. slot_char (grid st ! (last_row) ! j)) [0..<last_col])"
  have "saveGame st = (?T @ [slot_char (grid st ! (last_row) ! (last_col))]) @ [newline]"
    unfolding saveGame_header rows row by simp
  then show ?thesis by (simp only: butlast_snoc)
qed

lemma loadRows_last_short:
  "loadRows (Suc 0) (strm (map (\<lambda>j. slot_char (g ! i ! j)) [0..<last_col])) =
     Inr ([map (\<lambda>j. ungreen (g ! i ! j)) [0..<last_col] @ [Nullptr]],
          \<lparr>buf = [], eofbit = True, failbit = False\<rparr>)"
proof -
  let ?line = "map (\<lambda>j. slot_char (g ! i ! j)) [0..<last_col]"
  have nn: "newline \<notin> set ?line"
    using slot_char_not_newline by (metis (no_types, lifting) ex_map_conv)
  have ne: "?line \<noteq> []" using width_height(3) by simp
  have row: "loadRow ?line [0..<nat WIDTH] =
       Inr (map (\<lambda>j. ungreen (g ! i ! j)) [0..<last_col] @ [Nullptr])"
    using loadRow_short [of "\<lambda>j. slot_char (g ! i ! j)" "last_col"]
    by (simp add: cell_of_slot_char width_height(1) [symmetric] del: upt_Suc)
  show ?thesis
    by (simp add: getline_short [OF nn ne] row del: upt_Suc)
qed

lemma loadGrid_truncated:
  "loadGrid dx dy vis
     (strm (newline # (concat (map (save_row g) [0..<last_row]) @
        map (\<lambda>j. slot_char (g ! (last_row) ! j)) [0..<last_col])))
     = (if vis then Inr (truncated_rows g)
        else if in_grid dx dy then Inr (grid_write (truncated_rows g) dy dx (DestructibleBlock True))
        else Inl OutOfBounds)"
proof -
  have "loadRows (nat HEIGHT)
      (strm (concat (map (save_row g) [0..<last_row]) @
        map (\<lambda>j. slot_char (g ! (last_row) ! j)) [0..<last_col]))
      = Inr (truncated_rows g, \<lparr>buf = [], eofbit = True, failbit = False\<rparr>)"
    using loadRows_prefix [of "[0..<last_row]" "Suc 0" g
        "map (\<lambda>j. slot_char (g ! (last_row) ! j)) [0..<last_col]"]
    by (simp add: loadRows_last_short truncated_rows_def width_height(2) [symmetric] del: upt_Suc loadRows.simps)
  then show ?thesis
    by (auto simp: loadGrid_def ignore_Cons in_grid_def)
qed

lemma loadGame_truncated:
  assumes "game_ok st" "door_aliases (grid st0) = 0"
    "visible (exitDoor st) \<or> in_grid (d_x (exitDoor st)) (d_y (exitDoor st))"
  shows "loadGame (Some (butlast (butlast (saveGame st)))) now st0 =
     Inr (True, (reloaded st now)\<lparr>grid :=
        (if visible (exitDoor st) then truncated_rows (grid st)
         else grid_write (truncated_rows (grid st)) (d_y (exitDoor st)) (d_x (exitDoor st))
                (DestructibleBlock True))\<rparr>)"
  using assms(3)
  by (auto simp: loadGame_def butlast2_saved loadOpened_text [OF assms(1,2)] loadGrid_truncated)

lemma loadGame_saved:
  assumes "game_ok st" "door_aliases (grid st0) = 0"
    "visible (exitDoor st) \<or> in_grid (d_x (exitDoor st)) (d_y (exitDoor st))"
  shows "loadGame (Some (saveGame st)) now st0 = Inr (True, reloaded st now)"
  using assms(3) by (simp add: loadGame_def loadOpened_saved [OF assms(1,2)])

lemma cells_of_grid:
  assumes "wf_grid g"
  shows "set (concat g) = {c. \<exists>x y. in_grid x y \<and> c = cell_at g x y}"
proof (intro set_eqI iffI)
  fix c assume "c \<in> set (concat g)"
  then obtain row where row: "row \<in> set g" "c \<in> set row" by auto
  then obtain i where i: "i < length g" "row = g ! i" by (metis in_set_conv_nth)
  from row(2) obtain j where j: "j < length row" "c = row ! j" by (metis in_set_conv_nth)
  from assms i j have "i < nat HEIGHT" "j < nat WIDTH"
    by (simp_all add: wf_grid_def list_all_length)
  then have "in_grid (int j) (int i)" by (auto simp: in_grid_def)
  moreover have "c = cell_at g (int j) (int i)" using i j by (simp add: cell_at_def)
  ultimately show "c \<in> {c. \<exists>x y. in_grid x y \<and> c = cell_at g x y}" by blast
next
  fix c assume "c \<in> {c. \<exists>x y. in_grid x y \<and> c = cell_at g x y}"
  then obtain x y where xy: "in_grid x y" "c = cell_at g x y" by blast
  then have "nat y < length g" "nat x < length (g ! nat y)"
    using assms by (simp_all add: in_grid_def wf_grid_def list_all_length)
  then have "g ! nat y \<in> set g" "g ! nat y ! nat x \<in> set (g ! nat y)" by simp_all
  with xy show "c \<in> set (concat g)" by (auto simp: cell_at_def)
qed

lemma count_cells_0:
  "wf_grid g \<Longrightarrow> (count_cells P g = 0) = (\<forall>x y. in_grid x y \<longrightarrow> \<not> P (cell_at g x y))"
proof -
  assume wf: "wf_grid g"
  have "(count_cells P g = 0) = (\<forall>c \<in> set (concat g). \<not> P c)"
    by (simp add: count_cells_def filter_empty_conv)
  also have "\<dots> = (\<forall>x y. in_grid x y \<longrightarrow> \<not> P (cell_at g x y))"
    unfolding cells_of_grid [OF wf] by blast
  finally show ?thesis .
qed

lemma count_row_update:
  "j < length row \<Longrightarrow>
   length (filter P (row[j := c])) + (if P (row ! j) then 1 else 0)
     = length (filter P row) + (if P c then 1 else 0)"
proof (induction row arbitrary: j)
  case Nil
  then show ?case by simp
next
  case (Cons a row)
  then show ?case by (cases j) auto
qed

lemma count_grid_update:
  "i < length g \<Longrightarrow>
   length (filter P (concat (g[i := r]))) + length (filter P (g ! i))
     = length (filter P (concat g)) + length (filter P r)"
proof (induction g arbitrary: i)
  case Nil
  then show ?case by simp
next
  case (Cons a g)
  then show ?case by (cases i) auto
qed

lemma count_cells_write:
  assumes "wf_grid g" "in_grid x y"
  shows "count_cells P (grid_write g y x c) + (if P (cell_at g x y) then 1 else 0)
       = count_cells P g + (if P c then 1 else 0)"
proof -
  from assms have i: "nat y < length g" and j: "nat x < length (g ! nat y)"
    by (simp_all add: in_grid_def wf_grid_def list_all_length)
  from count_grid_update [OF i, of P "(g ! nat y)[nat x := c]"]
       count_row_update [OF j, of P c]
  show ?thesis by (simp add: count_cells_def grid_write_def cell_at_def)
qed

lemma grid_eqI:
  assumes "wf_grid g" "wf_grid g'"
    and "\<And>x y. in_grid x y \<Longrightarrow> cell_at g x y = cell_at g' x y"
  shows "g = g'"
proof (rule nth_equalityI)
  from assms(1,2) show "length g = length g'" by (simp add: wf_grid_def)
next
  fix i assume i: "i < length g"
  with assms(1) have ih: "i < nat HEIGHT" by (simp add: wf_grid_def)
  show "g ! i = g' ! i"
  proof (rule nth_equalityI)
    from assms(1,2) ih show "length (g ! i) = length (g' ! i)" by (simp add: wf_grid_row)
  next
    fix j assume "j < length (g ! i)"
    with assms(1) ih have "j < nat WIDTH" by (simp add: wf_grid_row)
    with ih have "in_grid (int j) (int i)" by (auto simp: in_grid_def)
    from assms(3) [OF this] show "g ! i ! j = g' ! i ! j" by (simp add: cell_at_def)
  qed
qed

lemma door_aliases_count: "door_aliases g = count_cells (\<lambda>c. c = ExitDoorCell) g"
  by (simp add: door_aliases_def count_cells_def)

lemma count_disjoint:
  "(\<And>c. \<not> (P c \<and> Q c)) \<Longrightarrow>
   length (filter (\<lambda>c. P c \<or> Q c) xs) = length (filter P xs) + length (filter Q xs)"
  by (induction xs) auto

lemma exit_cells_sum: "exit_cells g = door_aliases g + count_cells is_green g"
  unfolding exit_cells_def door_aliases_count count_cells_def
  by (rule count_disjoint) (simp add: is_green_def)

lemma door_inv_exit_cells:
  "door_inv st \<Longrightarrow> exit_cells (grid st) = (if visible (exitDoor st) then 0 else 1)"
  by (simp add: door_inv_def exit_cells_sum)

text \<open>One green cell, at the door: no other cell is green.\<close>

lemma one_green_iff:
  assumes wf: "wf_grid g" and ing: "in_grid dx dy"
  shows "(count_cells is_green g = 1 \<and> is_green (cell_at g dx dy))
       = (\<forall>x y. in_grid x y \<longrightarrow> is_green (cell_at g x y) = (x = dx \<and> y = dy))"
proof -
  let ?g' = "grid_write g dy dx Nullptr"
  have wf': "wf_grid ?g'" using wf by (rule wf_grid_write)
  have cnt: "count_cells is_green ?g' + (if is_green (cell_at g dx dy) then 1 else 0)
       = count_cells is_green g"
    using count_cells_write [OF wf ing, of is_green Nullptr] by (simp add: is_green_def)
  have zero: "(count_cells is_green ?g' = 0)
       = (\<forall>x y. in_grid x y \<longrightarrow> (x = dx \<and> y = dy) \<or> \<not> is_green (cell_at g x y))"
    unfolding count_cells_0 [OF wf']
    using cell_at_write [OF wf ing] by (auto simp: is_green_def)
  show ?thesis
  proof
    assume a: "count_cells is_green g = 1 \<and> is_green (cell_at g dx dy)"
    with cnt have "count_cells is_green ?g' = 0" by simp
    with zero a show "\<forall>x y. in_grid x y \<longrightarrow> is_green (cell_at g x y) = (x = dx \<and> y = dy)"
      by blast
  next
    assume b: "\<forall>x y. in_grid x y \<longrightarrow> is_green (cell_at g x y) = (x = dx \<and> y = dy)"
    with ing have gr: "is_green (cell_at g dx dy)" by blast
    from b zero have "count_cells is_green ?g' = 0" by blast
    with cnt gr show "count_cells is_green g = 1 \<and> is_green (cell_at g dx dy)" by simp
  qed
qed

lemma door_inv_pointwise:
  "door_inv st =
     (wf_grid (grid st) \<and>
      (\<forall>x y. in_grid x y \<longrightarrow> cell_at (grid st) x y \<noteq> ExitDoorCell) \<and>
      (if visible (exitDoor st) then \<forall>x y. in_grid x y \<longrightarrow> \<not> is_green (cell_at (grid st) x y)
       else in_grid (d_x (exitDoor st)) (d_y (exitDoor st)) \<and>
            (\<forall>x y. in_grid x y \<longrightarrow>
               is_green (cell_at (grid st) x y) = (x = d_x (exitDoor st) \<and> y = d_y (exitDoor st)))))"
proof (cases "wf_grid (grid st)")
  case False
  then show ?thesis by (simp add: door_inv_def)
next
  case wf: True
  show ?thesis
  proof (cases "visible (exitDoor st)")
    case True
    then show ?thesis
      using wf by (simp add: door_inv_def door_aliases_count count_cells_0)
  next
    case False
    show ?thesis
    proof (cases "in_grid (d_x (exitDoor st)) (d_y (exitDoor st))")
      case True
      from one_green_iff [OF wf True] False wf True show ?thesis
        by (simp add: door_inv_def door_aliases_count count_cells_0)
    next
      case False
      with \<open>\<not> visible (exitDoor st)\<close> show ?thesis by (simp add: door_inv_def)
    qed
  qed
qed

lemma wf_reloaded_rows: "wf_grid (reloaded_rows g)"
  by (simp add: wf_grid_def reloaded_rows_def list_all_length del: upt_Suc)

lemma cell_at_reloaded_rows:
  "in_grid x y \<Longrightarrow> cell_at (reloaded_rows g) x y = ungreen (cell_at g x y)"
proof -
  assume "in_grid x y"
  then have "nat y < nat HEIGHT" "nat x < nat WIDTH"
    by (auto simp: in_grid_def HEIGHT_def WIDTH_def)
  then show ?thesis by (simp add: cell_at_def reloaded_rows_def del: upt_Suc)
qed

lemma ungreen_id: "\<not> is_green c \<Longrightarrow> ungreen c = c"
  by (cases c) (auto simp: is_green_def)

lemma reloaded_grid:
  assumes "door_inv st"
  shows "grid (reloaded st now) = grid st"
proof -
  from assms have p: "wf_grid (grid st)"
    "if visible (exitDoor st) then \<forall>x y. in_grid x y \<longrightarrow> \<not> is_green (cell_at (grid st) x y)
       else in_grid (d_x (exitDoor st)) (d_y (exitDoor st)) \<and>
            (\<forall>x y. in_grid x y \<longrightarrow>
               is_green (cell_at (grid st) x y) = (x = d_x (exitDoor st) \<and> y = d_y (exitDoor st)))"
    by (simp_all add: door_inv_pointwise)
  show ?thesis
  proof (cases "visible (exitDoor st)")
    case True
    with p(2) have ng: "\<And>x y. in_grid x y \<Longrightarrow> \<not> is_green (cell_at (grid st) x y)" by simp
    have "reloaded_rows (grid st) = grid st"
      by (rule grid_eqI [OF wf_reloaded_rows p(1)]) (simp add: cell_at_reloaded_rows ungreen_id ng)
    with True show ?thesis by (simp add: reloaded_def)
  next
    case False
    with p(2) have ing: "in_grid (d_x (exitDoor st)) (d_y (exitDoor st))"
      and only: "\<And>x y. in_grid x y \<Longrightarrow>
               is_green (cell_at (grid st) x y) = (x = d_x (exitDoor st) \<and> y = d_y (exitDoor st))"
      by simp_all
    have "grid_write (reloaded_rows (grid st)) (d_y (exitDoor st)) (d_x (exitDoor st))
            (DestructibleBlock True) = grid st"
    proof (rule grid_eqI [OF wf_grid_write [OF wf_reloaded_rows] p(1)])
      fix x y assume xy: "in_grid x y"
      show "cell_at (grid_write (reloaded_rows (grid st)) (d_y (exitDoor st)) (d_x (exitDoor st))
              (DestructibleBlock True)) x y = cell_at (grid st) x y"
        using only [OF xy] only [OF ing]
        by (auto simp: cell_at_write [OF wf_reloaded_rows ing xy] cell_at_reloaded_rows [OF xy]
            ungreen_id is_green_def)
    qed
    with False show ?thesis by (simp add: reloaded_def)
  qed
qed

lemma door_inv_cong:
  "grid st' = grid st \<Longrightarrow> exitDoor st' = exitDoor st \<Longrightarrow> door_inv st' = door_inv st"
  by (simp add: door_inv_def)

lemma door_inv_reloaded: "door_inv st \<Longrightarrow> door_inv (reloaded st now)"
proof -
  assume a: "door_inv st"
  have "exitDoor (reloaded st now) = exitDoor st" by (simp add: reloaded_def)
  from door_inv_cong [OF reloaded_grid [OF a] this] a show ?thesis by simp
qed

subsection \<open>Saving and loading a world\<close>

lemma demo_ok: "game_ok demo_game"
  by (simp add: game_ok_def demo_game_def int_ok_def enemy_ok_def bomb_ok_def INT_MIN_def INT_MAX_def)

lemma demo_door_inv: "door_inv demo_game"
  by (simp add: door_inv_pointwise demo_game_def wf_demo cell_at_demo is_green_def in_grid_def
      WIDTH_def HEIGHT_def)

lemma demo_no_alias: "door_aliases (grid demo_game) = 0"
  using demo_door_inv by (simp add: door_inv_def)

lemma demo_load:
  "loadGame (Some (saveGame demo_game)) now demo_game = Inr (True, reloaded demo_game now)"
  by (rule loadGame_saved [OF demo_ok demo_no_alias]) (simp add: demo_game_def in_grid_def WIDTH_def HEIGHT_def)

text \<open>
  C3.  The claim holds for a world that comes from \<open>initializeGame\<close>, but not after
  \<open>loadGame\<close>: the demo world has one planted bomb and capacity 2; after saving and
  loading it there is still one bomb, and the new \<open>Player\<close> has capacity 3, so the sum
  is 4.  (The reloaded \<open>bombs\<close> array has one slot, so the next \<open>plantBomb\<close> writes
  behind it.)
\<close>

theorem loadGame_capacity:
  "hasBombs (player demo_game) + int (length (bombs demo_game)) = 3 \<and>
   loadGame (Some (saveGame demo_game)) 0 demo_game = Inr (True, reloaded demo_game 0) \<and>
   hasBombs (player (reloaded demo_game 0)) + int (length (bombs (reloaded demo_game 0))) = 4 \<and>
   plantBomb 1 (reloaded demo_game 0) = Inl OutOfBounds"
  by (simp add: demo_load) (simp add: demo_game_def reloaded_def NUM_BOMBS_def plantBomb_def canPlantBomb_def)

text \<open>
  C6, as the code has it.  A file that cannot be opened gives \<open>false\<close> and leaves the
  world as it was.  That is the only \<open>false\<close>: no read is checked, so a file that opens
  never gives \<open>false\<close>, whatever it contains.
\<close>

theorem loadGame_failure:
  "loadGame None now st = Inr (False, st) \<and> loadGame (Some content) now st \<noteq> Inr (False, st')"
  by (simp add: loadGame_def split: sum.splits)

lemma wf_truncated_rows: "wf_grid (truncated_rows g)"
  by (simp add: wf_grid_def truncated_rows_def list_all_length width_height nth_append del: upt_Suc)

lemma truncated_last_cell: "cell_at (truncated_rows g) (WIDTH - 1) (HEIGHT - 1) = Nullptr"
proof -
  have "nat (HEIGHT - 1) = last_row" "nat (WIDTH - 1) = last_col"
    by (simp_all add: last_row_def last_col_def)
  then show ?thesis
    by (simp add: cell_at_def truncated_rows_def nth_append del: upt_Suc)
qed

text \<open>
  C6 as stated fails: on that truncated file \<open>loadGame\<close> returns \<open>true\<close>, and the world
  is not the previous one; the corner slot \<open>(59, 29)\<close> of the border is empty.
\<close>

theorem loadGame_truncated_counterexample:
  "loadGame (Some (butlast (butlast (saveGame demo_game)))) 0 demo_game = Inr (True, demo_truncated) \<and>
   demo_truncated \<noteq> demo_game \<and>
   cell_at (grid demo_game) 59 29 = IndestructibleBlock \<and>
   cell_at (grid demo_truncated) 59 29 = Nullptr"
proof -
  have ing: "in_grid (d_x (exitDoor demo_game)) (d_y (exitDoor demo_game))" "in_grid 59 29" "in_grid 5 7"
    by (simp_all add: demo_game_def in_grid_def WIDTH_def HEIGHT_def)
  have a: "loadGame (Some (butlast (butlast (saveGame demo_game)))) 0 demo_game = Inr (True, demo_truncated)"
    using loadGame_truncated [OF demo_ok demo_no_alias, of 0] ing(1)
    by (simp add: demo_truncated_def) (simp add: demo_game_def)
  have b: "demo_truncated \<noteq> demo_game"
  proof
    assume "demo_truncated = demo_game"
    then have "hasBombs (player demo_truncated) = hasBombs (player demo_game)" by simp
    then show False by (simp add: demo_truncated_def reloaded_def demo_game_def NUM_BOMBS_def)
  qed
  have c: "cell_at (grid demo_game) 59 29 = IndestructibleBlock"
    by (simp add: demo_game_def cell_at_demo ing)
  have d: "cell_at (grid demo_truncated) 59 29 = Nullptr"
    using truncated_last_cell [of "grid demo_game"]
    by (simp add: demo_truncated_def cell_at_write [OF wf_truncated_rows ing(3) ing(2)] WIDTH_def HEIGHT_def)
  from a b c d show ?thesis by simp
qed

text \<open>
  C5, as the code has it.  For a world whose integers are C++ \<open>int\<close> values and whose
  exit door satisfies the invariant \<open>door_inv\<close>, loaded over a world without door
  aliases: \<open>loadGame\<close> of the saved text succeeds and reproduces the player position,
  the enemies' positions and patterns in order, the exit door, the planted-bomb
  counter, the bomb positions and the grid.  Every bomb restarts its fuse at the time
  of loading, and every enemy restarts its move counter at 0.
\<close>

theorem load_save_round_trip:
  assumes "game_ok st" and "door_inv st" and "door_aliases (grid st0) = 0"
  shows "\<exists>st'. loadGame (Some (saveGame st)) now st0 = Inr (True, st') \<and>
      p_x (player st') = p_x (player st) \<and> p_y (player st') = p_y (player st) \<and>
      map (\<lambda>e. (e_x e, e_y e, moveType e)) (enemies st')
        = map (\<lambda>e. (e_x e, e_y e, moveType e)) (enemies st) \<and>
      exitDoor st' = exitDoor st \<and>
      bombsPlanted st' = bombsPlanted st \<and>
      map (\<lambda>b. (b_x b, b_y b)) (bombs st') = map (\<lambda>b. (b_x b, b_y b)) (bombs st) \<and>
      grid st' = grid st \<and>
      list_all (\<lambda>b. plantTime b = now) (bombs st') \<and>
      list_all (\<lambda>e. moveStep e = 0) (enemies st')"
proof -
  from assms(2) have "visible (exitDoor st) \<or> in_grid (d_x (exitDoor st)) (d_y (exitDoor st))"
    by (auto simp: door_inv_def split: if_splits)
  from loadGame_saved [OF assms(1,3) this]
  have l: "loadGame (Some (saveGame st)) now st0 = Inr (True, reloaded st now)" .
  have g: "grid (reloaded st now) = grid st" by (rule reloaded_grid [OF assms(2)])
  have r: "p_x (player (reloaded st now)) = p_x (player st)"
    "p_y (player (reloaded st now)) = p_y (player st)"
    "map (\<lambda>e. (e_x e, e_y e, moveType e)) (enemies (reloaded st now))
        = map (\<lambda>e. (e_x e, e_y e, moveType e)) (enemies st)"
    "exitDoor (reloaded st now) = exitDoor st"
    "bombsPlanted (reloaded st now) = bombsPlanted st"
    "map (\<lambda>b. (b_x b, b_y b)) (bombs (reloaded st now)) = map (\<lambda>b. (b_x b, b_y b)) (bombs st)"
    "list_all (\<lambda>b. plantTime b = now) (bombs (reloaded st now))"
    "list_all (\<lambda>e. moveStep e = 0) (enemies (reloaded st now))"
    by (simp_all add: reloaded_def list_all_length o_def)
  from l g r show ?thesis by blast
qed

theorem load_save_round_trip_witness:
  "game_ok demo_game \<and> door_inv demo_game \<and> door_aliases (grid demo_game) = 0 \<and>
   (\<exists>st'. loadGame (Some (saveGame demo_game)) 7 demo_game = Inr (True, st') \<and>
      p_x (player st') = 1 \<and> p_y (player st') = 1 \<and>
      map (\<lambda>e. (e_x e, e_y e, moveType e)) (enemies st') = [(5, 6, 0), (8, 5, 1), (5, 5, 2)] \<and>
      exitDoor st' = \<lparr>d_x = 5, d_y = 7, visible = False\<rparr> \<and>
      bombsPlanted st' = 1 \<and>
      map (\<lambda>b. (b_x b, b_y b)) (bombs st') = [(5, 5)] \<and>
      grid st' = demo_grid \<and>
      list_all (\<lambda>b. plantTime b = 7) (bombs st') \<and>
      list_all (\<lambda>e. moveStep e = 0) (enemies st'))"
  using load_save_round_trip [OF demo_ok demo_door_inv demo_no_alias, of 7]
    demo_ok demo_door_inv demo_no_alias
  by (simp add: demo_game_def)

subsection \<open>The bomb loop of the world update\<close>

lemma take_swap_remove:
  "i < length bs \<Longrightarrow> take i (butlast (bs[i := last bs])) = take i bs"
  by (simp add: take_butlast)

lemma drop_swap_remove:
  assumes "i < length bs"
  shows "mset (drop i (butlast (bs[i := last bs]))) = mset (drop i bs) - {#bs ! i#}"
proof -
  let ?bs = "butlast (bs[i := last bs])"
  have in_drop: "bs ! i \<in># mset (drop i bs)"
    using assms by (metis Cons_nth_drop_Suc mset.simps(2) union_single_eq_member)
  have "mset (take i ?bs) + mset (drop i ?bs) = mset ?bs"
    by (metis append_take_drop_id mset_append)
  also have "\<dots> = mset bs - {#bs ! i#}" by (rule mset_swap_remove [OF assms])
  also have "\<dots> = (mset (take i bs) + mset (drop i bs)) - {#bs ! i#}"
    by (metis append_take_drop_id mset_append)
  also have "\<dots> = mset (take i bs) + (mset (drop i bs) - {#bs ! i#})"
    using in_drop by simp
  finally show ?thesis by (simp add: take_swap_remove [OF assms])
qed

lemma explodeDue_Inr:
  "explodeDue now i bs st = Inr (bs', st') \<Longrightarrow>
   mset bs' = mset (take i bs) + {#b \<in># mset (drop i bs). \<not> shouldExplode b now#} \<and>
   (\<exists>ds. mset ds = {#b \<in># mset (drop i bs). shouldExplode b now#} \<and>
         for_each ds explodeBomb st = Inr st')"
proof (induction now i bs st rule: explodeDue.induct)
  case (1 now i bs st)
  show ?case
  proof (cases "i < length bs")
    case False
    with "1.prems" have "bs' = bs" "st' = st" by (subst (asm) explodeDue.simps, simp)+
    with False show ?thesis by (auto intro: exI [of _ "[]"])
  next
    case i: True
    have split: "drop i bs = bs ! i # drop (Suc i) bs" "take (Suc i) bs = take i bs @ [bs ! i]"
      using i by (simp_all add: Cons_nth_drop_Suc take_Suc_conv_app_nth)
    show ?thesis
    proof (cases "shouldExplode (bs ! i) now")
      case False
      with i "1.prems" have "explodeDue now (Suc i) bs st = Inr (bs', st')"
        by (subst (asm) explodeDue.simps) simp
      from "1.IH"(2) [OF i False this] False show ?thesis by (simp add: split)
    next
      case True
      let ?bs = "butlast (bs[i := last bs])"
      from True i "1.prems" obtain s1 where
        e: "explodeBomb (bs ! i) st = Inr s1"
        and rest: "explodeDue now i ?bs s1 = Inr (bs', st')"
        by (subst (asm) explodeDue.simps) (auto split: sum.splits)
      from "1.IH"(1) [OF i True e rest] obtain ds where
        kept: "mset bs' = mset (take i ?bs) + {#b \<in># mset (drop i ?bs). \<not> shouldExplode b now#}"
        and ds: "mset ds = {#b \<in># mset (drop i ?bs). shouldExplode b now#}"
        and run: "for_each ds explodeBomb s1 = Inr st'"
        by blast
      have d: "mset (drop i ?bs) = mset (drop i bs) - {#bs ! i#}" by (rule drop_swap_remove [OF i])
      from kept True have "mset bs' = mset (take i bs) + {#b \<in># mset (drop i bs). \<not> shouldExplode b now#}"
        by (simp add: d take_swap_remove [OF i] split)
      moreover from ds True have "mset (bs ! i # ds) = {#b \<in># mset (drop i bs). shouldExplode b now#}"
        by (simp add: d split)
      moreover from e run have "for_each (bs ! i # ds) explodeBomb st = Inr st'" by simp
      ultimately show ?thesis by blast
    qed
  qed
qed

lemma explodeDue_none:
  "\<forall>b \<in> set bs. \<not> shouldExplode b now \<Longrightarrow> explodeDue now i bs st = Inr (bs, st)"
proof (induction now i bs st rule: explodeDue.induct)
  case (1 now i bs st)
  show ?case
  proof (cases "i < length bs")
    case False
    then show ?thesis by (subst explodeDue.simps) simp
  next
    case True
    with "1.prems" have nd: "\<not> shouldExplode (bs ! i) now" by simp
    from "1.IH"(2) [OF True nd "1.prems"] True nd show ?thesis
      by (subst explodeDue.simps) simp
  qed
qed

lemma Game_update_Inr:
  assumes "Game_update rs k now st = Inr (st', k')"
  obtains es bs st1 where
    "moveEnemies rs k (grid st) (enemies st) = Inr (es, k')"
    "explodeDue now 0 (bombs st) (st\<lparr>enemies := es\<rparr>) = Inr (bs, st1)"
    "st' = st1\<lparr>bombs := bs\<rparr>"
  using assms
  by (auto simp: Game_update_def Let_def split: if_splits sum.splits prod.splits)

subsection \<open>The enemy loop of the world update\<close>

lemma draws_Cons: "draws (e # es) = (if moveStep e = 10 then 1 else 0) + draws es"
  by (simp add: draws_def)

lemma moveEnemies_Cons_Inr:
  assumes "moveEnemies rs k g (e # es) = Inr (es', k')"
  obtains ok es1 where
    "isValidMove g (e_x (fst (Enemy_update rs k e))) (e_y (fst (Enemy_update rs k e))) = Inr ok"
    "moveEnemies rs (snd (Enemy_update rs k e)) g es = Inr (es1, k')"
    "es' = (if ok then fst (Enemy_update rs k e)
            else Enemy_move (fst (Enemy_update rs k e))
                   (e_x e - e_x (fst (Enemy_update rs k e)))
                   (e_y e - e_y (fst (Enemy_update rs k e)))) # es1"
  using assms
  by (auto simp: Let_def split: prod.splits sum.splits if_splits)

lemma Enemy_update_count:
  "moveStep e \<noteq> 10 \<Longrightarrow> Enemy_update rs k e = (e\<lparr>moveStep := moveStep e + 1\<rparr>, k)"
  by (simp add: Enemy_update_def)

lemma Enemy_update_move:
  "moveStep e = 10 \<Longrightarrow>
   Enemy_update rs k e =
     (e\<lparr>moveStep := 0,
        e_x := e_x e + (if moveType e = 0 \<or> moveType e = 2
                        then (if int (rs k) mod 4 = 0 \<or> int (rs k) mod 4 = 1 then 1 else - 1) else 0),
        e_y := e_y e + (if moveType e = 1 \<or> moveType e = 2
                        then (if int (rs k) mod 4 = 0 \<or> int (rs k) mod 4 = 1 then - 1 else 1) else 0)\<rparr>,
      Suc k)"
proof -
  have "0 \<le> int (rs k) mod 4" "int (rs k) mod 4 < 4" by simp_all
  then have "int (rs k) mod 4 \<in> {0, 1, 2, 3}" by auto
  moreover assume "moveStep e = 10"
  ultimately show ?thesis
    by (auto simp: Enemy_update_def Enemy_move_def enemy_dx_def enemy_dy_def Let_def)
qed

lemma enemy_tick_head:
  assumes "isValidMove g (e_x (fst (Enemy_update rs k e))) (e_y (fst (Enemy_update rs k e))) = Inr ok"
  shows "enemy_tick rs k g e
           (if ok then fst (Enemy_update rs k e)
            else Enemy_move (fst (Enemy_update rs k e))
                   (e_x e - e_x (fst (Enemy_update rs k e)))
                   (e_y e - e_y (fst (Enemy_update rs k e))))"
proof (cases "moveStep e = 10")
  case False
  then show ?thesis
    by (simp add: enemy_tick_def Enemy_update_count Enemy_move_def Let_def)
next
  case True
  with assms show ?thesis
    by (cases ok) (simp_all add: enemy_tick_def Enemy_update_move Enemy_move_def Let_def)
qed

lemma moveEnemies_Inr:
  "moveEnemies rs k g es = Inr (es', k') \<Longrightarrow>
   length es' = length es \<and> k' = k + draws es \<and>
   (\<forall>i < length es. enemy_tick rs (k + draws (take i es)) g (es ! i) (es' ! i))"
proof (induction es arbitrary: k es')
  case Nil
  then show ?case by (simp add: draws_def)
next
  case (Cons e es)
  from Cons.prems obtain ok es1 where
    v: "isValidMove g (e_x (fst (Enemy_update rs k e))) (e_y (fst (Enemy_update rs k e))) = Inr ok"
    and rest: "moveEnemies rs (snd (Enemy_update rs k e)) g es = Inr (es1, k')"
    and es': "es' = (if ok then fst (Enemy_update rs k e)
            else Enemy_move (fst (Enemy_update rs k e))
                   (e_x e - e_x (fst (Enemy_update rs k e)))
                   (e_y e - e_y (fst (Enemy_update rs k e)))) # es1"
    by (rule moveEnemies_Cons_Inr)
  have k1: "snd (Enemy_update rs k e) = k + (if moveStep e = 10 then 1 else 0)"
    by (simp add: Enemy_update_count Enemy_update_move)
  note ih = Cons.IH [OF rest]
  note hd = enemy_tick_head [OF v]
  show ?case
  proof (intro conjI allI impI)
    from ih es' show "length es' = length (e # es)" by simp
    from ih k1 show "k' = k + draws (e # es)" by (simp add: draws_Cons)
  next
    fix i assume i: "i < length (e # es)"
    show "enemy_tick rs (k + draws (take i (e # es))) g ((e # es) ! i) (es' ! i)"
    proof (cases i)
      case 0
      with hd es' show ?thesis by (simp add: draws_def)
    next
      case (Suc j)
      with i ih have "enemy_tick rs (snd (Enemy_update rs k e) + draws (take j es)) g (es ! j) (es1 ! j)"
        by simp
      with Suc es' k1 show ?thesis by (simp add: draws_Cons add.assoc)
    qed
  qed
qed

lemma moveEnemies_counting:
  "\<forall>e \<in> set es. moveStep e \<noteq> 10 \<and> (\<exists>ok. isValidMove g (e_x e) (e_y e) = Inr ok) \<Longrightarrow>
   moveEnemies rs k g es = Inr (map (\<lambda>e. e\<lparr>moveStep := moveStep e + 1\<rparr>) es, k)"
proof (induction es)
  case Nil
  then show ?case by simp
next
  case (Cons e es)
  from Cons.prems obtain ok where ok: "isValidMove g (e_x e) (e_y e) = Inr ok" by auto
  from Cons.prems have ne: "moveStep e \<noteq> 10" by simp
  from Cons.prems have "moveEnemies rs k g es = Inr (map (\<lambda>e. e\<lparr>moveStep := moveStep e + 1\<rparr>) es, k)"
    by (intro Cons.IH) simp
  with ok ne show ?case
    by (simp add: Enemy_update_count Enemy_move_def)
qed

lemma Game_update_no_bombs:
  assumes "Game_update rs k now st = Inr (st', k')" "list_all (\<lambda>b. \<not> shouldExplode b now) (bombs st)"
  shows "moveEnemies rs k (grid st) (enemies st) = Inr (enemies st', k')"
    and "st' = st\<lparr>enemies := enemies st'\<rparr>"
proof -
  from assms(1) obtain es bs st1 where
    m: "moveEnemies rs k (grid st) (enemies st) = Inr (es, k')"
    and e: "explodeDue now 0 (bombs st) (st\<lparr>enemies := es\<rparr>) = Inr (bs, st1)"
    and st': "st' = st1\<lparr>bombs := bs\<rparr>"
    by (rule Game_update_Inr)
  from assms(2) have "\<forall>b \<in> set (bombs st). \<not> shouldExplode b now" by (simp add: list_all_iff)
  from explodeDue_none [OF this, of 0 "st\<lparr>enemies := es\<rparr>"] e
  have "bs = bombs st" "st1 = st\<lparr>enemies := es\<rparr>" by simp_all
  with st' have s: "st' = st\<lparr>enemies := es\<rparr>" by simp
  with m show "moveEnemies rs k (grid st) (enemies st) = Inr (enemies st', k')" by simp
  from s show "st' = st\<lparr>enemies := enemies st'\<rparr>" by simp
qed

lemma Game_update_quiet:
  assumes "\<not> list_ex (\<lambda>e. p_x (player st) = e_x e \<and> p_y (player st) = e_y e) (enemies st)"
    and "in_grid (p_x (player st)) (p_y (player st))"
    and "cell_at (grid st) (p_x (player st)) (p_y (player st)) \<noteq> Trap"
    and "moveEnemies rs k (grid st) (enemies st) = Inr (es, k')"
    and "list_all (\<lambda>b. \<not> shouldExplode b now) (bombs st)"
    and "\<not> (p_x (player st) = d_x (exitDoor st) \<and> p_y (player st) = d_y (exitDoor st)
            \<and> visible (exitDoor st))"
  shows "Game_update rs k now st = Inr (st\<lparr>enemies := es\<rparr>, k')"
proof -
  from assms(5) have "\<forall>b \<in> set (bombs st). \<not> shouldExplode b now" by (simp add: list_all_iff)
  note e = explodeDue_none [OF this, of 0 "st\<lparr>enemies := es\<rparr>"]
  from assms(2) have r: "grid_read (grid st) (p_y (player st)) (p_x (player st))
      = Inr (cell_at (grid st) (p_x (player st)) (p_y (player st)))"
    by (simp add: grid_read_def in_grid_def cell_at_def)
  from assms(1,3,4,6) show ?thesis
    by (simp add: Game_update_def r holds_trap e)
qed

lemma moveEnemies_all_count:
  assumes "moveEnemies rs k g es = Inr (es', k')" "\<forall>e \<in> set es. moveStep e \<noteq> 10"
  shows "es' = map (\<lambda>e. e\<lparr>moveStep := moveStep e + 1\<rparr>) es" and "k' = k"
proof -
  note r = moveEnemies_Inr [OF assms(1)]
  from assms(2) have "draws es = 0" by (simp add: draws_def filter_empty_conv)
  with r show "k' = k" by simp
  show "es' = map (\<lambda>e. e\<lparr>moveStep := moveStep e + 1\<rparr>) es"
  proof (rule nth_equalityI)
    from r show "length es' = length (map (\<lambda>e. e\<lparr>moveStep := moveStep e + 1\<rparr>) es)" by simp
  next
    fix i assume "i < length es'"
    with r have i: "i < length es" by simp
    with assms(2) have "moveStep (es ! i) \<noteq> 10" by simp
    moreover from r i have "enemy_tick rs (k + draws (take i es)) g (es ! i) (es' ! i)" by blast
    ultimately show "es' ! i = map (\<lambda>e. e\<lparr>moveStep := moveStep e + 1\<rparr>) es ! i"
      using i by (simp add: enemy_tick_def Let_def)
  qed
qed

lemma moveEnemies_all_move:
  assumes "moveEnemies rs k g es = Inr (es', k')" "\<forall>e \<in> set es. moveStep e = 10"
  shows "list_all (\<lambda>e. moveStep e = 0) es'"
proof -
  note r = moveEnemies_Inr [OF assms(1)]
  have "moveStep (es' ! i) = 0" if "i < length es'" for i
  proof -
    from that r have i: "i < length es" by simp
    with assms(2) have "moveStep (es ! i) = 10" by simp
    moreover from r i have "enemy_tick rs (k + draws (take i es)) g (es ! i) (es' ! i)" by blast
    ultimately show ?thesis by (auto simp: enemy_tick_def Let_def)
  qed
  then show ?thesis by (simp add: list_all_length)
qed

lemma updates_append:
  "updates rs k (xs @ ys) st =
     (case updates rs k xs st of Inl h \<Rightarrow> Inl h | Inr (s, k1) \<Rightarrow> updates rs k1 ys s)"
  by (induction xs arbitrary: k st) (auto split: sum.splits)

lemma updates_counting:
  "updates rs k nows st = Inr (st', k') \<Longrightarrow> bombs st = [] \<Longrightarrow>
   \<forall>e \<in> set (enemies st). moveStep e = c \<Longrightarrow> 0 \<le> c \<Longrightarrow> c + int (length nows) \<le> 10 \<Longrightarrow>
   st' = st\<lparr>enemies := map (\<lambda>e. e\<lparr>moveStep := c + int (length nows)\<rparr>) (enemies st)\<rparr> \<and> k' = k"
proof (induction nows arbitrary: k st c)
  case Nil
  have "map (\<lambda>e. e\<lparr>moveStep := c\<rparr>) (enemies st) = enemies st"
    using Nil.prems(3) by (induction "enemies st") (auto simp: map_idI)
  with Nil.prems(1) show ?case by simp
next
  case (Cons now nows)
  from Cons.prems(1) obtain s1 k1 where
    u: "Game_update rs k now st = Inr (s1, k1)" and rest: "updates rs k1 nows s1 = Inr (st', k')"
    by (auto split: sum.splits)
  from Cons.prems(2) have nb: "list_all (\<lambda>b. \<not> shouldExplode b now) (bombs st)" by simp
  note q = Game_update_no_bombs [OF u nb]
  from Cons.prems(3,5) have ne: "\<forall>e \<in> set (enemies st). moveStep e \<noteq> 10" by auto
  note m = moveEnemies_all_count [OF q(1) ne]
  from m(1) Cons.prems(3)
  have es1: "enemies s1 = map (\<lambda>e. e\<lparr>moveStep := c + 1\<rparr>) (enemies st)" by simp
  from q(2) Cons.prems(2) have b1: "bombs s1 = []" by (metis game.select_convs(4) game.surjective game.update_convs(3))
  from es1 have c1: "\<forall>e \<in> set (enemies s1). moveStep e = c + 1" by simp
  from Cons.prems(4,5) have "0 \<le> c + 1" "c + 1 + int (length nows) \<le> 10" by simp_all
  from Cons.IH [OF rest b1 c1 this] have
    st': "st' = s1\<lparr>enemies := map (\<lambda>e. e\<lparr>moveStep := c + 1 + int (length nows)\<rparr>) (enemies s1)\<rparr>"
    and k': "k' = k1" by simp_all
  have "st' = st\<lparr>enemies := map (\<lambda>e. e\<lparr>moveStep := c + int (length (now # nows))\<rparr>) (enemies st)\<rparr>"
    by (subst st', subst q(2)) (simp add: es1 o_def add.assoc add.commute)
  with k' m(2) show ?case by simp
qed

subsection \<open>Enemy movement\<close>

lemma card_low_residues: "card {v::nat. v < 4 * q \<and> int v mod 4 \<in> {0, 1}} = 2 * q"
proof (induction q)
  case 0
  then show ?case by simp
next
  case (Suc q)
  have "{v::nat. v < 4 * Suc q \<and> int v mod 4 \<in> {0, 1}}
      = {v. v < 4 * q \<and> int v mod 4 \<in> {0, 1}} \<union> {4 * q, 4 * q + 1}"
    by (auto simp: zmod_int) presburger+
  moreover have "finite {v::nat. v < 4 * q \<and> int v mod 4 \<in> {0, 1}}" by simp
  moreover have "{v. v < 4 * q \<and> int v mod 4 \<in> {0, 1}} \<inter> {4 * q, 4 * q + 1} = {}" by auto
  ultimately show ?case using Suc by (simp add: card_Un_disjoint)
qed

lemma card_high_residues: "card {v::nat. v < 4 * q \<and> int v mod 4 \<in> {2, 3}} = 2 * q"
proof (induction q)
  case 0
  then show ?case by simp
next
  case (Suc q)
  have "{v::nat. v < 4 * Suc q \<and> int v mod 4 \<in> {2, 3}}
      = {v. v < 4 * q \<and> int v mod 4 \<in> {2, 3}} \<union> {4 * q + 2, 4 * q + 3}"
    by (auto simp: zmod_int) presburger+
  moreover have "finite {v::nat. v < 4 * q \<and> int v mod 4 \<in> {2, 3}}" by simp
  moreover have "{v. v < 4 * q \<and> int v mod 4 \<in> {2, 3}} \<inter> {4 * q + 2, 4 * q + 3} = {}" by auto
  ultimately show ?case using Suc by (simp add: card_Un_disjoint)
qed

lemma Enemy_update_low:
  assumes "moveStep e = 10" "moveType e \<in> {0, 1, 2}"
  shows "(Enemy_update (\<lambda>i. v) k e = Enemy_update (\<lambda>i. 0) k e) = (int v mod 4 \<in> {0, 1})"
proof -
  have "0 \<le> int v mod 4" "int v mod 4 < 4" by simp_all
  then have "int v mod 4 \<in> {0, 1, 2, 3}" by auto
  with assms show ?thesis
    by (auto simp: Enemy_update_move [OF assms(1)] dest: arg_cong [where f = e_x] arg_cong [where f = e_y])
qed

lemma Enemy_update_high:
  assumes "moveStep e = 10" "moveType e \<in> {0, 1, 2}"
  shows "(Enemy_update (\<lambda>i. v) k e = Enemy_update (\<lambda>i. 2) k e) = (int v mod 4 \<in> {2, 3})"
proof -
  have "0 \<le> int v mod 4" "int v mod 4 < 4" by simp_all
  then have "int v mod 4 \<in> {0, 1, 2, 3}" by auto
  with assms show ?thesis
    by (auto simp: Enemy_update_move [OF assms(1)] dest: arg_cong [where f = e_x] arg_cong [where f = e_y])
qed

text \<open>
  C8.  One call of \<open>Game::update\<close> that returns, in its enemy loop (\<open>moveEnemies\<close>; when
  no bomb is due in this update, the enemies after the update are those that the loop
  leaves): an enemy whose counter is not 10 only counts, without a call of \<open>rand()\<close> and
  without a move; an enemy whose counter is 10 resets it to 0, draws one value
  \<open>r = rand() % 4\<close> in \<open>{0, 1, 2, 3}\<close>, and steps by it when the cell it leads to is valid
  (otherwise it is put back): pattern 0 (horizontal) goes \<open>+x\<close> for \<open>r\<close> in \<open>{0, 1}\<close> and
  \<open>-x\<close> for \<open>r\<close> in \<open>{2, 3}\<close>, pattern 1 (vertical) goes \<open>-y\<close> and \<open>+y\<close>, pattern 2 does
  both.  In a run of updates of a world without bombs whose enemies have the counter 0
  (as \<open>initializeGame\<close> and \<open>loadGame\<close> leave them), the first ten updates only count,
  and the eleventh is the one in which every enemy makes its attempt and is back at the
  counter 0: one attempt every 11 updates.  Of the values of \<open>rand()\<close> below any multiple
  \<open>4 * q\<close> of 4, \<open>2 * q\<close> give the step of the draws 0 and 1 and \<open>2 * q\<close> the step of the
  draws 2 and 3.
\<close>

theorem Game_update_enemy_pattern:
  "(Game_update rs k now st = Inr (st', k') \<longrightarrow>
      (\<exists>es. moveEnemies rs k (grid st) (enemies st) = Inr (es, k') \<and>
         length es = length (enemies st) \<and>
         (list_all (\<lambda>b. \<not> shouldExplode b now) (bombs st) \<longrightarrow> enemies st' = es) \<and>
         (\<forall>i < length (enemies st).
            (let e = enemies st ! i;
                 e' = es ! i;
                 r = int (rs (k + draws (take i (enemies st)))) mod 4;
                 tx = e_x e + (if moveType e = 0 \<or> moveType e = 2
                               then (if r = 0 \<or> r = 1 then 1 else - 1) else 0);
                 ty = e_y e + (if moveType e = 1 \<or> moveType e = 2
                               then (if r = 0 \<or> r = 1 then - 1 else 1) else 0)
             in r \<in> {0, 1, 2, 3} \<and>
                (if moveStep e \<noteq> 10 then e' = e\<lparr>moveStep := moveStep e + 1\<rparr>
                 else (isValidMove (grid st) tx ty = Inr True \<and>
                       e' = e\<lparr>moveStep := 0, e_x := tx, e_y := ty\<rparr>) \<or>
                      (isValidMove (grid st) tx ty = Inr False \<and> e' = e\<lparr>moveStep := 0\<rparr>)))))) \<and>
   (updates rs k nows st = Inr (st', k') \<and> bombs st = [] \<and>
    list_all (\<lambda>e. moveStep e = 0) (enemies st) \<and> length nows \<le> 10 \<longrightarrow>
      enemies st' = map (\<lambda>e. e\<lparr>moveStep := int (length nows)\<rparr>) (enemies st) \<and> k' = k) \<and>
   (updates rs k (nows @ [now]) st = Inr (st', k') \<and> bombs st = [] \<and>
    list_all (\<lambda>e. moveStep e = 0) (enemies st) \<and> length nows = 10 \<longrightarrow>
      moveEnemies rs k (grid st) (map (\<lambda>e. e\<lparr>moveStep := 10\<rparr>) (enemies st))
        = Inr (enemies st', k') \<and>
      list_all (\<lambda>e. moveStep e = 0) (enemies st')) \<and>
   (moveStep e = 10 \<and> moveType e \<in> {0, 1, 2} \<longrightarrow>
      card {v. v < 4 * q \<and> Enemy_update (\<lambda>i. v) k e = Enemy_update (\<lambda>i. 0) k e} = 2 * q \<and>
      card {v. v < 4 * q \<and> Enemy_update (\<lambda>i. v) k e = Enemy_update (\<lambda>i. 2) k e} = 2 * q)"
proof (intro conjI impI)
  assume u: "Game_update rs k now st = Inr (st', k')"
  then obtain es bs st1 where
    m: "moveEnemies rs k (grid st) (enemies st) = Inr (es, k')"
    by (rule Game_update_Inr)
  note r = moveEnemies_Inr [OF m]
  have range: "int (rs j) mod 4 \<in> {0, 1, 2, 3}" for j
  proof -
    have "0 \<le> int (rs j) mod 4" "int (rs j) mod 4 < 4" by simp_all
    then show ?thesis by auto
  qed
  have "enemies st' = es" if "list_all (\<lambda>b. \<not> shouldExplode b now) (bombs st)"
    using Game_update_no_bombs(1) [OF u that] m by simp
  moreover have "let e = enemies st ! i;
                 e' = es ! i;
                 r = int (rs (k + draws (take i (enemies st)))) mod 4;
                 tx = e_x e + (if moveType e = 0 \<or> moveType e = 2
                               then (if r = 0 \<or> r = 1 then 1 else - 1) else 0);
                 ty = e_y e + (if moveType e = 1 \<or> moveType e = 2
                               then (if r = 0 \<or> r = 1 then - 1 else 1) else 0)
             in r \<in> {0, 1, 2, 3} \<and>
                (if moveStep e \<noteq> 10 then e' = e\<lparr>moveStep := moveStep e + 1\<rparr>
                 else (isValidMove (grid st) tx ty = Inr True \<and>
                       e' = e\<lparr>moveStep := 0, e_x := tx, e_y := ty\<rparr>) \<or>
                      (isValidMove (grid st) tx ty = Inr False \<and> e' = e\<lparr>moveStep := 0\<rparr>))"
    if "i < length (enemies st)" for i
  proof -
    from r that have "enemy_tick rs (k + draws (take i (enemies st))) (grid st) (enemies st ! i) (es ! i)"
      by blast
    with range [of "k + draws (take i (enemies st))"] show ?thesis
      unfolding enemy_tick_def Let_def by blast
  qed
  ultimately show "\<exists>es. moveEnemies rs k (grid st) (enemies st) = Inr (es, k') \<and>
         length es = length (enemies st) \<and>
         (list_all (\<lambda>b. \<not> shouldExplode b now) (bombs st) \<longrightarrow> enemies st' = es) \<and>
         (\<forall>i < length (enemies st).
            (let e = enemies st ! i;
                 e' = es ! i;
                 r = int (rs (k + draws (take i (enemies st)))) mod 4;
                 tx = e_x e + (if moveType e = 0 \<or> moveType e = 2
                               then (if r = 0 \<or> r = 1 then 1 else - 1) else 0);
                 ty = e_y e + (if moveType e = 1 \<or> moveType e = 2
                               then (if r = 0 \<or> r = 1 then - 1 else 1) else 0)
             in r \<in> {0, 1, 2, 3} \<and>
                (if moveStep e \<noteq> 10 then e' = e\<lparr>moveStep := moveStep e + 1\<rparr>
                 else (isValidMove (grid st) tx ty = Inr True \<and>
                       e' = e\<lparr>moveStep := 0, e_x := tx, e_y := ty\<rparr>) \<or>
                      (isValidMove (grid st) tx ty = Inr False \<and> e' = e\<lparr>moveStep := 0\<rparr>))))"
    using m r by blast
next
  assume a: "updates rs k nows st = Inr (st', k') \<and> bombs st = [] \<and>
    list_all (\<lambda>e. moveStep e = 0) (enemies st) \<and> length nows \<le> 10"
  then have "\<forall>e \<in> set (enemies st). moveStep e = 0" by (simp add: list_all_iff)
  from updates_counting [OF _ _ this, of rs k nows st' k'] a
  have s: "st' = st\<lparr>enemies := map (\<lambda>e. e\<lparr>moveStep := int (length nows)\<rparr>) (enemies st)\<rparr>"
    and "k' = k"
    by simp_all
  then show "k' = k" by simp
  show "enemies st' = map (\<lambda>e. e\<lparr>moveStep := int (length nows)\<rparr>) (enemies st)"
    by (subst s) simp
next
  assume a: "updates rs k (nows @ [now]) st = Inr (st', k') \<and> bombs st = [] \<and>
    list_all (\<lambda>e. moveStep e = 0) (enemies st) \<and> length nows = 10"
  then have z: "\<forall>e \<in> set (enemies st). moveStep e = 0" by (simp add: list_all_iff)
  from a obtain s10 k10 where
    ten: "updates rs k nows st = Inr (s10, k10)" and last: "Game_update rs k10 now s10 = Inr (st', k')"
    by (auto simp: updates_append split: sum.splits prod.splits)
  from updates_counting [OF ten _ z] a
  have s10: "s10 = st\<lparr>enemies := map (\<lambda>e. e\<lparr>moveStep := 10\<rparr>) (enemies st)\<rparr>" and k10: "k10 = k"
    by simp_all
  from s10 a have "list_all (\<lambda>b. \<not> shouldExplode b now) (bombs s10)" by simp
  from Game_update_no_bombs(1) [OF last this] s10 k10
  have m: "moveEnemies rs k (grid st) (map (\<lambda>e. e\<lparr>moveStep := 10\<rparr>) (enemies st))
        = Inr (enemies st', k')" by simp
  then show "moveEnemies rs k (grid st) (map (\<lambda>e. e\<lparr>moveStep := 10\<rparr>) (enemies st))
        = Inr (enemies st', k')" .
  from moveEnemies_all_move [OF m] show "list_all (\<lambda>e. moveStep e = 0) (enemies st')" by simp
next
  assume a: "moveStep e = 10 \<and> moveType e \<in> {0, 1, 2}"
  then have t: "moveStep e = 10" "moveType e \<in> {0, 1, 2}" by simp_all
  show "card {v. v < 4 * q \<and> Enemy_update (\<lambda>i. v) k e = Enemy_update (\<lambda>i. 0) k e} = 2 * q"
    unfolding Enemy_update_low [OF t] by (rule card_low_residues)
  show "card {v. v < 4 * q \<and> Enemy_update (\<lambda>i. v) k e = Enemy_update (\<lambda>i. 2) k e} = 2 * q"
    unfolding Enemy_update_high [OF t] by (rule card_high_residues)
qed

lemma isValidMove_free:
  "0 < x \<Longrightarrow> x < WIDTH - 1 \<Longrightarrow> 0 < y \<Longrightarrow> y < HEIGHT - 1 \<Longrightarrow> cell_at g x y = Nullptr \<Longrightarrow>
   isValidMove g x y = Inr True"
  by (simp add: isValidMove_def cell_at_def)

lemma patrol_tick:
  assumes "c \<noteq> 10"
  shows "Game_update rs k now (patrol c) = Inr (patrol (c + 1), k)"
proof -
  have v: "isValidMove demo_grid 5 6 = Inr True" "isValidMove demo_grid 8 5 = Inr True"
    "isValidMove demo_grid 5 5 = Inr True"
    by (rule isValidMove_free; simp add: cell_at_demo in_grid_def WIDTH_def HEIGHT_def)+
  have m: "moveEnemies rs k (grid (patrol c)) (enemies (patrol c))
      = Inr (enemies (patrol (c + 1)), k)"
    using assms by (simp add: patrol_def Enemy_update_count v)
  have "Game_update rs k now (patrol c) = Inr ((patrol c)\<lparr>enemies := enemies (patrol (c + 1))\<rparr>, k)"
    by (rule Game_update_quiet [OF _ _ _ m])
       (simp_all add: patrol_def cell_at_demo in_grid_def WIDTH_def HEIGHT_def)
  then show ?thesis by (simp add: patrol_def)
qed

lemma patrol_run:
  "0 \<le> c \<Longrightarrow> c + int n \<le> 10 \<Longrightarrow>
   updates rs k (replicate n now) (patrol c) = Inr (patrol (c + int n), k)"
proof (induction n arbitrary: c)
  case 0
  then show ?case by simp
next
  case (Suc n)
  from Suc.prems have "c \<noteq> 10" "0 \<le> c + 1" "c + 1 + int n \<le> 10" by simp_all
  have "c + 1 + int n = c + int (Suc n)" by simp
  with patrol_tick [OF \<open>c \<noteq> 10\<close>, of rs k now] Suc.IH [OF \<open>0 \<le> c + 1\<close> \<open>c + 1 + int n \<le> 10\<close>]
  show ?case by (simp del: of_nat_Suc)
qed

lemma patrol_move: "Game_update (\<lambda>i. 2) 0 now (patrol 10) = Inr (patrol_moved, 3)"
proof -
  have v: "isValidMove demo_grid 4 6 = Inr True" "isValidMove demo_grid 8 6 = Inr True"
    by (rule isValidMove_free; simp add: cell_at_demo in_grid_def WIDTH_def HEIGHT_def)+
  have m: "moveEnemies (\<lambda>i. 2) 0 (grid (patrol 10)) (enemies (patrol 10))
      = Inr (enemies patrol_moved, 3)"
    by (simp add: patrol_def patrol_moved_def Enemy_update_move v)
  have "Game_update (\<lambda>i. 2) 0 now (patrol 10)
      = Inr ((patrol 10)\<lparr>enemies := enemies patrol_moved\<rparr>, 3)"
    by (rule Game_update_quiet [OF _ _ _ m])
       (simp_all add: patrol_def cell_at_demo in_grid_def WIDTH_def HEIGHT_def)
  then show ?thesis by (simp add: patrol_def patrol_moved_def)
qed

lemma patrol_eleven:
  "updates (\<lambda>i. 2) 0 (replicate 10 now @ [now]) (patrol 0) = Inr (patrol_moved, 3)"
  using patrol_run [of 0 10 "\<lambda>i. 2" 0 now] patrol_move [of now]
  by (simp add: updates_append)

text \<open>
  The theorem on that world, with \<open>rand()\<close> returning 2: at the counter 10 the
  horizontal enemy steps from \<open>(5, 6)\<close> to \<open>(4, 6)\<close>, the vertical one from \<open>(8, 5)\<close> to
  \<open>(8, 6)\<close>, the diagonal one from \<open>(5, 5)\<close> to \<open>(4, 6)\<close>; from the counter 0, ten updates
  bring the counters to 10 with no call of \<open>rand()\<close>, and the eleventh is that update.
  With \<open>RAND_MAX = 32767\<close>, 16384 values of \<open>rand()\<close> give each of the two steps.
\<close>

theorem Game_update_enemy_pattern_witness:
  "Game_update (\<lambda>i. 2) 0 0 (patrol 10) = Inr (patrol_moved, 3) \<and>
   moveEnemies (\<lambda>i. 2) 0 demo_grid (enemies (patrol 10)) = Inr (enemies patrol_moved, 3) \<and>
   updates (\<lambda>i. 2) 0 (replicate 10 0) (patrol 0) = Inr (patrol 10, 0) \<and>
   enemies (patrol 10) = map (\<lambda>e. e\<lparr>moveStep := 10\<rparr>) (enemies (patrol 0)) \<and>
   updates (\<lambda>i. 2) 0 (replicate 10 0 @ [0]) (patrol 0) = Inr (patrol_moved, 3) \<and>
   list_all (\<lambda>e. moveStep e = 0) (enemies patrol_moved) \<and>
   card {v. v < 4 * 8192 \<and>
            Enemy_update (\<lambda>i. v) 0 \<lparr>e_x = 5, e_y = 5, moveType = 2, moveStep = 10\<rparr>
              = Enemy_update (\<lambda>i. 0) 0 \<lparr>e_x = 5, e_y = 5, moveType = 2, moveStep = 10\<rparr>} = 16384 \<and>
   card {v. v < 4 * 8192 \<and>
            Enemy_update (\<lambda>i. v) 0 \<lparr>e_x = 5, e_y = 5, moveType = 2, moveStep = 10\<rparr>
              = Enemy_update (\<lambda>i. 2) 0 \<lparr>e_x = 5, e_y = 5, moveType = 2, moveStep = 10\<rparr>} = 16384"
proof -
  note t = Game_update_enemy_pattern [where rs = "\<lambda>i. 2" and k = 0 and now = 0 and k' = 3
      and st' = patrol_moved and st = "patrol 10" and nows = "[]"
      and e = "\<lparr>e_x = 5, e_y = 5, moveType = 2, moveStep = 10\<rparr>" and q = 8192]
  note u = Game_update_enemy_pattern [where rs = "\<lambda>i. 2" and k = 0 and now = 0 and k' = 0
      and st' = "patrol 10" and st = "patrol 0" and nows = "replicate 10 0"
      and e = "\<lparr>e_x = 5, e_y = 5, moveType = 2, moveStep = 10\<rparr>" and q = 8192]
  note w = Game_update_enemy_pattern [where rs = "\<lambda>i. 2" and k = 0 and now = 0 and k' = 3
      and st' = patrol_moved and st = "patrol 0" and nows = "replicate 10 0"
      and e = "\<lparr>e_x = 5, e_y = 5, moveType = 2, moveStep = 10\<rparr>" and q = 8192]
  have a: "Game_update (\<lambda>i. 2) 0 0 (patrol 10) = Inr (patrol_moved, 3)" by (rule patrol_move)
  have b: "updates (\<lambda>i. 2) 0 (replicate 10 0) (patrol 0) = Inr (patrol 10, 0)"
    using patrol_run [of 0 10 "\<lambda>i. 2" 0 0] by simp
  have c: "updates (\<lambda>i. 2) 0 (replicate 10 0 @ [0]) (patrol 0) = Inr (patrol_moved, 3)"
    by (rule patrol_eleven)
  have nb: "bombs (patrol 0) = []" "list_all (\<lambda>b. \<not> shouldExplode b 0) (bombs (patrol 10))"
    "list_all (\<lambda>e. moveStep e = 0) (enemies (patrol 0))"
    by (simp_all add: patrol_def)
  from t a nb have "moveEnemies (\<lambda>i. 2) 0 demo_grid (enemies (patrol 10)) = Inr (enemies patrol_moved, 3)"
    by (auto simp: patrol_def)
  moreover from u b nb
  have "enemies (patrol 10) = map (\<lambda>e. e\<lparr>moveStep := 10\<rparr>) (enemies (patrol 0))" by simp
  moreover from w c nb have "list_all (\<lambda>e. moveStep e = 0) (enemies patrol_moved)" by simp
  moreover from t have
    "card {v. v < 4 * 8192 \<and>
            Enemy_update (\<lambda>i. v) 0 \<lparr>e_x = 5, e_y = 5, moveType = 2, moveStep = 10\<rparr>
              = Enemy_update (\<lambda>i. 0) 0 \<lparr>e_x = 5, e_y = 5, moveType = 2, moveStep = 10\<rparr>} = 16384"
    "card {v. v < 4 * 8192 \<and>
            Enemy_update (\<lambda>i. v) 0 \<lparr>e_x = 5, e_y = 5, moveType = 2, moveStep = 10\<rparr>
              = Enemy_update (\<lambda>i. 2) 0 \<lparr>e_x = 5, e_y = 5, moveType = 2, moveStep = 10\<rparr>} = 16384"
    by simp_all
  ultimately show ?thesis using a b c by blast
qed

subsection \<open>The fuse in the world update\<close>

lemma explodeDue_single:
  assumes "shouldExplode b now" "explodeBomb b st = Inr s1"
  shows "explodeDue now 0 [b] st = Inr ([], s1)"
  using assms by (subst explodeDue.simps, simp, subst explodeDue.simps, simp)

lemma Game_update_result:
  assumes "\<not> list_ex (\<lambda>e. p_x (player st) = e_x e \<and> p_y (player st) = e_y e) (enemies st)"
    and "in_grid (p_x (player st)) (p_y (player st))"
    and "cell_at (grid st) (p_x (player st)) (p_y (player st)) \<noteq> Trap"
    and "moveEnemies rs k (grid st) (enemies st) = Inr (es, k')"
    and "explodeDue now 0 (bombs st) (st\<lparr>enemies := es\<rparr>) = Inr (bs, st1)"
    and "\<not> (p_x (player st1) = d_x (exitDoor st1) \<and> p_y (player st1) = d_y (exitDoor st1)
            \<and> visible (exitDoor st1))"
  shows "Game_update rs k now st = Inr (st1\<lparr>bombs := bs\<rparr>, k')"
proof -
  from assms(2) have r: "grid_read (grid st) (p_y (player st)) (p_x (player st))
      = Inr (cell_at (grid st) (p_x (player st)) (p_y (player st)))"
    by (simp add: grid_read_def in_grid_def cell_at_def)
  from assms(1,3,4,5,6) show ?thesis
    by (simp add: Game_update_def r holds_trap)
qed

lemma demo_enemies_count:
  "moveEnemies rs k demo_grid (enemies demo_game)
     = Inr (map (\<lambda>e. e\<lparr>moveStep := moveStep e + 1\<rparr>) (enemies demo_game), k)"
proof -
  have v: "isValidMove demo_grid 5 6 = Inr True" "isValidMove demo_grid 8 5 = Inr True"
    "isValidMove demo_grid 5 5 = Inr True"
    by (rule isValidMove_free; simp add: cell_at_demo in_grid_def WIDTH_def HEIGHT_def)+
  show ?thesis
    by (rule moveEnemies_counting) (auto simp: demo_game_def v)
qed

lemma demo_early:
  assumes "now < 3000000000"
  shows "Game_update rs k now demo_game
     = Inr (demo_game\<lparr>enemies := map (\<lambda>e. e\<lparr>moveStep := moveStep e + 1\<rparr>) (enemies demo_game)\<rparr>, k)"
proof -
  have m: "moveEnemies rs k (grid demo_game) (enemies demo_game)
     = Inr (map (\<lambda>e. e\<lparr>moveStep := moveStep e + 1\<rparr>) (enemies demo_game), k)"
    using demo_enemies_count [of rs k] by (simp add: demo_game_def)
  show ?thesis
    using assms
    by (intro Game_update_quiet [OF _ _ _ m])
       (simp_all add: demo_game_def cell_at_demo in_grid_def WIDTH_def HEIGHT_def
          shouldExplode_def duration_cast_seconds_ge3)
qed

lemma demo_due:
  assumes "3000000000 \<le> now"
  shows "\<exists>st'. Game_update rs k now demo_game = Inr (st', k)"
proof -
  let ?es = "map (\<lambda>e. e\<lparr>moveStep := moveStep e + 1\<rparr>) (enemies demo_game)"
  let ?b = "\<lparr>b_x = 5, b_y = 5, plantTime = 0\<rparr>"
  have m: "moveEnemies rs k (grid demo_game) (enemies demo_game) = Inr (?es, k)"
    using demo_enemies_count [of rs k] by (simp add: demo_game_def)
  have "explodeBomb ?b (demo_game\<lparr>enemies := ?es\<rparr>) \<noteq> Inl h" for h
    by (simp add: explodeBomb_Inl demo_game_def wf_demo blasted_of_def directions_def
        cell_at_demo in_grid_def WIDTH_def HEIGHT_def)
  then obtain s1 where e: "explodeBomb ?b (demo_game\<lparr>enemies := ?es\<rparr>) = Inr s1"
    by (cases "explodeBomb ?b (demo_game\<lparr>enemies := ?es\<rparr>)") auto
  have wf: "wf_grid (grid (demo_game\<lparr>enemies := ?es\<rparr>))" by (simp add: demo_game_def wf_demo)
  note r = explodeBomb_Inr [OF e wf]
  from assms have due: "shouldExplode ?b now"
    by (simp add: shouldExplode_def duration_cast_seconds_ge3)
  from explodeDue_single [OF due e]
  have d: "explodeDue now 0 (bombs demo_game) (demo_game\<lparr>enemies := ?es\<rparr>) = Inr ([], s1)"
    by (simp add: demo_game_def)
  have p: "p_x (player s1) = 1" "p_y (player s1) = 1" "d_x (exitDoor s1) = 5"
    using r(2,6) by (simp_all add: reloadBomb_def demo_game_def)
  have "Game_update rs k now demo_game = Inr (s1\<lparr>bombs := []\<rparr>, k)"
    using p by (intro Game_update_result [OF _ _ _ m d])
      (simp_all add: demo_game_def cell_at_demo in_grid_def WIDTH_def HEIGHT_def)
  then show ?thesis by blast
qed

text \<open>
  C4.  \<open>shouldExplode\<close> is false as long as the time since \<open>plantTime\<close> is below 3000 ms
  (3000 * 1000000 ns) and true from 3000 ms on.  \<open>plantBomb\<close>, when it plants, appends a
  bomb whose \<open>plantTime\<close> is the time of planting.  One call of \<open>Game::update\<close> that
  returns keeps exactly the bombs that are younger than 3000 ms, and the world it leaves
  is the one that \<open>explodeBomb\<close>, run for each of the other bombs, leaves: a bomb stays
  planted through every update before its 3000 ms, and is detonated and removed by the
  first update that finds it at 3000 ms or more.
\<close>

theorem Game_update_fuse:
  "shouldExplode b now = (now - plantTime b \<ge> 3000 * 1000000) \<and>
   (plantBomb now st = Inr st' \<and> bombs st' \<noteq> bombs st \<longrightarrow>
      bombs st' = bombs st @ [\<lparr>b_x = p_x (player st), b_y = p_y (player st), plantTime = now\<rparr>]) \<and>
   (Game_update rs k now st = Inr (st', k') \<longrightarrow>
      mset (bombs st') = {#b \<in># mset (bombs st). now - plantTime b < 3000 * 1000000#} \<and>
      (\<exists>es ds st1.
         moveEnemies rs k (grid st) (enemies st) = Inr (es, k') \<and>
         mset ds = {#b \<in># mset (bombs st). now - plantTime b \<ge> 3000 * 1000000#} \<and>
         for_each ds explodeBomb (st\<lparr>enemies := es\<rparr>) = Inr st1 \<and>
         st' = st1\<lparr>bombs := bombs st'\<rparr>))"
proof (intro conjI impI)
  show t: "shouldExplode b now = (now - plantTime b \<ge> 3000 * 1000000)" for b
    by (simp add: shouldExplode_def duration_cast_seconds_ge3)
  {
    assume "plantBomb now st = Inr st' \<and> bombs st' \<noteq> bombs st"
    then show "bombs st' = bombs st @ [\<lparr>b_x = p_x (player st), b_y = p_y (player st), plantTime = now\<rparr>]"
      by (auto simp: plantBomb_def split: if_splits)
  }
  assume u: "Game_update rs k now st = Inr (st', k')"
  then obtain es bs st1 where
    m: "moveEnemies rs k (grid st) (enemies st) = Inr (es, k')"
    and e: "explodeDue now 0 (bombs st) (st\<lparr>enemies := es\<rparr>) = Inr (bs, st1)"
    and st': "st' = st1\<lparr>bombs := bs\<rparr>"
    by (rule Game_update_Inr)
  from explodeDue_Inr [OF e] obtain ds where
    kept: "mset bs = {#b \<in># mset (bombs st). \<not> shouldExplode b now#}"
    and ds: "mset ds = {#b \<in># mset (bombs st). shouldExplode b now#}"
    and run: "for_each ds explodeBomb (st\<lparr>enemies := es\<rparr>) = Inr st1"
    by auto
  from st' have b: "bombs st' = bs" by simp
  from kept b show "mset (bombs st') = {#b \<in># mset (bombs st). now - plantTime b < 3000 * 1000000#}"
    by (simp add: t not_le)
  from ds have "mset ds = {#b \<in># mset (bombs st). now - plantTime b \<ge> 3000 * 1000000#}"
    by (simp add: t)
  moreover from st' b have "st' = st1\<lparr>bombs := bombs st'\<rparr>" by simp
  ultimately show "\<exists>es ds st1.
         moveEnemies rs k (grid st) (enemies st) = Inr (es, k') \<and>
         mset ds = {#b \<in># mset (bombs st). now - plantTime b \<ge> 3000 * 1000000#} \<and>
         for_each ds explodeBomb (st\<lparr>enemies := es\<rparr>) = Inr st1 \<and>
         st' = st1\<lparr>bombs := bombs st'\<rparr>"
    using m run by blast
qed

text \<open>
  The demo world, whose one bomb was planted at time 0, one nanosecond before and at
  3000 ms: the earlier update keeps the bomb, the later one returns a world without it;
  and \<open>plantBomb\<close> at time 5 in that world.
\<close>

theorem Game_update_fuse_witness:
  "(\<exists>st'. Game_update (\<lambda>i. 2) 0 2999999999 demo_game = Inr (st', 0) \<and>
          bombs st' = [\<lparr>b_x = 5, b_y = 5, plantTime = 0\<rparr>]) \<and>
   (\<exists>st'. Game_update (\<lambda>i. 2) 0 3000000000 demo_game = Inr (st', 0) \<and> bombs st' = []) \<and>
   (\<exists>st'. plantBomb 5 demo_game = Inr st' \<and>
          bombs st' = [\<lparr>b_x = 5, b_y = 5, plantTime = 0\<rparr>, \<lparr>b_x = 1, b_y = 1, plantTime = 5\<rparr>])"
proof -
  from demo_early [of 2999999999 "\<lambda>i. 2" 0] obtain s where
    s: "Game_update (\<lambda>i. 2) 0 2999999999 demo_game = Inr (s, 0)" by simp
  from demo_due [of 3000000000 "\<lambda>i. 2" 0] obtain s' where
    s': "Game_update (\<lambda>i. 2) 0 3000000000 demo_game = Inr (s', 0)" by auto
  obtain p where p: "plantBomb 5 demo_game = Inr p" "bombs p \<noteq> bombs demo_game"
    by (simp add: plantBomb_def demo_game_def canPlantBomb_def NUM_BOMBS_def)
  from Game_update_fuse [where st = demo_game and now = 2999999999 and rs = "\<lambda>i. 2" and k = 0
      and st' = s and k' = 0] s
  have "mset (bombs s) = {#\<lparr>b_x = 5, b_y = 5, plantTime = 0\<rparr>#}" by (simp add: demo_game_def)
  then have a: "bombs s = [\<lparr>b_x = 5, b_y = 5, plantTime = 0\<rparr>]"
    by (metis mset_single_iff_right mset.simps(1) mset.simps(2))
  from Game_update_fuse [where st = demo_game and now = 3000000000 and rs = "\<lambda>i. 2" and k = 0
      and st' = s' and k' = 0] s'
  have b: "bombs s' = []" by (simp add: demo_game_def)
  from Game_update_fuse [where st = demo_game and now = 5 and st' = p] p
  have c: "bombs p = [\<lparr>b_x = 5, b_y = 5, plantTime = 0\<rparr>, \<lparr>b_x = 1, b_y = 1, plantTime = 5\<rparr>]"
    by (simp add: demo_game_def)
  from s a s' b p(1) c show ?thesis by blast
qed

subsection \<open>Procedural generation\<close>

lemma interior_in_grid: "interior x y \<Longrightarrow> in_grid x y"
  by (simp add: interior_def in_grid_def)

lemma free_pick_later: "free_pick g (Suc (Suc k)) r \<Longrightarrow> free_pick g k r"
  by (simp add: free_pick_def)

lemma randomFreeCell_Some:
  assumes "randomFreeCell rs g k = Some r"
  shows "free_pick g k r"
proof (rule randomFreeCell.raw_induct [OF _ assms, where P = "\<lambda>rs g k r. free_pick g k r"])
  fix f :: "rng \<Rightarrow> grid \<Rightarrow> nat \<Rightarrow> (int \<times> int \<times> nat) option" and rs g k r
  let ?x = "int (rs k) mod (WIDTH - 2) + 1" and ?y = "int (rs (Suc k)) mod (HEIGHT - 2) + 1"
  assume IH: "\<And>rs g k r. f rs g k = Some r \<Longrightarrow> free_pick g k r"
    and body: "(if g ! nat ?y ! nat ?x \<noteq> Nullptr \<or> (?x = 1 \<and> ?y = 1)
                then f rs g (Suc (Suc k)) else Some (?x, ?y, Suc (Suc k))) = Some r"
  show "free_pick g k r"
  proof (cases "g ! nat ?y ! nat ?x \<noteq> Nullptr \<or> (?x = 1 \<and> ?y = 1)")
    case True
    with body have "f rs g (Suc (Suc k)) = Some r" by (simp split: if_splits)
    from free_pick_later [OF IH [OF this]] show ?thesis .
  next
    case False
    with body have r: "r = (?x, ?y, Suc (Suc k))" by (auto split: if_splits)
    have "0 \<le> int (rs k) mod (WIDTH - 2)" "int (rs k) mod (WIDTH - 2) < WIDTH - 2"
      "0 \<le> int (rs (Suc k)) mod (HEIGHT - 2)" "int (rs (Suc k)) mod (HEIGHT - 2) < HEIGHT - 2"
      by (simp_all add: WIDTH_def HEIGHT_def)
    then have "interior ?x ?y" by (simp add: interior_def)
    with False r show ?thesis by (simp add: free_pick_def cell_at_def)
  qed
qed

lemma fold_inv:
  "(\<And>x s. x \<in> set xs \<Longrightarrow> I s \<Longrightarrow> I (f x s)) \<Longrightarrow> I s \<Longrightarrow> I (fold f xs s)"
  by (induction xs arbitrary: s) simp_all

lemma fold_establish:
  assumes "x0 \<in> set xs"
    and est: "\<And>s. I s \<Longrightarrow> Q (f x0 s)"
    and pres: "\<And>x s. x \<in> set xs \<Longrightarrow> I s \<Longrightarrow> Q s \<Longrightarrow> Q (f x s)"
    and inv: "\<And>x s. x \<in> set xs \<Longrightarrow> I s \<Longrightarrow> I (f x s)"
    and "I s"
  shows "I (fold f xs s) \<and> Q (fold f xs s)"
proof -
  have keep: "set ys \<subseteq> set xs \<Longrightarrow> I s \<Longrightarrow> Q s \<Longrightarrow> I (fold f ys s) \<and> Q (fold f ys s)" for ys s
    by (induction ys arbitrary: s) (simp_all add: pres inv)
  have "set ys \<subseteq> set xs \<Longrightarrow> x0 \<in> set ys \<Longrightarrow> I s \<Longrightarrow> I (fold f ys s) \<and> Q (fold f ys s)" for ys
  proof (induction ys arbitrary: s)
    case Nil
    then show ?case by simp
  next
    case (Cons a ys)
    then have a: "a \<in> set xs" and sub: "set ys \<subseteq> set xs" by simp_all
    show ?case
    proof (cases "a = x0")
      case True
      with Cons.prems a have "I (f a s)" "Q (f a s)" by (simp_all add: inv est)
      from keep [OF sub this] show ?thesis by simp
    next
      case False
      with Cons.prems a have "x0 \<in> set ys" "I (f a s)" by (simp_all add: inv)
      from Cons.IH [OF sub this] show ?thesis by simp
    qed
  qed
  from this [OF subset_refl assms(1,5)] show ?thesis .
qed

lemma fillCell_cases:
  "fst (fillCell rs i j (g, k)) = g \<and> \<not> on_border j i \<or>
   fst (fillCell rs i j (g, k)) = grid_write g i j IndestructibleBlock \<or>
   fst (fillCell rs i j (g, k)) = grid_write g i j (DestructibleBlock False) \<and> \<not> on_border j i"
  by (auto simp: fillCell_def on_border_def)

lemma fillCell_border:
  "on_border j i \<Longrightarrow> fst (fillCell rs i j (g, k)) = grid_write g i j IndestructibleBlock"
  by (auto simp: fillCell_def on_border_def)

lemma fillCell_plain:
  assumes "plain_or g0 (fst s)" "in_grid j i"
  shows "plain_or g0 (fst (fillCell rs i j s))"
proof -
  obtain g k where s: "s = (g, k)" by (cases s)
  from assms(1) s have wf: "wf_grid g" by (simp add: plain_or_def)
  have cell: "cell_at g x y = cell_at g0 x y \<or> cell_at g x y = IndestructibleBlock \<or>
         cell_at g x y = DestructibleBlock False" if "in_grid x y" for x y
    using assms(1) s that by (simp add: plain_or_def)
  show ?thesis
    unfolding plain_or_def s
  proof (intro conjI allI impI)
    from fillCell_cases [of rs i j g k] wf show "wf_grid (fst (fillCell rs i j (g, k)))"
      by (auto simp: wf_grid_write)
  next
    fix x y assume xy: "in_grid x y"
    from fillCell_cases [of rs i j g k] cell [OF xy]
    show "cell_at (fst (fillCell rs i j (g, k))) x y = cell_at g0 x y \<or>
          cell_at (fst (fillCell rs i j (g, k))) x y = IndestructibleBlock \<or>
          cell_at (fst (fillCell rs i j (g, k))) x y = DestructibleBlock False"
      by (auto simp: cell_at_write [OF wf assms(2) xy] split: if_splits)
  qed
qed

lemma fillCell_keeps_border:
  assumes "plain_or g0 (fst s)" "in_grid j i" "in_grid x y"
    "cell_at (fst s) x y = IndestructibleBlock" "on_border x y"
  shows "cell_at (fst (fillCell rs i j s)) x y = IndestructibleBlock"
proof -
  obtain g k where s: "s = (g, k)" by (cases s)
  from assms(1) s have wf: "wf_grid g" by (simp add: plain_or_def)
  from fillCell_cases [of rs i j g k] assms s show ?thesis
    by (auto simp: cell_at_write [OF wf])
qed

lemma fillCell_sets_border:
  assumes "plain_or g0 (fst s)" "on_border x y"
  shows "cell_at (fst (fillCell rs y x s)) x y = IndestructibleBlock"
proof -
  obtain g k where s: "s = (g, k)" by (cases s)
  from assms(1) s have wf: "wf_grid g" by (simp add: plain_or_def)
  from assms(2) have ing: "in_grid x y" by (simp add: on_border_def)
  from fillCell_border [OF assms(2), of rs g k] s show ?thesis
    by (simp add: cell_at_write [OF wf ing ing])
qed

lemma in_grid_nat: "i < nat HEIGHT \<Longrightarrow> j < nat WIDTH \<Longrightarrow> in_grid (int j) (int i)"
  by (auto simp: in_grid_def)

lemma fill_row_plain:
  assumes "plain_or g0 (fst s)" "i < nat HEIGHT"
  shows "plain_or g0 (fst (fold (\<lambda>j. fillCell rs (int i) (int j)) [0..<nat WIDTH] s))"
  by (rule fold_inv [where I = "\<lambda>s. plain_or g0 (fst s)", OF _ assms(1)])
     (simp add: fillCell_plain in_grid_nat assms(2))

lemma addBlocks_plain:
  assumes "wf_grid g0"
  shows "plain_or g0 (fst (addBlocks rs (g0, k)))"
  unfolding addBlocks_def
proof (rule fold_inv [where I = "\<lambda>s. plain_or g0 (fst s)"])
  show "plain_or g0 (fst (fold (\<lambda>j. fillCell rs (int i) (int j)) [0..<nat WIDTH] s))"
    if "i \<in> set [0..<nat HEIGHT]" "plain_or g0 (fst s)" for i s
    using that by (intro fill_row_plain) simp_all
  show "plain_or g0 (fst (g0, k))" using assms by (simp add: plain_or_def)
qed

lemma fill_row_keeps_border:
  assumes "plain_or g0 (fst s)" "i < nat HEIGHT" "on_border x y"
    "cell_at (fst s) x y = IndestructibleBlock"
  shows "cell_at (fst (fold (\<lambda>j. fillCell rs (int i) (int j)) [0..<nat WIDTH] s)) x y
           = IndestructibleBlock"
proof -
  from assms(3) have ing: "in_grid x y" by (simp add: on_border_def)
  have "plain_or g0 (fst (fold (\<lambda>j. fillCell rs (int i) (int j)) [0..<nat WIDTH] s)) \<and>
        cell_at (fst (fold (\<lambda>j. fillCell rs (int i) (int j)) [0..<nat WIDTH] s)) x y
           = IndestructibleBlock"
  proof (rule fold_inv [where I = "\<lambda>s. plain_or g0 (fst s) \<and> cell_at (fst s) x y = IndestructibleBlock"])
    show "plain_or g0 (fst (fillCell rs (int i) (int j) s)) \<and>
          cell_at (fst (fillCell rs (int i) (int j) s)) x y = IndestructibleBlock"
      if "j \<in> set [0..<nat WIDTH]"
         "plain_or g0 (fst s) \<and> cell_at (fst s) x y = IndestructibleBlock" for j s
    proof -
      from that assms(2) have ji: "in_grid (int j) (int i)" by (simp add: in_grid_nat)
      from that have p: "plain_or g0 (fst s)" and c: "cell_at (fst s) x y = IndestructibleBlock"
        by simp_all
      show ?thesis
        using fillCell_plain [OF p ji] fillCell_keeps_border [OF p ji ing c assms(3)] by simp
    qed
    show "plain_or g0 (fst s) \<and> cell_at (fst s) x y = IndestructibleBlock"
      using assms by simp
  qed
  then show ?thesis by simp
qed

lemma fill_row_sets_border:
  assumes "plain_or g0 (fst s)" "on_border x y"
  shows "cell_at (fst (fold (\<lambda>j. fillCell rs (int (nat y)) (int j)) [0..<nat WIDTH] s)) x y
           = IndestructibleBlock"
proof -
  from assms(2) have ing: "in_grid x y" by (simp add: on_border_def)
  then have xy: "nat x < nat WIDTH" "nat y < nat HEIGHT" "int (nat x) = x" "int (nat y) = y"
    by (auto simp: in_grid_def)
  have "plain_or g0 (fst (fold (\<lambda>j. fillCell rs (int (nat y)) (int j)) [0..<nat WIDTH] s)) \<and>
        cell_at (fst (fold (\<lambda>j. fillCell rs (int (nat y)) (int j)) [0..<nat WIDTH] s)) x y
           = IndestructibleBlock"
  proof (rule fold_establish [where ?x0.0 = "nat x" and I = "\<lambda>s. plain_or g0 (fst s)"
          and Q = "\<lambda>s. cell_at (fst s) x y = IndestructibleBlock"])
    show "nat x \<in> set [0..<nat WIDTH]" using xy by simp
    show "cell_at (fst (fillCell rs (int (nat y)) (int (nat x)) s)) x y = IndestructibleBlock"
      if "plain_or g0 (fst s)" for s
      using fillCell_sets_border [OF that assms(2), of rs] xy by simp
    show "cell_at (fst (fillCell rs (int (nat y)) (int j) s)) x y = IndestructibleBlock"
      if "j \<in> set [0..<nat WIDTH]" "plain_or g0 (fst s)" "cell_at (fst s) x y = IndestructibleBlock"
      for j s
    proof -
      from that(1) xy have "in_grid (int j) (int (nat y))" by (intro in_grid_nat) simp_all
      from fillCell_keeps_border [OF that(2) this ing that(3) assms(2)] show ?thesis .
    qed
    show "plain_or g0 (fst (fillCell rs (int (nat y)) (int j) s))"
      if "j \<in> set [0..<nat WIDTH]" "plain_or g0 (fst s)" for j s
    proof -
      from that(1) xy have "in_grid (int j) (int (nat y))" by (intro in_grid_nat) simp_all
      from fillCell_plain [OF that(2) this] show ?thesis .
    qed
    show "plain_or g0 (fst s)" by (rule assms(1))
  qed
  then show ?thesis by simp
qed

lemma addBlocks_border:
  assumes "wf_grid g0" "on_border x y"
  shows "cell_at (fst (addBlocks rs (g0, k))) x y = IndestructibleBlock"
proof -
  from assms(2) have ing: "in_grid x y" by (simp add: on_border_def)
  then have xy: "nat y < nat HEIGHT" by (auto simp: in_grid_def)
  let ?F = "\<lambda>i. fold (\<lambda>j. fillCell rs (int i) (int j)) [0..<nat WIDTH]"
  have "plain_or g0 (fst (fold ?F [0..<nat HEIGHT] (g0, k))) \<and>
        cell_at (fst (fold ?F [0..<nat HEIGHT] (g0, k))) x y = IndestructibleBlock"
  proof (rule fold_establish [where ?x0.0 = "nat y" and I = "\<lambda>s. plain_or g0 (fst s)"
          and Q = "\<lambda>s. cell_at (fst s) x y = IndestructibleBlock"])
    show "nat y \<in> set [0..<nat HEIGHT]" using xy by simp
    show "cell_at (fst (?F (nat y) s)) x y = IndestructibleBlock" if "plain_or g0 (fst s)" for s
      by (rule fill_row_sets_border [OF that assms(2)])
    show "cell_at (fst (?F i s)) x y = IndestructibleBlock"
      if "i \<in> set [0..<nat HEIGHT]" "plain_or g0 (fst s)" "cell_at (fst s) x y = IndestructibleBlock"
      for i s
      using that by (intro fill_row_keeps_border [OF _ _ assms(2)]) simp_all
    show "plain_or g0 (fst (?F i s))" if "i \<in> set [0..<nat HEIGHT]" "plain_or g0 (fst s)" for i s
      using that by (intro fill_row_plain) simp_all
    show "plain_or g0 (fst (g0, k))" using assms(1) by (simp add: plain_or_def)
  qed
  then show ?thesis by (simp add: addBlocks_def)
qed

lemma start_area_in_grid: "start_area x y \<Longrightarrow> in_grid x y"
  by (simp add: start_area_def in_grid_def WIDTH_def HEIGHT_def)

lemma start_area_interior: "start_area x y \<Longrightarrow> interior x y"
  by (simp add: start_area_def interior_def WIDTH_def HEIGHT_def)

lemma interior_not_border: "interior x y \<Longrightarrow> \<not> on_border x y"
  by (auto simp: interior_def on_border_def)

lemma wf_clearStart: "wf_grid g \<Longrightarrow> wf_grid (clearStart g)"
  by (simp add: clearStart_def wf_grid_write)

lemma cell_at_clearStart:
  assumes "wf_grid g" "in_grid x y"
  shows "cell_at (clearStart g) x y = (if start_area x y then Nullptr else cell_at g x y)"
proof -
  have lit: "in_grid 1 1" "in_grid 2 1" "in_grid 3 1" "in_grid 1 2" "in_grid 2 2" "in_grid 3 2"
    "in_grid 1 3" "in_grid 2 3" "in_grid 3 3"
    by (simp_all add: in_grid_def WIDTH_def HEIGHT_def)
  have "start_area x y = ((x = 1 \<or> x = 2 \<or> x = 3) \<and> (y = 1 \<or> y = 2 \<or> y = 3))"
    by (auto simp: start_area_def)
  then show ?thesis
    using assms by (auto simp: clearStart_def cell_at_write wf_grid_write lit)
qed

lemma count_write_null:
  assumes "wf_grid g" "in_grid x y" "\<not> P Nullptr"
  shows "count_cells P (grid_write g y x Nullptr) \<le> count_cells P g"
    and "count_cells P g \<le> count_cells P (grid_write g y x Nullptr) + 1"
    and "\<not> P (cell_at g x y) \<Longrightarrow> count_cells P (grid_write g y x Nullptr) = count_cells P g"
  using count_cells_write [OF assms(1,2), of P Nullptr] assms(3)
  by (simp_all split: if_splits)

lemma count_clear_list:
  assumes "\<not> P Nullptr"
  shows "wf_grid g \<Longrightarrow> \<forall>p \<in> set ps. in_grid (snd p) (fst p) \<Longrightarrow>
     wf_grid (fold (\<lambda>p g. grid_write g (fst p) (snd p) Nullptr) ps g) \<and>
     count_cells P (fold (\<lambda>p g. grid_write g (fst p) (snd p) Nullptr) ps g) \<le> count_cells P g \<and>
     count_cells P g \<le> count_cells P (fold (\<lambda>p g. grid_write g (fst p) (snd p) Nullptr) ps g) + length ps"
proof (induction ps arbitrary: g)
  case Nil
  then show ?case by simp
next
  case (Cons p ps)
  let ?g = "grid_write g (fst p) (snd p) Nullptr"
  from Cons.prems have ing: "in_grid (snd p) (fst p)" and rest: "\<forall>p \<in> set ps. in_grid (snd p) (fst p)"
    by simp_all
  have wf: "wf_grid ?g" using Cons.prems(1) by (rule wf_grid_write)
  from Cons.IH [OF wf rest]
    count_write_null(1,2) [where P = P and g = g and x = "snd p" and y = "fst p",
      OF Cons.prems(1) ing assms]
  show ?case by simp
qed

lemma clearStart_list:
  "clearStart g =
     fold (\<lambda>p g. grid_write g (fst p) (snd p) Nullptr)
       [(1, 2), (1, 3), (2, 1), (2, 2), (2, 3), (3, 1), (3, 2), (3, 3)] (grid_write g 1 1 Nullptr)"
  by (simp add: clearStart_def)

lemma count_clearStart:
  assumes "wf_grid g" "\<not> P Nullptr"
  shows "count_cells P (clearStart g) \<le> count_cells P g"
    and "\<not> P (cell_at g 1 1) \<Longrightarrow> count_cells P g \<le> count_cells P (clearStart g) + 8"
proof -
  let ?g = "grid_write g 1 1 Nullptr"
  have ing: "in_grid 1 1" by (simp add: in_grid_def WIDTH_def HEIGHT_def)
  have wf: "wf_grid ?g" using assms(1) by (rule wf_grid_write)
  have "\<forall>p \<in> set [(1, 2), (1, 3), (2, 1), (2, 2), (2, 3), (3, 1), (3, 2), (3, 3::int)].
          in_grid (snd p) (fst p :: int)"
    by (simp add: in_grid_def WIDTH_def HEIGHT_def)
  from count_clear_list [where P = P and g = ?g, OF assms(2) wf this]
  have le: "count_cells P (clearStart g) \<le> count_cells P ?g"
    and ge: "count_cells P ?g \<le> count_cells P (clearStart g) + 8"
    by (simp_all add: clearStart_list)
  from le count_write_null(1) [where P = P and g = g, OF assms(1) ing assms(2)]
  show "count_cells P (clearStart g) \<le> count_cells P g" by simp
  show "count_cells P g \<le> count_cells P (clearStart g) + 8" if "\<not> P (cell_at g 1 1)"
    using ge count_write_null(3) [where P = P and g = g, OF assms(1) ing assms(2) that] by simp
qed

lemma addTraps_result:
  assumes "addTraps rs n (g, k) = Some (g', k')" "wf_grid g"
  shows "wf_grid g' \<and> count_cells is_trap g' = count_cells is_trap g + n \<and>
     (\<forall>x y. in_grid x y \<longrightarrow>
        cell_at g' x y = cell_at g x y \<or>
        (cell_at g x y = Nullptr \<and> cell_at g' x y = Trap \<and> interior x y \<and> \<not> (x = 1 \<and> y = 1)))"
  using assms
proof (induction n arbitrary: g k)
  case 0
  then show ?case by simp
next
  case (Suc n)
  from Suc.prems(1) obtain x y k1 where
    pick: "randomFreeCell rs g k = Some (x, y, k1)"
    and rest: "addTraps rs n (grid_write g y x Trap, k1) = Some (g', k')"
    by (auto split: option.splits)
  from randomFreeCell_Some [OF pick] have
    free: "interior x y" "cell_at g x y = Nullptr" "\<not> (x = 1 \<and> y = 1)"
    by (simp_all add: free_pick_def)
  from free(1) have ing: "in_grid x y" by (rule interior_in_grid)
  let ?g = "grid_write g y x Trap"
  have wf: "wf_grid ?g" using Suc.prems(2) by (rule wf_grid_write)
  note ih = Suc.IH [OF rest wf]
  have cnt: "count_cells is_trap ?g = count_cells is_trap g + 1"
    using count_cells_write [OF Suc.prems(2) ing, of is_trap Trap] free(2)
    by (simp add: is_trap_def)
  show ?case
  proof (intro conjI allI impI)
    from ih show "wf_grid g'" by simp
    from ih cnt show "count_cells is_trap g' = count_cells is_trap g + Suc n" by simp
  next
    fix a b assume ab: "in_grid a b"
    from ih ab have
      "cell_at g' a b = cell_at ?g a b \<or>
       (cell_at ?g a b = Nullptr \<and> cell_at g' a b = Trap \<and> interior a b \<and> \<not> (a = 1 \<and> b = 1))"
      by blast
    then show "cell_at g' a b = cell_at g a b \<or>
       (cell_at g a b = Nullptr \<and> cell_at g' a b = Trap \<and> interior a b \<and> \<not> (a = 1 \<and> b = 1))"
      using free by (auto simp: cell_at_write [OF Suc.prems(2) ing ab] split: if_splits)
  qed
qed

lemma addEnemies_result:
  assumes "addEnemies rs g i n k = Some (es, k')"
  shows "length es = n \<and>
     (\<forall>j < n. placed g (es ! j) \<and> moveType (es ! j) = int (i + j) mod 3)"
  using assms
proof (induction n arbitrary: i k es)
  case 0
  then show ?case by simp
next
  case (Suc n)
  from Suc.prems obtain x y k1 es1 where
    pick: "randomFreeCell rs g k = Some (x, y, k1)"
    and rest: "addEnemies rs g (Suc i) n k1 = Some (es1, k')"
    and es: "es = \<lparr>e_x = x, e_y = y, moveType = int i mod 3, moveStep = 0\<rparr> # es1"
    by (auto split: option.splits)
  from randomFreeCell_Some [OF pick] have
    free: "interior x y" "cell_at g x y = Nullptr" "\<not> (x = 1 \<and> y = 1)"
    by (simp_all add: free_pick_def)
  note ih = Suc.IH [OF rest]
  show ?case
  proof (intro conjI allI impI)
    from ih es show "length es = Suc n" by simp
  next
    fix j assume j: "j < Suc n"
    show "placed g (es ! j)"
    proof (cases j)
      case 0
      with es free show ?thesis by (simp add: placed_def)
    next
      case (Suc j')
      with j ih es show ?thesis by simp
    qed
    show "moveType (es ! j) = int (i + j) mod 3"
    proof (cases j)
      case 0
      with es show ?thesis by simp
    next
      case (Suc j')
      with j ih es show ?thesis by simp
    qed
  qed
qed

lemma count_n: "nat ((HEIGHT + WIDTH) div 10) = 9"
  by (simp add: HEIGHT_def WIDTH_def)

lemma Game_ctor_Some:
  assumes "Game_ctor rs k0 = Some (st, k)"
  obtains g1 k1 k2 where
    "addTraps rs 9 (fst (addBlocks rs (blank_grid, k0)), snd (addBlocks rs (blank_grid, k0)))
       = Some (g1, k1)"
    "addEnemies rs g1 0 9 k1 = Some (enemies st, k2)"
    "randomFreeCell rs (clearStart g1) k2 = Some (d_x (exitDoor st), d_y (exitDoor st), k)"
    "grid st = grid_write (clearStart g1) (d_y (exitDoor st)) (d_x (exitDoor st))
                 (DestructibleBlock True)"
    "player st = \<lparr>p_x = 1, p_y = 1, hasBombs = NUM_BOMBS\<rparr>" "bombs st = []"
    "bombsCap st = nat NUM_BOMBS" "visible (exitDoor st) = False" "bombsPlanted st = 0"
proof -
  from assms obtain g1 k1 where
    t: "addTraps rs 9 (addBlocks rs (blank_grid, k0)) = Some (g1, k1)"
    by (auto simp: Game_ctor_def initializeGame_def count_n split: option.splits)
  from assms t obtain es k2 where
    e: "addEnemies rs g1 0 9 k1 = Some (es, k2)"
    by (auto simp: Game_ctor_def initializeGame_def count_n split: option.splits)
  from assms t e obtain exitX exitY where
    d: "randomFreeCell rs (clearStart g1) k2 = Some (exitX, exitY, k)"
    and st: "st = \<lparr>grid = grid_write (clearStart g1) exitY exitX (DestructibleBlock True),
                   player = \<lparr>p_x = 1, p_y = 1, hasBombs = NUM_BOMBS\<rparr>,
                   enemies = es,
                   bombs = [],
                   bombsCap = nat NUM_BOMBS,
                   exitDoor = \<lparr>d_x = exitX, d_y = exitY, visible = False\<rparr>,
                   bombsPlanted = 0\<rparr>"
    by (auto simp: Game_ctor_def initializeGame_def count_n split: option.splits)
  show thesis
    by (rule that [of g1 k1 k2]) (simp_all add: t e d st)
qed

lemma blocks_plain:
  assumes "in_grid x y"
  shows "cell_at (fst (addBlocks rs (blank_grid, k0))) x y \<in>
           {Nullptr, IndestructibleBlock, DestructibleBlock False}"
  using addBlocks_plain [OF wf_blank, of rs k0] assms
  by (auto simp: plain_or_def cell_at_blank)

text \<open>The grid before the clearing of the start area: \<open>g1\<close> of \<open>initializeGame\<close>.\<close>

lemma trapped_grid:
  assumes "addTraps rs 9 (fst (addBlocks rs (blank_grid, k0)), k') = Some (g1, k1)"
  shows "wf_grid g1" and "count_cells is_trap g1 = 9"
    and "in_grid x y \<Longrightarrow> plain_cell (cell_at g1 x y)"
    and "on_border x y \<Longrightarrow> cell_at g1 x y = IndestructibleBlock"
    and "cell_at g1 1 1 \<noteq> Trap"
proof -
  let ?gb = "fst (addBlocks rs (blank_grid, k0))"
  have wfb: "wf_grid ?gb" using addBlocks_plain [OF wf_blank, of rs k0] by (simp add: plain_or_def)
  note r = addTraps_result [OF assms wfb]
  from r show "wf_grid g1" by simp
  have "\<not> is_trap (cell_at ?gb a b)" if "in_grid a b" for a b
    using blocks_plain [OF that, of rs k0] by (auto simp: is_trap_def)
  then have "count_cells is_trap ?gb = 0"
    unfolding count_cells_0 [OF wfb] by blast
  with r show "count_cells is_trap g1 = 9" by simp
  have cell: "cell_at g1 a b = cell_at ?gb a b \<or>
        (cell_at ?gb a b = Nullptr \<and> cell_at g1 a b = Trap \<and> interior a b \<and> \<not> (a = 1 \<and> b = 1))"
    if "in_grid a b" for a b
    using r that by blast
  show "plain_cell (cell_at g1 x y)" if "in_grid x y"
    using cell [OF that] blocks_plain [OF that, of rs k0] by (auto simp: plain_cell_def)
  show "cell_at g1 x y = IndestructibleBlock" if "on_border x y"
  proof -
    from that have ing: "in_grid x y" by (simp add: on_border_def)
    from cell [OF ing] addBlocks_border [OF wf_blank that, of rs k0] show ?thesis by auto
  qed
  have "in_grid 1 1" by (simp add: in_grid_def WIDTH_def HEIGHT_def)
  from cell [OF this] blocks_plain [OF this, of rs k0] show "cell_at g1 1 1 \<noteq> Trap" by auto
qed

lemma Game_ctor_grid:
  assumes "Game_ctor rs k0 = Some (st, k)"
  shows "wf_grid (grid st)"
    and "interior (d_x (exitDoor st)) (d_y (exitDoor st))"
    and "\<not> (d_x (exitDoor st) = 1 \<and> d_y (exitDoor st) = 1)"
    and "in_grid x y \<Longrightarrow>
           (if x = d_x (exitDoor st) \<and> y = d_y (exitDoor st)
            then cell_at (grid st) x y = DestructibleBlock True
            else plain_cell (cell_at (grid st) x y))"
    and "on_border x y \<Longrightarrow> cell_at (grid st) x y = IndestructibleBlock"
    and "start_area x y \<Longrightarrow> \<not> (x = d_x (exitDoor st) \<and> y = d_y (exitDoor st)) \<Longrightarrow>
           cell_at (grid st) x y = Nullptr"
    and "1 \<le> count_cells is_trap (grid st)" and "count_cells is_trap (grid st) \<le> 9"
    and "e \<in> set (enemies st) \<Longrightarrow>
           cell_at (grid st) (e_x e) (e_y e) = Nullptr \<or>
           (e_x e = d_x (exitDoor st) \<and> e_y e = d_y (exitDoor st))"
proof -
  from assms obtain g1 k1 k2 where
    t: "addTraps rs 9 (fst (addBlocks rs (blank_grid, k0)), snd (addBlocks rs (blank_grid, k0)))
       = Some (g1, k1)"
    and e: "addEnemies rs g1 0 9 k1 = Some (enemies st, k2)"
    and d: "randomFreeCell rs (clearStart g1) k2 = Some (d_x (exitDoor st), d_y (exitDoor st), k)"
    and g: "grid st = grid_write (clearStart g1) (d_y (exitDoor st)) (d_x (exitDoor st))
                 (DestructibleBlock True)"
    by (rule Game_ctor_Some)
  note g1 = trapped_grid [OF t]
  let ?gc = "clearStart g1"
  let ?dx = "d_x (exitDoor st)" and ?dy = "d_y (exitDoor st)"
  have wfc: "wf_grid ?gc" using g1(1) by (rule wf_clearStart)
  from randomFreeCell_Some [OF d] have
    free: "interior ?dx ?dy" "cell_at ?gc ?dx ?dy = Nullptr" "\<not> (?dx = 1 \<and> ?dy = 1)"
    by (simp_all add: free_pick_def)
  from free(1) have ing: "in_grid ?dx ?dy" by (rule interior_in_grid)
  from wfc g show "wf_grid (grid st)" by (simp add: wf_grid_write)
  from free show "interior ?dx ?dy" "\<not> (?dx = 1 \<and> ?dy = 1)" by simp_all
  have cell: "cell_at (grid st) a b =
      (if a = ?dx \<and> b = ?dy then DestructibleBlock True
       else if start_area a b then Nullptr else cell_at g1 a b)" if "in_grid a b" for a b
    using that by (simp add: g cell_at_write [OF wfc ing] cell_at_clearStart [OF g1(1)])
  show "if x = ?dx \<and> y = ?dy then cell_at (grid st) x y = DestructibleBlock True
        else plain_cell (cell_at (grid st) x y)" if "in_grid x y"
    using cell [OF that] g1(3) [OF that] by (cases "x = ?dx \<and> y = ?dy") (auto simp: plain_cell_def)
  show "cell_at (grid st) x y = IndestructibleBlock" if "on_border x y"
  proof -
    from that have xy: "in_grid x y" by (simp add: on_border_def)
    from that have "\<not> interior x y" using interior_not_border by blast
    with free(1) start_area_interior [of x y] cell [OF xy] g1(4) [OF that]
    show ?thesis by auto
  qed
  show "cell_at (grid st) x y = Nullptr" if "start_area x y" "\<not> (x = ?dx \<and> y = ?dy)"
    using cell [OF start_area_in_grid [OF that(1)]] that by simp
  have np: "\<not> is_trap Nullptr" by (simp add: is_trap_def)
  have "count_cells is_trap (grid st) = count_cells is_trap ?gc"
    using count_cells_write [OF wfc ing, of is_trap "DestructibleBlock True"] free(2)
    by (simp add: g is_trap_def)
  moreover have "count_cells is_trap ?gc \<le> 9"
    using count_clearStart(1) [where P = is_trap, OF g1(1) np] g1(2) by simp
  moreover have "9 \<le> count_cells is_trap ?gc + 8"
    using count_clearStart(2) [where P = is_trap, OF g1(1) np] g1(2,5) by (simp add: is_trap_def)
  ultimately show "1 \<le> count_cells is_trap (grid st)" "count_cells is_trap (grid st) \<le> 9"
    by simp_all
  show "cell_at (grid st) (e_x e) (e_y e) = Nullptr \<or> (e_x e = ?dx \<and> e_y e = ?dy)"
    if "e \<in> set (enemies st)"
  proof -
    from that obtain j where j: "j < length (enemies st)" "e = enemies st ! j"
      by (metis in_set_conv_nth)
    with addEnemies_result [OF e] have p: "placed g1 e" by simp
    then have "in_grid (e_x e) (e_y e)" by (simp add: placed_def interior_in_grid)
    from cell [OF this] p show ?thesis by (simp add: placed_def)
  qed
qed

lemma Game_ctor_enemies:
  assumes "Game_ctor rs k0 = Some (st, k)"
  shows "length (enemies st) = 9"
    and "j < 9 \<Longrightarrow> moveType (enemies st ! j) = int j mod 3"
    and "e \<in> set (enemies st) \<Longrightarrow>
           interior (e_x e) (e_y e) \<and> \<not> (e_x e = 1 \<and> e_y e = 1) \<and> moveStep e = 0"
proof -
  from assms obtain g1 k1 k2 where
    e: "addEnemies rs g1 0 9 k1 = Some (enemies st, k2)"
    by (rule Game_ctor_Some)
  note r = addEnemies_result [OF e]
  from r show "length (enemies st) = 9" by simp
  from r show "moveType (enemies st ! j) = int j mod 3" if "j < 9" using that by simp
  show "interior (e_x e) (e_y e) \<and> \<not> (e_x e = 1 \<and> e_y e = 1) \<and> moveStep e = 0"
    if "e \<in> set (enemies st)"
  proof -
    from that obtain j where j: "j < length (enemies st)" "e = enemies st ! j"
      by (metis in_set_conv_nth)
    with r have "placed g1 e" by simp
    then show ?thesis by (simp add: placed_def)
  qed
qed

lemma Game_ctor_door_inv:
  assumes "Game_ctor rs k0 = Some (st, k)"
  shows "door_inv st"
proof -
  note g = Game_ctor_grid [OF assms]
  from assms have v: "\<not> visible (exitDoor st)" by (rule Game_ctor_Some) simp
  have "cell_at (grid st) x y \<noteq> ExitDoorCell" if "in_grid x y" for x y
    using g(4) [OF that] by (auto simp: plain_cell_def split: if_splits)
  moreover have "is_green (cell_at (grid st) x y) = (x = d_x (exitDoor st) \<and> y = d_y (exitDoor st))"
    if "in_grid x y" for x y
    using g(4) [OF that] by (auto simp: plain_cell_def is_green_def split: if_splits)
  ultimately show ?thesis
    using g(1,2) v by (simp add: door_inv_pointwise interior_in_grid)
qed

subsection \<open>The block loop when no block is drawn\<close>

lemma same_interior_refl: "wf_grid g \<Longrightarrow> same_interior g g"
  by (simp add: same_interior_def)

lemma same_interior_trans: "same_interior g g' \<Longrightarrow> same_interior g' g'' \<Longrightarrow> same_interior g g''"
  by (simp add: same_interior_def)

lemma fillCell_no_block:
  assumes "wf_grid g" "in_grid j i" "no_block rs (k + (if on_border j i then 0 else 2))"
  shows "snd (fillCell rs i j (g, k)) = k + (if on_border j i then 0 else 2)"
    and "same_interior g (fst (fillCell rs i j (g, k)))"
proof -
  show "snd (fillCell rs i j (g, k)) = k + (if on_border j i then 0 else 2)"
    using assms(2,3) by (auto simp: fillCell_def on_border_def no_block_def)
  show "same_interior g (fst (fillCell rs i j (g, k)))"
  proof (cases "on_border j i")
    case True
    have "cell_at (grid_write g i j IndestructibleBlock) x y = cell_at g x y"
      if "in_grid x y" "\<not> on_border x y" for x y
      using that True by (auto simp: cell_at_write [OF assms(1,2)])
    then show ?thesis
      using True assms(1) by (simp add: fillCell_border same_interior_def wf_grid_write)
  next
    case False
    with assms(2,3) have "fst (fillCell rs i j (g, k)) = g"
      by (auto simp: fillCell_def on_border_def no_block_def)
    with assms(1) show ?thesis by (simp add: same_interior_refl)
  qed
qed

lemma fill_row_no_block:
  assumes "i < nat HEIGHT"
  shows "wf_grid g \<Longrightarrow> \<forall>j \<in> set js. j < nat WIDTH \<Longrightarrow> no_block rs (k + row_calls i js) \<Longrightarrow>
     snd (fold (\<lambda>j. fillCell rs (int i) (int j)) js (g, k)) = k + row_calls i js \<and>
     same_interior g (fst (fold (\<lambda>j. fillCell rs (int i) (int j)) js (g, k)))"
proof (induction js arbitrary: g k)
  case Nil
  then show ?case by (simp add: row_calls_def same_interior_refl)
next
  case (Cons j js)
  let ?c = "if on_border (int j) (int i) then 0 else 2 :: nat"
  let ?s = "fillCell rs (int i) (int j) (g, k)"
  from Cons.prems(2) assms have ji: "in_grid (int j) (int i)" by (simp add: in_grid_nat)
  have calls: "row_calls i (j # js) = ?c + row_calls i js" by (simp add: row_calls_def)
  from Cons.prems(3) have "no_block rs (k + ?c)" by (auto simp: no_block_def calls)
  note f = fillCell_no_block [OF Cons.prems(1) ji this]
  from f(2) have wf: "wf_grid (fst ?s)" by (simp add: same_interior_def)
  from Cons.prems(2) have js: "\<forall>j \<in> set js. j < nat WIDTH" by simp
  from Cons.prems(3) have nb: "no_block rs (k + ?c + row_calls i js)"
    by (simp add: calls add.assoc)
  note ih = Cons.IH [OF wf js nb]
  have s: "?s = (fst ?s, k + ?c)" using f(1) by (simp add: prod_eq_iff)
  have "fold (\<lambda>j. fillCell rs (int i) (int j)) (j # js) (g, k)
      = fold (\<lambda>j. fillCell rs (int i) (int j)) js ?s" by simp
  also have "\<dots> = fold (\<lambda>j. fillCell rs (int i) (int j)) js (fst ?s, k + ?c)"
    by (rule arg_cong [OF s])
  finally have unf: "fold (\<lambda>j. fillCell rs (int i) (int j)) (j # js) (g, k)
      = fold (\<lambda>j. fillCell rs (int i) (int j)) js (fst ?s, k + ?c)" .
  from ih have "snd (fold (\<lambda>j. fillCell rs (int i) (int j)) (j # js) (g, k))
      = k + row_calls i (j # js)"
    unfolding unf calls by (simp add: add.assoc)
  moreover from ih same_interior_trans [OF f(2)]
  have "same_interior g (fst (fold (\<lambda>j. fillCell rs (int i) (int j)) (j # js) (g, k)))"
    unfolding unf by blast
  ultimately show ?case by blast
qed

lemma fill_rows_no_block:
  "wf_grid g \<Longrightarrow> \<forall>i \<in> set is. i < nat HEIGHT \<Longrightarrow>
   no_block rs (k + sum_list (map (\<lambda>i. row_calls i [0..<nat WIDTH]) is)) \<Longrightarrow>
     snd (fold (\<lambda>i. fold (\<lambda>j. fillCell rs (int i) (int j)) [0..<nat WIDTH]) is (g, k))
       = k + sum_list (map (\<lambda>i. row_calls i [0..<nat WIDTH]) is) \<and>
     same_interior g (fst (fold (\<lambda>i. fold (\<lambda>j. fillCell rs (int i) (int j)) [0..<nat WIDTH]) is (g, k)))"
proof (induction "is" arbitrary: g k)
  case Nil
  then show ?case by (simp add: same_interior_refl)
next
  case (Cons i "is")
  let ?s = "fold (\<lambda>j. fillCell rs (int i) (int j)) [0..<nat WIDTH] (g, k)"
  from Cons.prems(2) have i: "i < nat HEIGHT" and rest: "\<forall>i \<in> set is. i < nat HEIGHT" by simp_all
  from Cons.prems(3) have "no_block rs (k + row_calls i [0..<nat WIDTH])"
    by (auto simp: no_block_def)
  from fill_row_no_block [OF i Cons.prems(1) _ this]
  have r: "snd ?s = k + row_calls i [0..<nat WIDTH]" "same_interior g (fst ?s)" by simp_all
  from r(2) have wf: "wf_grid (fst ?s)" by (simp add: same_interior_def)
  let ?F = "\<lambda>i. fold (\<lambda>j. fillCell rs (int i) (int j)) [0..<nat WIDTH]"
  let ?k = "k + row_calls i [0..<nat WIDTH]"
  from Cons.prems(3)
  have nb: "no_block rs (?k + sum_list (map (\<lambda>i. row_calls i [0..<nat WIDTH]) is))"
    by (simp add: add.assoc)
  note ih = Cons.IH [OF wf rest nb]
  have s: "?s = (fst ?s, ?k)" using r(1) by (simp add: prod_eq_iff)
  have "fold ?F (i # is) (g, k) = fold ?F is ?s" by simp
  also have "\<dots> = fold ?F is (fst ?s, ?k)" by (rule arg_cong [OF s])
  finally have unf: "fold ?F (i # is) (g, k) = fold ?F is (fst ?s, ?k)" .
  from ih have "snd (fold ?F (i # is) (g, k))
      = k + sum_list (map (\<lambda>i. row_calls i [0..<nat WIDTH]) (i # is))"
    unfolding unf by (simp add: add.assoc)
  moreover from ih same_interior_trans [OF r(2)]
  have "same_interior g (fst (fold ?F (i # is) (g, k)))"
    unfolding unf by blast
  ultimately show ?case by blast
qed

lemma block_calls: "sum_list (map (\<lambda>i. row_calls i [0..<nat WIDTH]) [0..<nat HEIGHT]) = 3248"
  by code_simp

lemma addBlocks_no_block:
  assumes "no_block rs (k + 3248)"
  shows "addBlocks rs (blank_grid, k) = (ring_grid, k + 3248)"
proof -
  from fill_rows_no_block [OF wf_blank, of "[0..<nat HEIGHT]" rs k] assms
  have k: "snd (addBlocks rs (blank_grid, k)) = k + 3248"
    and same: "same_interior blank_grid (fst (addBlocks rs (blank_grid, k)))"
    by (simp_all add: block_calls addBlocks_def)
  have "fst (addBlocks rs (blank_grid, k)) = ring_grid"
  proof (rule grid_eqI)
    from same show "wf_grid (fst (addBlocks rs (blank_grid, k)))" by (simp add: same_interior_def)
    show "wf_grid ring_grid" by (rule wf_ring)
    fix x y assume xy: "in_grid x y"
    show "cell_at (fst (addBlocks rs (blank_grid, k))) x y = cell_at ring_grid x y"
    proof (cases "on_border x y")
      case True
      from addBlocks_border [OF wf_blank True, of rs k] True xy show ?thesis
        by (simp add: cell_at_ring on_border_def)
    next
      case False
      with same xy have "cell_at (fst (addBlocks rs (blank_grid, k))) x y = Nullptr"
        by (simp add: same_interior_def cell_at_blank)
      with False xy show ?thesis by (simp add: cell_at_ring on_border_def)
    qed
  qed
  with k show ?thesis by (simp add: prod_eq_iff)
qed

lemma randomFreeCell_free:
  assumes "cell_at g (int (rs k) mod (WIDTH - 2) + 1) (int (rs (Suc k)) mod (HEIGHT - 2) + 1) = Nullptr"
    and "\<not> (int (rs k) mod (WIDTH - 2) + 1 = 1 \<and> int (rs (Suc k)) mod (HEIGHT - 2) + 1 = 1)"
  shows "randomFreeCell rs g k =
    Some (int (rs k) mod (WIDTH - 2) + 1, int (rs (Suc k)) mod (HEIGHT - 2) + 1, Suc (Suc k))"
  using assms by (subst randomFreeCell.simps) (auto simp: cell_at_def)

subsection \<open>A run of \<open>initializeGame\<close>\<close>

lemma no_block_demo: "no_block rs_demo 3248"
  by (simp add: no_block_def rs_demo_def WIDTH_def HEIGHT_def)

lemma demo_blocks: "addBlocks rs_demo (blank_grid, 0) = (ring_grid, 3248)"
  using addBlocks_no_block [of rs_demo 0] no_block_demo by simp

lemma cell_at_row_writes:
  "wf_grid g \<Longrightarrow> \<forall>x \<in> set xs. in_grid x y0 \<Longrightarrow> in_grid x y \<Longrightarrow>
   wf_grid (fold (\<lambda>x g. grid_write g y0 x c) xs g) \<and>
   cell_at (fold (\<lambda>x g. grid_write g y0 x c) xs g) x y
     = (if y = y0 \<and> x \<in> set xs then c else cell_at g x y)"
proof (induction xs arbitrary: g)
  case Nil
  then show ?case by simp
next
  case (Cons a xs)
  from Cons.prems have a: "in_grid a y0" and rest: "\<forall>x \<in> set xs. in_grid x y0" by simp_all
  have wf: "wf_grid (grid_write g y0 a c)" using Cons.prems(1) by (rule wf_grid_write)
  from Cons.IH [OF wf rest Cons.prems(3)] show ?case
    by (auto simp: cell_at_write [OF Cons.prems(1) a Cons.prems(3)] cell_at_write [OF Cons.prems(1) a a])
qed

lemma wf_traps: "wf_grid traps_grid"
  unfolding traps_grid_def by (intro wf_grid_write wf_ring | simp only: fold_simps)+

lemma cell_at_traps:
  assumes "in_grid x y"
  shows "cell_at traps_grid x y = (if y = 1 \<and> 2 \<le> x \<and> x \<le> 10 then Trap else cell_at ring_grid x y)"
proof -
  have "\<forall>x \<in> set [2, 3, 4, 5, 6, 7, 8, 9, 10::int]. in_grid x 1"
    by (simp add: in_grid_def WIDTH_def HEIGHT_def)
  from cell_at_row_writes [OF wf_ring this assms, of Trap] show ?thesis
    unfolding traps_grid_def by auto
qed

lemma addTraps_pos:
  "0 < n \<Longrightarrow> addTraps rs n (g, k) =
     (case randomFreeCell rs g k of
        None \<Rightarrow> None
      | Some (x, y, k') \<Rightarrow> addTraps rs (n - 1) (grid_write g y x Trap, k'))"
  by (cases n) (auto split: option.splits)

lemma addEnemies_pos:
  "0 < n \<Longrightarrow> addEnemies rs g i n k =
     (case randomFreeCell rs g k of
        None \<Rightarrow> None
      | Some (x, y, k') \<Rightarrow>
          (case addEnemies rs g (Suc i) (n - 1) k' of
             None \<Rightarrow> None
           | Some (es, k'') \<Rightarrow>
               Some (\<lparr>e_x = x, e_y = y, moveType = int i mod 3, moveStep = 0\<rparr> # es, k'')))"
  by (cases n) (auto split: option.splits)

lemma rs_demo_picks:
  "rs_demo 3248 = 1" "rs_demo 3249 = 0" "rs_demo 3250 = 2" "rs_demo 3251 = 0"
  "rs_demo 3252 = 3" "rs_demo 3253 = 0" "rs_demo 3254 = 4" "rs_demo 3255 = 0"
  "rs_demo 3256 = 5" "rs_demo 3257 = 0" "rs_demo 3258 = 6" "rs_demo 3259 = 0"
  "rs_demo 3260 = 7" "rs_demo 3261 = 0" "rs_demo 3262 = 8" "rs_demo 3263 = 0"
  "rs_demo 3264 = 9" "rs_demo 3265 = 0" "rs_demo 3266 = 10" "rs_demo 3267 = 0"
  "rs_demo 3268 = 11" "rs_demo 3269 = 0" "rs_demo 3270 = 12" "rs_demo 3271 = 0"
  "rs_demo 3272 = 13" "rs_demo 3273 = 0" "rs_demo 3274 = 14" "rs_demo 3275 = 0"
  "rs_demo 3276 = 15" "rs_demo 3277 = 0" "rs_demo 3278 = 16" "rs_demo 3279 = 0"
  "rs_demo 3280 = 17" "rs_demo 3281 = 0" "rs_demo 3282 = 18" "rs_demo 3283 = 0"
  "rs_demo 3284 = 0" "rs_demo 3285 = 1"
  by (simp_all add: rs_demo_def picks_def)

lemma demo_traps: "addTraps rs_demo 9 (ring_grid, 3248) = Some (traps_grid, 3266)"
  by (simp add: addTraps_pos randomFreeCell_free rs_demo_picks cell_at_write wf_grid_write wf_ring
      cell_at_ring in_grid_def WIDTH_def HEIGHT_def traps_grid_def)

lemma demo_enemies: "addEnemies rs_demo traps_grid 0 9 3266 = Some (start_enemies, 3284)"
  by (simp add: addEnemies_pos randomFreeCell_free rs_demo_picks cell_at_traps
      cell_at_ring in_grid_def WIDTH_def HEIGHT_def start_enemies_def)

lemma demo_exit: "randomFreeCell rs_demo (clearStart traps_grid) 3284 = Some (1, 2, 3286)"
  by (simp add: randomFreeCell_free rs_demo_picks cell_at_clearStart wf_traps start_area_def
      in_grid_def WIDTH_def HEIGHT_def)

lemma demo_ctor: "Game_ctor rs_demo 0 = Some (demo_start, 3286)"
  by (simp add: Game_ctor_def initializeGame_def count_n demo_blocks demo_traps demo_enemies
      demo_exit demo_start_def NUM_BOMBS_def)

lemma wf_demo_start: "wf_grid (grid demo_start)"
  by (simp add: demo_start_def wf_grid_write wf_clearStart wf_traps)

lemma cell_at_demo_start:
  assumes "in_grid x y"
  shows "cell_at (grid demo_start) x y =
     (if x = 1 \<and> y = 2 then DestructibleBlock True
      else if y = 1 \<and> 4 \<le> x \<and> x \<le> 10 then Trap
      else if x = 0 \<or> x = 59 \<or> y = 0 \<or> y = 29 then IndestructibleBlock
      else Nullptr)"
proof -
  have ing: "in_grid 1 2" by (simp add: in_grid_def WIDTH_def HEIGHT_def)
  have a: "cell_at (grid demo_start) x y =
     (if x = 1 \<and> y = 2 then DestructibleBlock True
      else if start_area x y then Nullptr else cell_at traps_grid x y)"
    using assms
    by (simp add: demo_start_def cell_at_write [OF wf_clearStart [OF wf_traps] ing]
        cell_at_clearStart [OF wf_traps])
  have b: "cell_at traps_grid x y =
     (if y = 1 \<and> 2 \<le> x \<and> x \<le> 10 then Trap
      else if x = 0 \<or> x = 59 \<or> y = 0 \<or> y = 29 then IndestructibleBlock else Nullptr)"
    using cell_at_ring [OF assms] by (auto simp: cell_at_traps [OF assms] WIDTH_def HEIGHT_def)
  show ?thesis
    unfolding a b by (auto simp: start_area_def)
qed

subsection \<open>Saving a world reached in play\<close>

lemma demo_start_tick: "Game_update rs k now demo_start = Inr (demo_ticked, k)"
proof -
  have free: "isValidMove (grid demo_start) x 1 = Inr True" if "11 \<le> x" "x \<le> 19" for x
    using that
    by (intro isValidMove_free) (simp_all add: cell_at_demo_start in_grid_def WIDTH_def HEIGHT_def)
  have m: "moveEnemies rs k (grid demo_start) (enemies demo_start)
      = Inr (map (\<lambda>e. e\<lparr>moveStep := moveStep e + 1\<rparr>) (enemies demo_start), k)"
  proof (rule moveEnemies_counting)
    have "enemies demo_start = start_enemies" by (simp add: demo_start_def)
    then show "\<forall>e \<in> set (enemies demo_start). moveStep e \<noteq> 10 \<and>
        (\<exists>ok. isValidMove (grid demo_start) (e_x e) (e_y e) = Inr ok)"
      by (auto simp: start_enemies_def free)
  qed
  have p: "player demo_start = \<lparr>p_x = 1, p_y = 1, hasBombs = 3\<rparr>" "bombs demo_start = []"
    "exitDoor demo_start = \<lparr>d_x = 1, d_y = 2, visible = False\<rparr>"
    "enemies demo_start = start_enemies"
    by (simp_all add: demo_start_def)
  have "in_grid 1 1" by (simp add: in_grid_def WIDTH_def HEIGHT_def)
  then have c: "cell_at (grid demo_start) 1 1 \<noteq> Trap" by (simp add: cell_at_demo_start)
  have "Game_update rs k now demo_start
      = Inr (demo_start\<lparr>enemies := map (\<lambda>e. e\<lparr>moveStep := moveStep e + 1\<rparr>) (enemies demo_start)\<rparr>, k)"
    using c by (intro Game_update_quiet [OF _ _ _ m])
      (simp_all add: p start_enemies_def in_grid_def WIDTH_def HEIGHT_def)
  then show ?thesis by (simp add: demo_ticked_def)
qed

lemma demo_ticked_ok: "game_ok demo_ticked"
  by (simp add: game_ok_def demo_ticked_def demo_start_def start_enemies_def int_ok_def
      enemy_ok_def bomb_ok_def INT_MIN_def INT_MAX_def)

lemma demo_start_no_alias: "door_aliases (grid demo_start) = 0"
  using Game_ctor_door_inv [OF demo_ctor] by (simp add: door_inv_def)

lemma demo_ticked_load:
  "loadGame (Some (saveGame demo_ticked)) now demo_start = Inr (True, reloaded demo_ticked now)"
  by (rule loadGame_saved [OF demo_ticked_ok demo_start_no_alias])
     (simp add: demo_ticked_def demo_start_def in_grid_def WIDTH_def HEIGHT_def)

text \<open>
  C5 as stated fails: the fuse age is not the only information lost.  The world is the
  one that \<open>initializeGame\<close> builds from the sequence \<open>rs_demo\<close>, after one call of
  \<open>Game::update\<close> (a first pass of the loop of \<open>playGame\<close> without a key): its nine
  enemies all have the move counter 1, and there are traps, for example at \<open>(4, 1)\<close>.
  Saved in the next pass and loaded by a later run of the program, whose constructor
  has built a world of its own, it comes back with every counter at 0.
\<close>

theorem load_save_counterexample:
  "Game_ctor rs_demo 0 = Some (demo_start, 3286) \<and>
   Game_update rs_demo 3286 50000000 demo_start = Inr (demo_ticked, 3286) \<and>
   loadGame (Some (saveGame demo_ticked)) 0 demo_start = Inr (True, reloaded demo_ticked 0) \<and>
   cell_at (grid demo_ticked) 4 1 = Trap \<and>
   map moveStep (enemies demo_ticked) = [1, 1, 1, 1, 1, 1, 1, 1, 1] \<and>
   map moveStep (enemies (reloaded demo_ticked 0)) = [0, 0, 0, 0, 0, 0, 0, 0, 0]"
proof -
  have "in_grid 4 1" by (simp add: in_grid_def WIDTH_def HEIGHT_def)
  then have "cell_at (grid demo_ticked) 4 1 = Trap"
    using cell_at_demo_start [of 4 1] by (simp add: demo_ticked_def)
  moreover have "map moveStep (enemies demo_ticked) = [1, 1, 1, 1, 1, 1, 1, 1, 1]"
    "map moveStep (enemies (reloaded demo_ticked 0)) = [0, 0, 0, 0, 0, 0, 0, 0, 0]"
    by (simp_all add: demo_ticked_def demo_start_def start_enemies_def reloaded_def)
  ultimately show ?thesis
    by (simp add: demo_ctor demo_start_tick demo_ticked_load)
qed

subsection \<open>The layout that \<open>initializeGame\<close> leaves\<close>

lemma count_clear_exact:
  assumes "\<not> P Nullptr"
  shows "wf_grid g \<Longrightarrow> distinct ps \<Longrightarrow> \<forall>p \<in> set ps. in_grid (snd p) (fst p) \<Longrightarrow>
     count_cells P (fold (\<lambda>p g. grid_write g (fst p) (snd p) Nullptr) ps g)
       + length (filter (\<lambda>p. P (cell_at g (snd p) (fst p))) ps)
     = count_cells P g"
proof (induction ps arbitrary: g)
  case Nil
  then show ?case by simp
next
  case (Cons p ps)
  let ?g = "grid_write g (fst p) (snd p) Nullptr"
  from Cons.prems have ing: "in_grid (snd p) (fst p)"
    and rest: "\<forall>q \<in> set ps. in_grid (snd q) (fst q)" and d: "distinct ps" and np: "p \<notin> set ps"
    by simp_all
  have wf: "wf_grid ?g" using Cons.prems(1) by (rule wf_grid_write)
  have same: "cell_at ?g (snd q) (fst q) = cell_at g (snd q) (fst q)" if "q \<in> set ps" for q
  proof -
    from that rest have q: "in_grid (snd q) (fst q)" by blast
    from that np have "q \<noteq> p" by blast
    then have "\<not> (snd q = snd p \<and> fst q = fst p)" by (auto simp: prod_eq_iff)
    with cell_at_write [OF Cons.prems(1) ing q] show ?thesis by simp
  qed
  have f: "filter (\<lambda>q. P (cell_at ?g (snd q) (fst q))) ps
         = filter (\<lambda>q. P (cell_at g (snd q) (fst q))) ps"
    by (rule filter_cong) (simp_all add: same)
  from Cons.IH [OF wf d rest] f
    count_cells_write [where P = P and g = g and x = "snd p" and y = "fst p" and c = Nullptr,
      OF Cons.prems(1) ing] assms
  show ?case by (simp split: if_splits)
qed

lemma clearStart_cells:
  "clearStart g =
     fold (\<lambda>p g. grid_write g (fst p) (snd p) Nullptr)
       [(1, 1), (1, 2), (1, 3), (2, 1), (2, 2), (2, 3), (3, 1), (3, 2), (3, 3)] g"
  by (simp add: clearStart_def)

lemma count_ring: "count_cells is_trap ring_grid = 0"
  unfolding count_cells_0 [OF wf_ring] by (simp add: cell_at_ring is_trap_def)

lemma count_traps: "count_cells is_trap traps_grid = 9"
  using addTraps_result [OF demo_traps wf_ring] count_ring by simp

lemma count_cleared: "count_cells is_trap (clearStart traps_grid) = 7"
proof -
  have np: "\<not> is_trap Nullptr" by (simp add: is_trap_def)
  have d: "distinct [(1::int, 1::int), (1, 2), (1, 3), (2, 1), (2, 2), (2, 3), (3, 1), (3, 2), (3, 3)]"
    by simp
  have ing: "\<forall>p \<in> set [(1::int, 1::int), (1, 2), (1, 3), (2, 1), (2, 2), (2, 3), (3, 1), (3, 2), (3, 3)].
     in_grid (snd p) (fst p)"
    by (simp add: in_grid_def WIDTH_def HEIGHT_def)
  have "length (filter (\<lambda>p. is_trap (cell_at traps_grid (snd p) (fst p)))
          [(1::int, 1::int), (1, 2), (1, 3), (2, 1), (2, 2), (2, 3), (3, 1), (3, 2), (3, 3)]) = 2"
    by (simp add: cell_at_traps cell_at_ring is_trap_def in_grid_def WIDTH_def HEIGHT_def)
  with count_clear_exact [where P = is_trap, OF np wf_traps d ing] count_traps
  show ?thesis by (simp add: clearStart_cells)
qed

lemma count_demo_start: "count_cells is_trap (grid demo_start) = 7"
proof -
  have ing: "in_grid 1 2" by (simp add: in_grid_def WIDTH_def HEIGHT_def)
  have "cell_at (clearStart traps_grid) 1 2 = Nullptr"
    by (simp add: cell_at_clearStart [OF wf_traps ing] start_area_def)
  with count_cells_write [OF wf_clearStart [OF wf_traps] ing, of is_trap "DestructibleBlock True"]
    count_cleared
  show ?thesis by (simp add: demo_start_def is_trap_def)
qed

text \<open>
  C7.  \<open>initializeGame\<close>, when its rejection loops end, for every sequence of values of
  \<open>rand()\<close>: every border cell holds an indestructible block; the spawn cell \<open>(1, 1)\<close>
  is empty; every other cell of the rows and columns 1 to 3 is empty or is the block
  that carries the exit door, which the code places after the clearing and keeps away
  from \<open>(1, 1)\<close> only; nine traps are placed before the clearing, which removes those
  of the rows and columns 1 to 3, so between one and nine traps remain; there are
  exactly nine enemies, all in the interior and none on the spawn cell.
\<close>

theorem initializeGame_layout:
  assumes "Game_ctor rs k0 = Some (st, k)"
  shows "(\<forall>x y. on_border x y \<longrightarrow> cell_at (grid st) x y = IndestructibleBlock) \<and>
         cell_at (grid st) 1 1 = Nullptr \<and>
         (\<forall>x y. start_area x y \<longrightarrow>
            cell_at (grid st) x y = Nullptr \<or>
            (x = d_x (exitDoor st) \<and> y = d_y (exitDoor st) \<and>
             cell_at (grid st) x y = DestructibleBlock True)) \<and>
         interior (d_x (exitDoor st)) (d_y (exitDoor st)) \<and>
         \<not> (d_x (exitDoor st) = 1 \<and> d_y (exitDoor st) = 1) \<and>
         1 \<le> count_cells is_trap (grid st) \<and>
         count_cells is_trap (grid st) \<le> nat ((HEIGHT + WIDTH) div 10) \<and>
         length (enemies st) = nat ((HEIGHT + WIDTH) div 10) \<and>
         (\<forall>e \<in> set (enemies st). interior (e_x e) (e_y e) \<and> \<not> (e_x e = 1 \<and> e_y e = 1))"
proof -
  note g = Game_ctor_grid [OF assms] and e = Game_ctor_enemies [OF assms]
  have s11: "start_area 1 1" by (simp add: start_area_def)
  have area: "cell_at (grid st) x y = Nullptr \<or>
            (x = d_x (exitDoor st) \<and> y = d_y (exitDoor st) \<and>
             cell_at (grid st) x y = DestructibleBlock True)" if "start_area x y" for x y
  proof (cases "x = d_x (exitDoor st) \<and> y = d_y (exitDoor st)")
    case True
    with g(4) [OF start_area_in_grid [OF that]] show ?thesis by simp
  next
    case False
    with g(6) [OF that] show ?thesis by blast
  qed
  from g(5) have "\<forall>x y. on_border x y \<longrightarrow> cell_at (grid st) x y = IndestructibleBlock" by blast
  moreover from g(6) [OF s11] g(3) have "cell_at (grid st) 1 1 = Nullptr" by auto
  moreover from e(3)
  have "\<forall>e \<in> set (enemies st). interior (e_x e) (e_y e) \<and> \<not> (e_x e = 1 \<and> e_y e = 1)" by blast
  ultimately show ?thesis
    using area g(2,3,7,8) e(1) by (simp add: count_n)
qed

text \<open>
  The theorem at the sequence \<open>rs_demo\<close>: the block loop places nothing inside the
  border, the nine traps go to \<open>(2, 1)\<close> ... \<open>(10, 1)\<close>, the nine enemies to \<open>(11, 1)\<close>
  ... \<open>(19, 1)\<close>, and the door to \<open>(1, 2)\<close>.
\<close>

theorem initializeGame_layout_witness:
  "Game_ctor rs_demo 0 = Some (demo_start, 3286) \<and>
   cell_at (grid demo_start) 0 0 = IndestructibleBlock \<and>
   cell_at (grid demo_start) 59 17 = IndestructibleBlock \<and>
   cell_at (grid demo_start) 1 1 = Nullptr \<and>
   cell_at (grid demo_start) 3 3 = Nullptr \<and>
   d_x (exitDoor demo_start) = 1 \<and> d_y (exitDoor demo_start) = 2 \<and>
   1 \<le> count_cells is_trap (grid demo_start) \<and> count_cells is_trap (grid demo_start) \<le> 9 \<and>
   length (enemies demo_start) = 9 \<and>
   list_all (\<lambda>e. interior (e_x e) (e_y e) \<and> \<not> (e_x e = 1 \<and> e_y e = 1)) (enemies demo_start)"
proof -
  note t = initializeGame_layout [OF demo_ctor]
  have b: "on_border 0 0" "on_border 59 17"
    by (simp_all add: on_border_def in_grid_def WIDTH_def HEIGHT_def)
  have d: "d_x (exitDoor demo_start) = 1" "d_y (exitDoor demo_start) = 2"
    by (simp_all add: demo_start_def)
  have a: "start_area 3 3" by (simp add: start_area_def)
  from t b have "cell_at (grid demo_start) 0 0 = IndestructibleBlock"
    "cell_at (grid demo_start) 59 17 = IndestructibleBlock" by blast+
  moreover from t have "cell_at (grid demo_start) 1 1 = Nullptr" by blast
  moreover have "cell_at (grid demo_start) 3 3 = Nullptr"
  proof -
    from t have "\<forall>x y. start_area x y \<longrightarrow>
            cell_at (grid demo_start) x y = Nullptr \<or>
            (x = d_x (exitDoor demo_start) \<and> y = d_y (exitDoor demo_start) \<and>
             cell_at (grid demo_start) x y = DestructibleBlock True)" by blast
    from this [rule_format, OF a] d show ?thesis by simp
  qed
  moreover from t have "1 \<le> count_cells is_trap (grid demo_start)"
    "count_cells is_trap (grid demo_start) \<le> 9" "length (enemies demo_start) = 9"
    by (simp_all add: count_n)
  moreover from t
  have "list_all (\<lambda>e. interior (e_x e) (e_y e) \<and> \<not> (e_x e = 1 \<and> e_y e = 1)) (enemies demo_start)"
    unfolding list_all_iff by blast
  ultimately show ?thesis using d demo_ctor by blast
qed

text \<open>
  Against the claim as it is worded, the same world: the cell \<open>(1, 2)\<close>, next to the
  spawn cell and inside the cleared rows and columns, holds the block of the exit door,
  and of the nine traps placed, those at \<open>(2, 1)\<close> and \<open>(3, 1)\<close> were deleted by the
  clearing: seven traps are present, not \<open>(HEIGHT + WIDTH) / 10 = 9\<close>.
\<close>

theorem initializeGame_counterexample:
  "Game_ctor rs_demo 0 = Some (demo_start, 3286) \<and>
   start_area 1 2 \<and> cell_at (grid demo_start) 1 2 = DestructibleBlock True \<and>
   count_cells is_trap (grid demo_start) = 7 \<and> nat ((HEIGHT + WIDTH) div 10) = 9"
  by (simp add: demo_ctor count_demo_start count_n start_area_def cell_at_demo_start in_grid_def
      WIDTH_def HEIGHT_def)

subsection \<open>The exit door along a run\<close>

lemma explodeBomb_door_inv:
  assumes "door_inv st" "explodeBomb b st = Inr st'"
  shows "door_inv st'"
proof -
  from assms(1) have wf: "wf_grid (grid st)" by (simp add: door_inv_def)
  note r = explodeBomb_Inr [OF assms(2) wf]
  let ?H = "set (hits_of (grid st) (b_x b) (b_y b) directions)"
  let ?dx = "d_x (exitDoor st)" and ?dy = "d_y (exitDoor st)"
  from assms(1) have
    na: "\<And>x y. in_grid x y \<Longrightarrow> cell_at (grid st) x y \<noteq> ExitDoorCell"
    and gr: "if visible (exitDoor st) then \<forall>x y. in_grid x y \<longrightarrow> \<not> is_green (cell_at (grid st) x y)
       else in_grid ?dx ?dy \<and>
            (\<forall>x y. in_grid x y \<longrightarrow> is_green (cell_at (grid st) x y) = (x = ?dx \<and> y = ?dy))"
    by (simp_all add: door_inv_pointwise)
  have cell: "cell_at (grid st') x y = (if (x, y) \<in> ?H then Nullptr else cell_at (grid st) x y)"
    if "in_grid x y" for x y
    using r(8) [OF that] .
  have vis: "visible (exitDoor st') = (visible (exitDoor st) \<or> (?dx, ?dy) \<in> ?H)"
    using r(9) .
  have a: "cell_at (grid st') x y \<noteq> ExitDoorCell" if "in_grid x y" for x y
    using cell [OF that] na [OF that] by simp
  have b: "if visible (exitDoor st') then \<forall>x y. in_grid x y \<longrightarrow> \<not> is_green (cell_at (grid st') x y)
       else in_grid (d_x (exitDoor st')) (d_y (exitDoor st')) \<and>
            (\<forall>x y. in_grid x y \<longrightarrow>
               is_green (cell_at (grid st') x y)
                 = (x = d_x (exitDoor st') \<and> y = d_y (exitDoor st')))"
  proof (cases "visible (exitDoor st)")
    case True
    with gr vis cell show ?thesis by (simp add: is_green_def)
  next
    case hidden: False
    with gr have ing: "in_grid ?dx ?dy"
      and only: "\<And>x y. in_grid x y \<Longrightarrow> is_green (cell_at (grid st) x y) = (x = ?dx \<and> y = ?dy)"
      by simp_all
    show ?thesis
    proof (cases "(?dx, ?dy) \<in> ?H")
      case True
      with vis have v: "visible (exitDoor st')" by simp
      have "\<not> is_green (cell_at (grid st') x y)" if "in_grid x y" for x y
        using cell [OF that] only [OF that] True by (auto simp: is_green_def)
      with v show ?thesis by simp
    next
      case False
      with vis hidden have v: "\<not> visible (exitDoor st')" by simp
      have "is_green (cell_at (grid st') x y) = (x = ?dx \<and> y = ?dy)" if "in_grid x y" for x y
        using cell [OF that] only [OF that] False by (auto simp: is_green_def)
      with v ing r(6,7) show ?thesis by simp
    qed
  qed
  from r(1) a b show ?thesis by (simp add: door_inv_pointwise)
qed

lemma explodeDue_door_inv:
  "door_inv st \<Longrightarrow> explodeDue now i bs st = Inr (bs', st') \<Longrightarrow> door_inv st'"
proof (induction now i bs st rule: explodeDue.induct)
  case (1 now i bs st)
  show ?case
  proof (cases "i < length bs")
    case False
    with "1.prems" show ?thesis by (subst (asm) explodeDue.simps) simp
  next
    case i: True
    show ?thesis
    proof (cases "shouldExplode (bs ! i) now")
      case False
      with i "1.prems"(2) have "explodeDue now (Suc i) bs st = Inr (bs', st')"
        by (subst (asm) explodeDue.simps) simp
      from "1.IH"(2) [OF i False "1.prems"(1) this] show ?thesis .
    next
      case True
      with i "1.prems"(2) obtain s1 where
        e: "explodeBomb (bs ! i) st = Inr s1"
        and rest: "explodeDue now i (butlast (bs[i := last bs])) s1 = Inr (bs', st')"
        by (subst (asm) explodeDue.simps) (auto split: sum.splits)
      from explodeBomb_door_inv [OF "1.prems"(1) e] have "door_inv s1" .
      from "1.IH"(1) [OF i True e this rest] show ?thesis .
    qed
  qed
qed

lemma Game_update_door_inv:
  assumes "door_inv st" "Game_update rs k now st = Inr (st', k')"
  shows "door_inv st'"
proof -
  from assms(2) obtain es bs st1 where
    e: "explodeDue now 0 (bombs st) (st\<lparr>enemies := es\<rparr>) = Inr (bs, st1)"
    and st': "st' = st1\<lparr>bombs := bs\<rparr>"
    by (auto simp: Game_update_def Let_def split: if_splits sum.splits prod.splits)
  have "door_inv (st\<lparr>enemies := es\<rparr>)" using assms(1) by (simp add: door_inv_def)
  from explodeDue_door_inv [OF this e] show ?thesis by (simp add: st' door_inv_def)
qed

lemma movePlayer_door_inv: "door_inv st \<Longrightarrow> movePlayer st dx dy = Inr st' \<Longrightarrow> door_inv st'"
  by (auto simp: movePlayer_def Let_def door_inv_def split: sum.splits if_splits)

lemma plantBomb_door_inv: "door_inv st \<Longrightarrow> plantBomb now st = Inr st' \<Longrightarrow> door_inv st'"
  by (auto simp: plantBomb_def door_inv_def split: if_splits)

lemma loadGame_door_inv:
  assumes "door_inv st" "door_inv st0" "game_ok st"
    "loadGame (Some (saveGame st)) now st0 = Inr (ok, st')"
  shows "door_inv st'"
proof -
  from assms(2) have na: "door_aliases (grid st0) = 0" by (simp add: door_inv_def)
  from assms(1) have "visible (exitDoor st) \<or> in_grid (d_x (exitDoor st)) (d_y (exitDoor st))"
    by (auto simp: door_inv_def split: if_splits)
  from loadGame_saved [OF assms(3) na this, of now] assms(4)
  have "st' = reloaded st now" by simp
  with door_inv_reloaded [OF assms(1)] show ?thesis by simp
qed

lemma reachable_door_inv: "reachable st \<Longrightarrow> door_inv st"
proof (induction rule: reachable.induct)
  case (r_init rs k0 st k)
  then show ?case by (rule Game_ctor_door_inv)
next
  case (r_move st dx dy st')
  then show ?case using movePlayer_door_inv by blast
next
  case (r_plant st now st')
  then show ?case using plantBomb_door_inv by blast
next
  case (r_update st rs k now st' k')
  then show ?case using Game_update_door_inv by blast
next
  case (r_load st st0 now ok st')
  then show ?case using loadGame_door_inv by blast
qed

lemma demo_plant: "plantBomb 0 demo_start = Inr (demo_walk 1 1 0)"
  by (simp add: plantBomb_def demo_walk_def demo_start_def start_enemies_def canPlantBomb_def
      useBomb_def NUM_BOMBS_def)

lemma grid_demo_walk: "grid (demo_walk px py c) = grid demo_start"
  by (simp add: demo_walk_def)

lemma demo_walk_tick:
  assumes "(px, py) \<in> {(1, 1), (2, 1), (2, 2)}" "c \<noteq> 10" "now < 3000000000"
  shows "Game_update rs k now (demo_walk px py c) = Inr (demo_walk px py (c + 1), k)"
proof -
  have free: "isValidMove (grid demo_start) x 1 = Inr True" if "11 \<le> x" "x \<le> 19" for x
    using that
    by (intro isValidMove_free) (simp_all add: cell_at_demo_start in_grid_def WIDTH_def HEIGHT_def)
  have m: "moveEnemies rs k (grid (demo_walk px py c)) (enemies (demo_walk px py c))
      = Inr (map (\<lambda>e. e\<lparr>moveStep := moveStep e + 1\<rparr>) (enemies (demo_walk px py c)), k)"
  proof (rule moveEnemies_counting)
    show "\<forall>e \<in> set (enemies (demo_walk px py c)). moveStep e \<noteq> 10 \<and>
        (\<exists>ok. isValidMove (grid (demo_walk px py c)) (e_x e) (e_y e) = Inr ok)"
      using assms(2) by (auto simp: grid_demo_walk demo_walk_def start_enemies_def free)
  qed
  from assms(1) have ing: "in_grid px py" by (auto simp: in_grid_def WIDTH_def HEIGHT_def)
  with assms(1) have c: "cell_at (grid demo_start) px py \<noteq> Trap"
    by (auto simp: cell_at_demo_start)
  have "Game_update rs k now (demo_walk px py c)
      = Inr ((demo_walk px py c)\<lparr>enemies :=
               map (\<lambda>e. e\<lparr>moveStep := moveStep e + 1\<rparr>) (enemies (demo_walk px py c))\<rparr>, k)"
  proof (rule Game_update_quiet [OF _ _ _ m])
    show "\<not> list_ex (\<lambda>e. p_x (player (demo_walk px py c)) = e_x e \<and>
             p_y (player (demo_walk px py c)) = e_y e) (enemies (demo_walk px py c))"
      using assms(1) by (auto simp: demo_walk_def start_enemies_def)
    show "in_grid (p_x (player (demo_walk px py c))) (p_y (player (demo_walk px py c)))"
      using ing by (simp add: demo_walk_def)
    show "cell_at (grid (demo_walk px py c)) (p_x (player (demo_walk px py c)))
            (p_y (player (demo_walk px py c))) \<noteq> Trap"
      using c by (simp add: demo_walk_def)
    show "list_all (\<lambda>b. \<not> shouldExplode b now) (bombs (demo_walk px py c))"
      using assms(3) by (simp add: demo_walk_def shouldExplode_def duration_cast_seconds_ge3)
    show "\<not> (p_x (player (demo_walk px py c)) = d_x (exitDoor (demo_walk px py c)) \<and>
             p_y (player (demo_walk px py c)) = d_y (exitDoor (demo_walk px py c)) \<and>
             visible (exitDoor (demo_walk px py c)))"
      by (simp add: demo_walk_def demo_start_def)
  qed
  then show ?thesis by (simp add: demo_walk_def start_enemies_def)
qed

lemma demo_walk_right: "movePlayer (demo_walk 1 1 c) 1 0 = Inr (demo_walk 2 1 c)"
proof -
  have "isValidMove (grid demo_start) 2 1 = Inr True"
    by (intro isValidMove_free) (simp_all add: cell_at_demo_start in_grid_def WIDTH_def HEIGHT_def)
  then show ?thesis
    by (simp add: movePlayer_def demo_walk_def Player_move_def)
qed

lemma demo_walk_down: "movePlayer (demo_walk 2 1 c) 0 1 = Inr (demo_walk 2 2 c)"
proof -
  have "isValidMove (grid demo_start) 2 2 = Inr True"
    by (intro isValidMove_free) (simp_all add: cell_at_demo_start in_grid_def WIDTH_def HEIGHT_def)
  then show ?thesis
    by (simp add: movePlayer_def demo_walk_def Player_move_def)
qed

lemma demo_walk_detonation:
  assumes "3000000000 \<le> now"
  shows "\<exists>st. Game_update rs k now (demo_walk 2 2 3) = Inr (st, k) \<and> visible (exitDoor st)"
proof -
  let ?st = "demo_walk 2 2 3"
  let ?es = "map (\<lambda>e. e\<lparr>moveStep := moveStep e + 1\<rparr>) (enemies ?st)"
  let ?b = "\<lparr>b_x = 1, b_y = 1, plantTime = 0\<rparr>"
  let ?s = "?st\<lparr>enemies := ?es\<rparr>"
  have free: "isValidMove (grid demo_start) x 1 = Inr True" if "11 \<le> x" "x \<le> 19" for x
    using that
    by (intro isValidMove_free) (simp_all add: cell_at_demo_start in_grid_def WIDTH_def HEIGHT_def)
  have m: "moveEnemies rs k (grid ?st) (enemies ?st) = Inr (?es, k)"
  proof (rule moveEnemies_counting)
    show "\<forall>e \<in> set (enemies ?st). moveStep e \<noteq> 10 \<and>
        (\<exists>ok. isValidMove (grid ?st) (e_x e) (e_y e) = Inr ok)"
      by (auto simp: grid_demo_walk demo_walk_def start_enemies_def free)
  qed
  have wf: "wf_grid (grid ?s)" by (simp add: grid_demo_walk wf_demo_start)
  have g: "grid ?s = grid demo_start" "player ?s = \<lparr>p_x = 2, p_y = 2, hasBombs = 2\<rparr>"
    "exitDoor ?s = \<lparr>d_x = 1, d_y = 2, visible = False\<rparr>"
    by (simp_all add: demo_walk_def demo_start_def)
  have "explodeBomb ?b ?s \<noteq> Inl h" for h
    by (simp add: explodeBomb_Inl [OF wf] g blasted_of_def directions_def
        cell_at_demo_start in_grid_def WIDTH_def HEIGHT_def)
  then obtain s1 where e: "explodeBomb ?b ?s = Inr s1"
    by (cases "explodeBomb ?b ?s") auto
  note r = explodeBomb_Inr [OF e wf]
  have i12: "in_grid 1 2" by (simp add: in_grid_def WIDTH_def HEIGHT_def)
  then have c12: "cell_at (grid demo_start) 1 2 = DestructibleBlock True"
    by (simp add: cell_at_demo_start)
  have hit: "ray_hit (grid demo_start) 1 1 0 1 [1, 2, 3] = Some (1, 2)"
    by (simp add: c12 i12)
  have "(1, 2) \<in> set (hits_of (grid demo_start) 1 1 directions)"
    unfolding hits_of_def set_map_filter_iff
    by (rule bexI [of _ "(0, 1)"]) (simp_all add: hit directions_def del: ray_hit.simps)
  with r(9) have v: "visible (exitDoor s1)" by (simp add: g)
  from r(2,6,7) have p: "p_x (player s1) = 2" "p_y (player s1) = 2" "d_x (exitDoor s1) = 1"
    by (simp_all add: g reloadBomb_def)
  from assms have due: "shouldExplode ?b now"
    by (simp add: shouldExplode_def duration_cast_seconds_ge3)
  from explodeDue_single [OF due e]
  have d: "explodeDue now 0 (bombs ?st) ?s = Inr ([], s1)" by (simp add: demo_walk_def)
  have ing: "in_grid 2 2" by (simp add: in_grid_def WIDTH_def HEIGHT_def)
  have "Game_update rs k now ?st = Inr (s1\<lparr>bombs := []\<rparr>, k)"
  proof (rule Game_update_result [OF _ _ _ m d])
    show "\<not> list_ex (\<lambda>e. p_x (player ?st) = e_x e \<and> p_y (player ?st) = e_y e) (enemies ?st)"
      by (simp add: demo_walk_def start_enemies_def)
    show "in_grid (p_x (player ?st)) (p_y (player ?st))" using ing by (simp add: demo_walk_def)
    show "cell_at (grid ?st) (p_x (player ?st)) (p_y (player ?st)) \<noteq> Trap"
      using ing by (simp add: demo_walk_def cell_at_demo_start)
    show "\<not> (p_x (player s1) = d_x (exitDoor s1) \<and> p_y (player s1) = d_y (exitDoor s1) \<and>
             visible (exitDoor s1))"
      using p by simp
  qed
  with v show ?thesis by auto
qed

text \<open>
  C9, as the code has it.  In every world of a run, no grid cell is the exit door
  itself (the door object is never entered in the grid by \<open>initializeGame\<close> or
  \<open>explodeBomb\<close>, and \<open>saveGame\<close> writes no \<open>D\<close>); as long as the door is hidden, exactly
  one cell is a destructible block that carries the exit, the one at the door's
  position; once the door is visible, no cell is: the detonation that reveals the door
  empties its cell.
\<close>

theorem reachable_exit_cells:
  assumes "reachable st"
  shows "exit_cells (grid st) = (if visible (exitDoor st) then 0 else 1) \<and>
         door_aliases (grid st) = 0 \<and>
         (\<not> visible (exitDoor st) \<longrightarrow>
            cell_at (grid st) (d_x (exitDoor st)) (d_y (exitDoor st)) = DestructibleBlock True)"
  using reachable_door_inv [OF assms] door_inv_exit_cells [of st]
  by (simp add: door_inv_def is_green_def split: if_splits)

text \<open>The world that \<open>initializeGame\<close> builds in the run \<open>rs_demo\<close>: one cell, \<open>(1, 2)\<close>.\<close>

theorem reachable_exit_cells_witness:
  "reachable demo_start \<and> exit_cells (grid demo_start) = 1 \<and>
   cell_at (grid demo_start) 1 2 = DestructibleBlock True"
  using reachable_exit_cells [OF r_init [OF demo_ctor]] r_init [OF demo_ctor]
  by (simp add: demo_start_def)

text \<open>
  C9 as stated fails after the detonation that reveals the door.  In the run \<open>rs_demo\<close>
  the player plants a bomb on the spawn cell at time 0, steps right to \<open>(2, 1)\<close> and down
  to \<open>(2, 2)\<close>, each pass of the loop of \<open>playGame\<close> ending with a call of \<open>Game::update\<close>;
  the update at 3000 ms detonates the bomb, whose ray towards \<open>+y\<close> meets the block of the
  door at \<open>(1, 2)\<close>.  In the world that this update leaves the door is visible and no
  grid cell is the door or a block that carries it.
\<close>

theorem reachable_exit_cells_counterexample:
  "\<exists>st. Game_ctor rs_demo 0 = Some (demo_start, 3286) \<and>
     plantBomb 0 demo_start = Inr (demo_walk 1 1 0) \<and>
     Game_update rs_demo 3286 1000000 (demo_walk 1 1 0) = Inr (demo_walk 1 1 1, 3286) \<and>
     movePlayer (demo_walk 1 1 1) 1 0 = Inr (demo_walk 2 1 1) \<and>
     Game_update rs_demo 3286 51000000 (demo_walk 2 1 1) = Inr (demo_walk 2 1 2, 3286) \<and>
     movePlayer (demo_walk 2 1 2) 0 1 = Inr (demo_walk 2 2 2) \<and>
     Game_update rs_demo 3286 101000000 (demo_walk 2 2 2) = Inr (demo_walk 2 2 3, 3286) \<and>
     Game_update rs_demo 3286 3000000000 (demo_walk 2 2 3) = Inr (st, 3286) \<and>
     reachable st \<and> visible (exitDoor st) \<and> exit_cells (grid st) = 0"
proof -
  from demo_walk_detonation [of 3000000000 rs_demo 3286] obtain st where
    u4: "Game_update rs_demo 3286 3000000000 (demo_walk 2 2 3) = Inr (st, 3286)"
    and v: "visible (exitDoor st)" by auto
  have u1: "Game_update rs_demo 3286 1000000 (demo_walk 1 1 0) = Inr (demo_walk 1 1 1, 3286)"
    using demo_walk_tick [of 1 1 0 1000000 rs_demo 3286] by simp
  have u2: "Game_update rs_demo 3286 51000000 (demo_walk 2 1 1) = Inr (demo_walk 2 1 2, 3286)"
    using demo_walk_tick [of 2 1 1 51000000 rs_demo 3286] by simp
  have u3: "Game_update rs_demo 3286 101000000 (demo_walk 2 2 2) = Inr (demo_walk 2 2 3, 3286)"
    using demo_walk_tick [of 2 2 2 101000000 rs_demo 3286] by simp
  note r0 = r_init [OF demo_ctor]
  note r1 = r_update [OF r_plant [OF r0 demo_plant] u1]
  note r2 = r_update [OF r_move [OF r1 demo_walk_right] u2]
  note r3 = r_update [OF r_move [OF r2 demo_walk_down] u3]
  note r4 = r_update [OF r3 u4]
  from door_inv_exit_cells [OF reachable_door_inv [OF r4]] v
  have "exit_cells (grid st) = 0" by simp
  with u1 u2 u3 u4 r4 v show ?thesis
    by (auto simp: demo_ctor demo_plant demo_walk_right demo_walk_down)
qed

end
